(* ===== verification/Prelude.thy ===== *)
theory Prelude
  imports Main "HOL-Library.Word"
begin

text \<open>
  Shared vocabulary of the development: the outcome of a C++ function that may leave the
  process, the C string a byte buffer holds, bounded forward scans over array slots, counting
  lemmas for lists of thread states, and the two generic interfaces (invariants of step
  relations, round robin counters) that several components instantiate.
\<close>

section \<open>Types\<close>

text \<open>A file descriptor is a C \<open>int\<close> that the operating system chooses.\<close>

type_synonym fd = int
type_synonym byte = "8 word"
type_synonym bytes = "byte list"
type_synonym evmask = "32 word"

text \<open>
  How a C++ function ends: it returns, it calls \<open>exit\<close>, an \<open>assert\<close> fails, or it does
  something whose behaviour the language leaves undefined (an index out of range, a division by
  zero).
\<close>

datatype 'a outcome = Ret 'a | Exit int | Assert_failed | Undefined

text \<open>Sequencing of steps that may leave the process, and \<open>assert\<close>.\<close>

fun then_do :: "'a outcome \<times> 's \<Rightarrow> ('a \<Rightarrow> 's \<Rightarrow> 'b outcome \<times> 's) \<Rightarrow> 'b outcome \<times> 's" where
  "then_do (Ret a, s) f = f a s"
| "then_do (Exit n, s) f = (Exit n, s)"
| "then_do (Assert_failed, s) f = (Assert_failed, s)"
| "then_do (Undefined, s) f = (Undefined, s)"

definition assert_that :: "bool \<Rightarrow> 's \<Rightarrow> unit outcome \<times> 's" where
  "assert_that b s = (if b then Ret () else Assert_failed, s)"

lemma then_do_Ret_iff:
  "then_do m f = (Ret b, t) \<longleftrightarrow> (\<exists>a s. m = (Ret a, s) \<and> f a s = (Ret b, t))"
  by (cases "(m, f)" rule: then_do.cases) auto

lemma assert_that_Ret_iff [simp]: "assert_that b s = (Ret u, t) \<longleftrightarrow> b \<and> t = s"
  by (auto simp: assert_that_def)

text \<open>
  A \<open>for\<close> loop over events whose body goes on (\<open>Ret True\<close>), breaks (\<open>Ret False\<close>),
  leaves the process, or never returns (\<open>None\<close>).
\<close>

primrec for_each :: "('e \<Rightarrow> 's \<Rightarrow> (bool outcome \<times> 's) option) \<Rightarrow> 'e list \<Rightarrow> 's \<Rightarrow> (unit outcome \<times> 's) option" where
  "for_each h [] s = Some (Ret (), s)"
| "for_each h (x # xs) s =
     (case h x s of
        None \<Rightarrow> None
      | Some r \<Rightarrow>
         (case r of
            (Ret go_on, s') \<Rightarrow> if go_on then for_each h xs s' else Some (Ret (), s')
          | (Exit n, s') \<Rightarrow> Some (Exit n, s')
          | (Assert_failed, s') \<Rightarrow> Some (Assert_failed, s')
          | (Undefined, s') \<Rightarrow> Some (Undefined, s')))"

lemma for_each_invariant:
  assumes "for_each h xs s = Some (r, t)" and "P s"
    and "\<And>x s r t. x \<in> set xs \<Longrightarrow> P s \<Longrightarrow> h x s = Some (r, t) \<Longrightarrow> P t"
  shows "P t"
  using assms
proof (induction xs arbitrary: s)
  case (Cons x xs)
  obtain r' s' where h: "h x s = Some (r', s')"
    using Cons.prems(1) by (auto split: option.splits)
  then have s': "P s'" using Cons.prems(2,3) by auto
  have "P t" if "for_each h xs s' = Some (r, t)"
    by (rule Cons.IH [OF that s']) (use Cons.prems(3) in auto)
  then show ?case
    using Cons.prems(1) h s' by (cases r') (auto split: if_splits)
qed simp

lemma for_each_returns:
  assumes "P s"
    and "\<And>x s. x \<in> set xs \<Longrightarrow> P s \<Longrightarrow> \<exists>r t. h x s = Some (r, t) \<and> P t"
  shows "\<exists>r t. for_each h xs s = Some (r, t)"
  using assms
proof (induction xs arbitrary: s)
  case (Cons x xs)
  obtain r' s' where h: "h x s = Some (r', s')" "P s'"
    using Cons.prems by (meson list.set_intros(1))
  moreover have "\<exists>r t. for_each h xs s' = Some (r, t)"
    using Cons.prems(2) h(2) by (intro Cons.IH) auto
  ultimately show ?case by (cases r') auto
qed simp

text \<open>
  At most \<open>k\<close> rounds of \<open>while (c)\<close>: \<open>Ret True\<close> means the loop is still running after
  them, \<open>Ret False\<close> that it was left, by its condition or by a \<open>break\<close>.
\<close>

primrec while_rounds ::
  "('s \<Rightarrow> bool) \<Rightarrow> ('s \<Rightarrow> (bool outcome \<times> 's) option) \<Rightarrow> nat \<Rightarrow> 's \<Rightarrow> (bool outcome \<times> 's) option" where
  "while_rounds c body 0 s = Some (Ret True, s)"
| "while_rounds c body (Suc k) s =
     (if c s then
        (case body s of
           None \<Rightarrow> None
         | Some r \<Rightarrow> (case r of (Ret True, s') \<Rightarrow> while_rounds c body k s' | _ \<Rightarrow> Some r))
      else Some (Ret False, s))"

lemma while_rounds_invariant:
  assumes "while_rounds c body k s = Some (r, t)" and "P s"
    and "\<And>s r t. P s \<Longrightarrow> c s \<Longrightarrow> body s = Some (r, t) \<Longrightarrow> P t"
  shows "P t"
  using assms(1,2)
proof (induction k arbitrary: s)
  case (Suc k)
  show ?case
  proof (cases "c s")
    case True
    then obtain r' s' where b: "body s = Some (r', s')"
      using Suc.prems(1) by (auto split: option.splits)
    then have "P s'" using assms(3) Suc.prems(2) True by blast
    then show ?thesis
      using Suc b True by (auto split: outcome.splits bool.splits)
  qed (use Suc.prems in simp)
qed simp

text \<open>
  Loops whose body keeps \<open>P\<close> while it returns, and establishes \<open>B\<close> when it leaves the
  process.
\<close>

definition ends :: "('s \<Rightarrow> bool) \<Rightarrow> ('s \<Rightarrow> bool) \<Rightarrow> 'a outcome \<times> 's \<Rightarrow> bool" where
  "ends P B r \<longleftrightarrow> (case fst r of Ret _ \<Rightarrow> P (snd r) | _ \<Rightarrow> B (snd r))"

lemma ends_simps [simp]:
  "ends P B (Ret a, s) = P s" "ends P B (Exit n, s) = B s" "ends P B (Assert_failed, s) = B s"
  "ends P B (Undefined, s) = B s"
  by (simp_all add: ends_def)

lemma for_each_ends:
  assumes "for_each h xs s = Some r" and "P s"
    and "\<And>x s r. x \<in> set xs \<Longrightarrow> P s \<Longrightarrow> h x s = Some r \<Longrightarrow> ends P B r"
  shows "ends P B r"
  using assms
proof (induction xs arbitrary: s)
  case (Cons x xs)
  obtain r' s' where h: "h x s = Some (r', s')"
    using Cons.prems(1) by (auto split: option.splits)
  then have e: "ends P B (r', s')" using Cons.prems(2,3) by auto
  have "ends P B r" if "for_each h xs s' = Some r" "P s'"
    by (rule Cons.IH [OF that]) (use Cons.prems(3) in auto)
  then show ?case
    using Cons.prems(1) h e by (cases r') (auto split: if_splits)
qed auto

lemma while_rounds_ends:
  assumes "while_rounds c body k s = Some r" and "P s"
    and "\<And>s r. P s \<Longrightarrow> c s \<Longrightarrow> body s = Some r \<Longrightarrow> ends P B r"
  shows "ends P B r"
  using assms(1,2)
proof (induction k arbitrary: s)
  case (Suc k)
  show ?case
  proof (cases "c s")
    case True
    then obtain r' s' where b: "body s = Some (r', s')"
      using Suc.prems(1) by (auto split: option.splits)
    then have "ends P B (r', s')" using assms(3) Suc.prems(2) True by blast
    then show ?thesis
      using Suc b True by (cases r') (auto split: bool.splits)
  qed (use Suc.prems in auto)
qed auto

text \<open>
  The state after at most \<open>k\<close> rounds of a server's endless loop; it ends early only when a
  round leaves the process.
\<close>

primrec iterate :: "('s \<Rightarrow> unit outcome \<times> 's) \<Rightarrow> nat \<Rightarrow> 's \<Rightarrow> unit outcome \<times> 's" where
  "iterate body 0 s = (Ret (), s)"
| "iterate body (Suc k) s =
     (case body s of (Ret u, s') \<Rightarrow> iterate body k s' | (stop, s') \<Rightarrow> (stop, s'))"

lemma iterate_preserves:
  assumes "\<And>s. P s \<Longrightarrow> P (snd (body s))" and "P s"
  shows "P (snd (iterate body k s))"
  using assms(2)
proof (induction k arbitrary: s)
  case (Suc k)
  then show ?case
    using assms(1) [OF Suc.prems] by (cases "body s") (auto split: outcome.splits)
qed simp

text \<open>
  \<open>while (true)\<close> whose body goes on with a new state (\<open>Inl\<close>) or leaves the loop with a
  result (\<open>Inr\<close>). \<open>None\<close> is a loop that never leaves.
\<close>

partial_function (option) loop_until :: "('s \<Rightarrow> 's + 'r) \<Rightarrow> 's \<Rightarrow> 'r option" where
  "loop_until body s = (case body s of Inl s' \<Rightarrow> loop_until body s' | Inr r \<Rightarrow> Some r)"

declare loop_until.simps [code]

lemma loop_until_Inl [simp]: "body s = Inl s' \<Longrightarrow> loop_until body s = loop_until body s'"
  by (subst loop_until.simps) simp

lemma loop_until_Inr [simp]: "body s = Inr r \<Longrightarrow> loop_until body s = Some r"
  by (subst loop_until.simps) simp

text \<open>Total correctness from a measure, partial correctness from an invariant.\<close>

lemma loop_until_terminates:
  fixes m :: "'s \<Rightarrow> nat"
  assumes "\<And>s s'. P s \<Longrightarrow> body s = Inl s' \<Longrightarrow> P s' \<and> m s' < m s" and "P s"
  shows "\<exists>r. loop_until body s = Some r"
  using assms(2)
proof (induction "m s" arbitrary: s rule: less_induct)
  case less
  show ?case
  proof (cases "body s")
    case (Inl s')
    with assms(1) [OF less.prems Inl] less.hyps show ?thesis by auto
  qed simp
qed

lemma loop_until_invariant:
  assumes ret: "loop_until body s = Some r" and "P s"
    and step: "\<And>s s'. P s \<Longrightarrow> body s = Inl s' \<Longrightarrow> P s'"
    and leave: "\<And>s r. P s \<Longrightarrow> body s = Inr r \<Longrightarrow> Q r"
  shows "Q r"
proof -
  have "P s \<longrightarrow> Q r"
  proof (rule loop_until.raw_induct [where P = "\<lambda>b s r. b = body \<longrightarrow> P s \<longrightarrow> Q r", THEN mp, OF _ ret refl])
    fix f b s r
    assume IH: "\<And>b s r. f b s = Some r \<Longrightarrow> b = body \<longrightarrow> P s \<longrightarrow> Q r"
      and eq: "(case b s of Inl s' \<Rightarrow> f b s' | Inr r \<Rightarrow> Some r) = Some r"
    show "b = body \<longrightarrow> P s \<longrightarrow> Q r"
      using eq step leave IH by (auto split: sum.splits)
  qed
  then show ?thesis using assms(2) by blast
qed

lemma loop_until_map:
  fixes g :: "'r \<Rightarrow> 'q"
  defines "mapped \<equiv> \<lambda>body s. case body s of Inl t \<Rightarrow> Inl t | Inr r \<Rightarrow> Inr (g r)"
  shows "loop_until (mapped body) s = map_option g (loop_until body s)"
proof (cases "loop_until body s")
  case None
  have "\<exists>r. loop_until body s = Some r" if "loop_until (mapped body) s = Some r'" for r'
  proof (rule loop_until_invariant [OF that, where P = "\<lambda>t. loop_until body s = loop_until body t" and Q = "\<lambda>_. \<exists>r. loop_until body s = Some r"])
    fix t r assume eq: "loop_until body s = loop_until body t" and "mapped body t = Inr r"
    then obtain q where "body t = Inr q" by (auto simp: mapped_def split: sum.splits)
    then show "\<exists>r. loop_until body s = Some r" unfolding eq by simp
  qed (auto simp: mapped_def split: sum.splits)
  then show ?thesis using None by (cases "loop_until (mapped body) s") auto
next
  case (Some r)
  have "loop_until (mapped body) s = Some (g r)"
  proof (rule loop_until_invariant [OF Some, where P = "\<lambda>t. loop_until (mapped body) s = loop_until (mapped body) t"
        and Q = "\<lambda>r. loop_until (mapped body) s = Some (g r)"])
    fix t r assume eq: "loop_until (mapped body) s = loop_until (mapped body) t" and "body t = Inr r"
    then have "mapped body t = Inr (g r)" by (simp add: mapped_def)
    then show "loop_until (mapped body) s = Some (g r)" unfolding eq by simp
  next
    fix t t' assume eq: "loop_until (mapped body) s = loop_until (mapped body) t" and "body t = Inl t'"
    then have "mapped body t = Inl t'" by (simp add: mapped_def)
    then show "loop_until (mapped body) s = loop_until (mapped body) t'" unfolding eq by simp
  qed simp
  then show ?thesis using Some by simp
qed

section \<open>C strings\<close>

text \<open>What \<open>std::cout << buf\<close> and \<open>%s\<close> print: the bytes up to the first NUL.\<close>

definition cstr :: "bytes \<Rightarrow> bytes" where
  "cstr bs = takeWhile (\<lambda>b. b \<noteq> 0) bs"

lemma cstr_append_zero: "cstr (bs @ 0 # rest) = cstr bs"
  by (simp add: cstr_def takeWhile_tail)

lemma cstr_no_nul: "0 \<notin> set bs \<Longrightarrow> cstr bs = bs"
  by (simp add: cstr_def takeWhile_eq_all_conv) blast

lemma length_cstr: "length (cstr bs) \<le> length bs"
  by (simp add: cstr_def length_takeWhile_le)

text \<open>
  A buffer of fixed size that a call fills from its front: the bytes delivered, then whatever
  the buffer held before.
\<close>

definition fill_buf :: "bytes \<Rightarrow> bytes \<Rightarrow> bytes" where
  "fill_buf buf bs = bs @ drop (length bs) buf"

lemma length_fill_buf: "length bs \<le> length buf \<Longrightarrow> length (fill_buf buf bs) = length buf"
  by (simp add: fill_buf_def)

lemma cstr_fill_terminated:
  assumes "length bs < length buf"
  shows "cstr ((fill_buf buf bs)[length bs := 0]) = cstr bs"
proof -
  have "drop (length bs) buf = buf ! length bs # drop (Suc (length bs)) buf"
    using assms by (rule Cons_nth_drop_Suc [symmetric])
  then have "(fill_buf buf bs)[length bs := 0] = bs @ 0 # drop (Suc (length bs)) buf"
    by (simp add: fill_buf_def)
  then show ?thesis by (simp add: cstr_append_zero)
qed

lemma cstr_fill_zeroed:
  assumes "length bs < n"
  shows "cstr (fill_buf (replicate n 0) bs) = cstr bs"
proof -
  obtain k where "n - length bs = Suc k"
    using assms by (cases "n - length bs") auto
  then show ?thesis by (simp add: fill_buf_def cstr_append_zero)
qed

section \<open>Forward scans over slots\<close>

text \<open>
  \<open>for (i = from; i < n; i++) if (p(i)) break;\<close> leaves \<open>i\<close> at the first hit, or at
  \<open>n\<close>.
\<close>

function first_from :: "(nat \<Rightarrow> bool) \<Rightarrow> nat \<Rightarrow> nat \<Rightarrow> nat" where
  "first_from p n i = (if i < n then (if p i then i else first_from p n (Suc i)) else i)"
  by pat_completeness auto
termination
  by (relation "measure (\<lambda>(p, n, i). n - i)") auto

declare first_from.simps [simp del]

lemma first_from_bounds: "i \<le> n \<Longrightarrow> i \<le> first_from p n i \<and> first_from p n i \<le> n"
proof (induction p n i rule: first_from.induct)
  case (1 p n i)
  then show ?case by (subst (1 2) first_from.simps) auto
qed

lemma first_from_hit: "first_from p n i < n \<Longrightarrow> p (first_from p n i)"
proof (induction p n i rule: first_from.induct)
  case (1 p n i)
  from "1.prems" have "i < n"
    by (auto simp: first_from.simps [of p n i] split: if_splits)
  with "1" show ?case by (auto simp: first_from.simps [of p n i] split: if_splits)
qed

lemma first_from_least: "i \<le> j \<Longrightarrow> j < first_from p n i \<Longrightarrow> \<not> p j"
proof (induction p n i rule: first_from.induct)
  case (1 p n i)
  then have "i < n" and "\<not> p i"
    by (auto simp: first_from.simps [of p n i] split: if_splits)
  with "1" show ?case
    by (cases "i = j") (auto simp: first_from.simps [of p n i])
qed

lemma first_from_full_iff:
  "first_from p n 0 = n \<longleftrightarrow> (\<forall>j < n. \<not> p j)"
  using first_from_bounds [of 0 n p] first_from_hit [of p n 0] first_from_least [of 0 _ p n]
  by (metis le_less le0)

lemma first_from_cong:
  "(\<And>j. i \<le> j \<Longrightarrow> j < n \<Longrightarrow> p j = q j) \<Longrightarrow> first_from p n i = first_from q n i"
proof (induction p n i rule: first_from.induct)
  case (1 p n i)
  then show ?case by (subst (1 2) first_from.simps) auto
qed

section \<open>Counting thread states\<close>

definition count_if :: "('a \<Rightarrow> bool) \<Rightarrow> 'a list \<Rightarrow> nat" where
  "count_if p xs = length (filter p xs)"

lemma count_if_Nil [simp]: "count_if p [] = 0"
  by (simp add: count_if_def)

lemma count_if_Cons [simp]: "count_if p (x # xs) = (if p x then 1 else 0) + count_if p xs"
  by (simp add: count_if_def)

lemma count_if_update:
  "i < length xs \<Longrightarrow>
    count_if p (xs[i := y]) + (if p (xs ! i) then 1 else 0) =
    count_if p xs + (if p y then 1 else 0)"
proof (induction xs arbitrary: i)
  case (Cons x xs)
  then show ?case by (cases i) fastforce+
qed simp

lemma count_if_pos_iff: "0 < count_if p xs \<longleftrightarrow> (\<exists>i < length xs. p (xs ! i))"
  by (induction xs) (auto simp: less_Suc_eq_0_disj)

lemma count_if_replicate [simp]: "count_if p (replicate n x) = (if p x then n else 0)"
  by (induction n) auto

section \<open>Invariants of step relations\<close>

text \<open>
  A safety property of an interleaving is an invariant that every step keeps; it then holds in
  every state the steps reach.
\<close>

locale step_invariant =
  fixes step :: "'s \<Rightarrow> 's \<Rightarrow> bool"
    and good :: "'s \<Rightarrow> bool"
  assumes good_step: "step s t \<Longrightarrow> good s \<Longrightarrow> good t"
begin

lemma good_run: "step\<^sup>*\<^sup>* s t \<Longrightarrow> good s \<Longrightarrow> good t"
  by (induction rule: rtranclp_induct) (auto intro: good_step)

end

text \<open>
  A refinement: seen through \<open>abs\<close>, every step of a machine is a step of its specification
  or changes nothing. Runs then map to runs, and invariants of the specification hold of the
  machine.
\<close>

locale simulation = step_invariant step good
  for step :: "'s \<Rightarrow> 's \<Rightarrow> bool" and good :: "'s \<Rightarrow> bool" +
  fixes spec :: "'a \<Rightarrow> 'a \<Rightarrow> bool"
    and abs :: "'s \<Rightarrow> 'a"
  assumes refines_step: "step s t \<Longrightarrow> good s \<Longrightarrow> spec (abs s) (abs t) \<or> abs t = abs s"
begin

lemma refines_run: "step\<^sup>*\<^sup>* s t \<Longrightarrow> good s \<Longrightarrow> spec\<^sup>*\<^sup>* (abs s) (abs t)"
proof (induction rule: rtranclp_induct)
  case (step t u)
  then show ?case using refines_step [of t u] good_run [of s t] by (metis rtranclp.simps)
qed simp

end

text \<open>
  A machine that comes to rest: its steps use up what is \<open>left\<close>, and as long as it is not \<open>final\<close> its
  own steps (\<open>own\<close>, some of all steps) can go on. Then every schedule is bounded, and where the machine can do
  nothing more on its own it is final.
\<close>

locale comes_to_rest = step_invariant step good
  for step :: "'s \<Rightarrow> 's \<Rightarrow> bool" and good :: "'s \<Rightarrow> bool" +
  fixes own :: "'s \<Rightarrow> 's \<Rightarrow> bool"
    and left :: "'s \<Rightarrow> nat"
    and final :: "'s \<Rightarrow> bool"
  assumes own_step: "own s t \<Longrightarrow> step s t"
    and uses_up: "step s t \<Longrightarrow> good s \<Longrightarrow> left t < left s"
    and goes_on: "good s \<Longrightarrow> \<not> final s \<Longrightarrow> \<exists>t. own s t"
begin

lemma bounded: "(step ^^ k) s t \<Longrightarrow> good s \<Longrightarrow> good t \<and> k + left t \<le> left s"
proof (induction k arbitrary: t)
  case (Suc k)
  then obtain u where u: "(step ^^ k) s u" "step u t" by auto
  then show ?case using Suc.IH [OF u(1) Suc.prems(2)] good_step [OF u(2)] uses_up [OF u(2)] by fastforce
qed simp

lemma rests_final: "(step ^^ k) s t \<Longrightarrow> good s \<Longrightarrow> k \<le> left s \<and> ((\<nexists>u. own t u) \<longrightarrow> final t)"
  using bounded [of k s t] goes_on [of t] by fastforce

lemma reaches_final:
  assumes "good s"
  shows "\<exists>t. own\<^sup>*\<^sup>* s t \<and> final t"
  using assms
proof (induction "left s" arbitrary: s rule: less_induct)
  case less
  show ?case
  proof (cases "final s")
    case False
    then obtain t where t: "own s t" using goes_on less.prems by blast
    then obtain u where "own\<^sup>*\<^sup>* t u" "final u"
      using less.hyps uses_up good_step own_step less.prems by blast
    then show ?thesis using t by (meson converse_rtranclp_into_rtranclp)
  qed auto
qed

end

section \<open>Round robin counters\<close>

text \<open>
  Two servers hand connections to \<open>n\<close> workers in turn: a counter in \<open>0..<n\<close> that
  every dispatch advances by one, wrapping at \<open>n\<close>.
\<close>

locale round_robin =
  fixes advance :: "nat \<Rightarrow> nat \<Rightarrow> nat"
  assumes advance_spec: "c < n \<Longrightarrow> advance n c = Suc c mod n"
begin

lemma advance_less: "c < n \<Longrightarrow> advance n c < n"
  by (simp add: advance_spec)

lemma advance_iterate: "c < n \<Longrightarrow> (advance n ^^ k) c = (c + k) mod n"
proof (induction k)
  case 0
  then show ?case by simp
next
  case (Suc k)
  then show ?case by (simp add: advance_spec mod_Suc_eq)
qed

lemma visits_every_worker:
  assumes "c < n" and "w < n"
  shows "\<exists>k < n. (advance n ^^ k) c = w"
proof -
  have "(c + (if c \<le> w then w - c else w + n - c)) mod n = w"
    using assms by auto
  then show ?thesis
    using assms advance_iterate [OF assms(1)]
    by (intro exI [of _ "if c \<le> w then w - c else w + n - c"]) auto
qed

end

end
