(* ===== verification/ThreadSafeQueue.thy ===== *)
theory ThreadSafeQueue
  imports Prelude
begin

text \<open>
  \<open>zhaocc::ThreadSafeQueue\<close> (server/include/thread_safe_queue.hpp). The first part gives
  each member function its effect on the queue it protects; the second part runs the member
  functions of many threads against one mutex and one condition variable, one access to the queue,
  the mutex or the condition variable at a time, and shows mutual exclusion, first-in first-out
  delivery, that no wake-up is lost and that the threads never block each other for good.
\<close>

section \<open>The member functions\<close>

record 'a ThreadSafeQueue =
  data_queue :: "'a list"

definition tsq_new :: "'a ThreadSafeQueue" where
  "tsq_new = \<lparr>data_queue = []\<rparr>"

definition tsq_copy :: "'a ThreadSafeQueue \<Rightarrow> 'a ThreadSafeQueue" where
  "tsq_copy other = \<lparr>data_queue = data_queue other\<rparr>"

text \<open>
  The move constructor takes the elements of the other queue; the standard leaves what a moved
  \<open>std::queue\<close> still holds unspecified (\<open>left\<close>).
\<close>

definition tsq_move ::
  "'a list \<Rightarrow> 'a ThreadSafeQueue \<Rightarrow> 'a ThreadSafeQueue \<times> 'a ThreadSafeQueue" where
  "tsq_move left other = (\<lparr>data_queue = data_queue other\<rparr>, other\<lparr>data_queue := left\<rparr>)"

definition tsq_empty :: "'a ThreadSafeQueue \<Rightarrow> bool" where
  "tsq_empty q \<longleftrightarrow> data_queue q = []"

definition tsq_push :: "'a ThreadSafeQueue \<Rightarrow> 'a \<Rightarrow> 'a ThreadSafeQueue" where
  "tsq_push q new_val = q\<lparr>data_queue := data_queue q @ [new_val]\<rparr>"

text \<open>\<open>pop(T&)\<close>: \<open>None\<close> while the queue is empty, since the caller then waits.\<close>

definition tsq_pop :: "'a ThreadSafeQueue \<Rightarrow> ('a \<times> 'a ThreadSafeQueue) option" where
  "tsq_pop q =
     (if tsq_empty q then None
      else Some (hd (data_queue q), q\<lparr>data_queue := tl (data_queue q)\<rparr>))"

text \<open>
  \<open>try_pop(T& new_val)\<close>: the flag it returns, the new value of its reference argument, the
  queue.
\<close>

definition tsq_try_pop :: "'a ThreadSafeQueue \<Rightarrow> 'a \<Rightarrow> bool \<times> 'a \<times> 'a ThreadSafeQueue" where
  "tsq_try_pop q new_val =
     (if data_queue q = [] then (False, new_val, q)
      else (True, hd (data_queue q), q\<lparr>data_queue := tl (data_queue q)\<rparr>))"

text \<open>
  The overloads without a parameter, \<open>pop()\<close> and \<open>try_pop()\<close>. They return what the constructor
  \<open>std::shared_ptr<T>(_data_queue.front())\<close> makes of the head; the template compiles only for a
  \<open>T\<close> from which there is such a constructor, which is the parameter \<open>make_ptr\<close>. \<open>null\<close> is the
  pointer made by \<open>std::shared_ptr<T>()\<close>.
\<close>

definition tsq_pop_ptr ::
  "('a \<Rightarrow> 'p) \<Rightarrow> 'a ThreadSafeQueue \<Rightarrow> ('p \<times> 'a ThreadSafeQueue) option" where
  "tsq_pop_ptr make_ptr q =
     (if tsq_empty q then None
      else let res = make_ptr (hd (data_queue q))
           in Some (res, q\<lparr>data_queue := tl (data_queue q)\<rparr>))"

definition tsq_try_pop_ptr ::
  "('a \<Rightarrow> 'p) \<Rightarrow> 'p \<Rightarrow> 'a ThreadSafeQueue \<Rightarrow> 'p \<times> 'a ThreadSafeQueue" where
  "tsq_try_pop_ptr make_ptr null q =
     (if data_queue q = [] then (null, q)
      else let res = make_ptr (hd (data_queue q))
           in (res, q\<lparr>data_queue := tl (data_queue q)\<rparr>))"

text \<open>They take from the queue what the overloads with a parameter take, and differ in the conversion alone.\<close>

lemma tsq_pop_ptr_eq: "tsq_pop_ptr make_ptr q = map_option (map_prod make_ptr id) (tsq_pop q)"
  by (simp add: tsq_pop_ptr_def tsq_pop_def Let_def)

lemma tsq_try_pop_ptr_eq:
  "tsq_try_pop_ptr make_ptr null q =
     (case tsq_try_pop q v of (found, x, q') \<Rightarrow> (if found then make_ptr x else null, q'))"
  by (simp add: tsq_try_pop_ptr_def tsq_try_pop_def Let_def)

lemma tsq_push_pop_ptr:
  "data_queue q = [] \<Longrightarrow> tsq_pop_ptr make_ptr (tsq_push q x) = Some (make_ptr x, q)"
  by (simp add: tsq_pop_ptr_def tsq_push_def tsq_empty_def Let_def)

section \<open>The contract its clients use\<close>

text \<open>
  A queue whose content is the list \<open>elems q\<close>: \<open>push\<close> appends, \<open>try_pop\<close> takes the
  head and reports whether there was one.
\<close>

locale fifo_queue =
  fixes elems :: "'q \<Rightarrow> 'a list"
    and new :: 'q
    and push :: "'q \<Rightarrow> 'a \<Rightarrow> 'q"
    and try_pop :: "'q \<Rightarrow> 'a \<Rightarrow> bool \<times> 'a \<times> 'q"
  assumes elems_new: "elems new = []"
    and elems_push: "elems (push q x) = elems q @ [x]"
    and try_pop_empty: "elems q = [] \<Longrightarrow> try_pop q v = (False, v, q)"
    and try_pop_cons: "elems q = x # xs \<Longrightarrow> \<exists>q'. try_pop q v = (True, x, q') \<and> elems q' = xs"
begin

lemma elems_fold_push: "elems (fold (\<lambda>x q. push q x) xs q) = elems q @ xs"
  by (induction xs arbitrary: q) (simp_all add: elems_push)

lemma try_pop_flag: "fst (try_pop q v) \<longleftrightarrow> elems q \<noteq> []"
  using try_pop_empty [of q v] try_pop_cons [of q "hd (elems q)" "tl (elems q)" v]
  by (cases "elems q") auto

lemma try_pop_elems: "elems (snd (snd (try_pop q v))) = tl (elems q)"
  using try_pop_empty [of q v] try_pop_cons [of q "hd (elems q)" "tl (elems q)" v]
  by (cases "elems q") auto

lemma try_pop_value:
  "fst (snd (try_pop q v)) = (if elems q = [] then v else hd (elems q))"
  using try_pop_empty [of q v] try_pop_cons [of q "hd (elems q)" "tl (elems q)" v]
  by (cases "elems q") auto

end

interpretation tsq: fifo_queue data_queue tsq_new tsq_push tsq_try_pop
  by unfold_locales (auto simp: tsq_new_def tsq_push_def tsq_try_pop_def)

section \<open>Threads at the queue\<close>

text \<open>
  Where a thread is inside a member function. \<open>_enter\<close>: before the lock; \<open>_leave\<close>:
  before the destructor of the lock runs. In \<open>_queue_cond.wait\<close>: \<open>Pop_test\<close>, before the
  predicate; \<open>Pop_sleep\<close>, the predicate was false and the thread is about to release the lock and
  sleep; \<open>Pop_wait\<close>, asleep without the lock; \<open>Pop_wake\<close>, woken and about to lock again.
  \<open>_front\<close>: before \<open>_data_queue.front()\<close>; \<open>_remove x\<close>: \<open>x\<close> has been read from the front, before
  \<open>_data_queue.pop()\<close>.
\<close>

datatype 'a pc =
    Idle
  | Push_enter 'a | Push_body 'a | Push_notify | Push_leave
  | Pop_enter | Pop_test | Pop_sleep | Pop_wait | Pop_wake | Pop_front | Pop_remove 'a | Pop_leave 'a
  | Try_enter 'a | Try_test 'a | Try_front | Try_remove 'a | Try_leave bool 'a
  | Empty_enter | Empty_body | Empty_leave bool

record 'a tsq_state =
  que :: "'a ThreadSafeQueue"
  queue_mutex :: "nat option"
  pcs :: "'a pc list"
  pushed :: "'a list"
  popped :: "'a list"

definition set_pc :: "nat \<Rightarrow> 'a pc \<Rightarrow> 'a tsq_state \<Rightarrow> 'a tsq_state" where
  "set_pc i p s = s\<lparr>pcs := (pcs s)[i := p]\<rparr>"

definition at_pc :: "'a tsq_state \<Rightarrow> nat \<Rightarrow> 'a pc \<Rightarrow> bool" where
  "at_pc s i p \<longleftrightarrow> i < length (pcs s) \<and> pcs s ! i = p"

text \<open>
  One access of thread \<open>i\<close>. Testing the queue, reading its front and removing the front are
  separate steps, between which other threads run: nothing but the mutex keeps them away.
  \<open>front()\<close> and \<open>pop()\<close> of an empty \<open>std::queue\<close> are undefined, and no step. Only giving up the lock
  and falling asleep is one step, as \<open>std::condition_variable::wait\<close> guarantees. \<open>pushed\<close> and
  \<open>popped\<close> record, in order, the values that went in and were handed out; no step reads them. The
  overloads without a parameter make the same accesses in the same order.
\<close>

inductive tsq_step :: "nat \<Rightarrow> 'a tsq_state \<Rightarrow> 'a tsq_state \<Rightarrow> bool" where
  call_push: "at_pc s i Idle \<Longrightarrow> tsq_step i s (set_pc i (Push_enter x) s)"
| call_pop: "at_pc s i Idle \<Longrightarrow> tsq_step i s (set_pc i Pop_enter s)"
| call_try: "at_pc s i Idle \<Longrightarrow> tsq_step i s (set_pc i (Try_enter x) s)"
| call_empty: "at_pc s i Idle \<Longrightarrow> tsq_step i s (set_pc i Empty_enter s)"
| push_lock: "at_pc s i (Push_enter x) \<Longrightarrow> queue_mutex s = None \<Longrightarrow>
    tsq_step i s (set_pc i (Push_body x) (s\<lparr>queue_mutex := Some i\<rparr>))"
| push_body: "at_pc s i (Push_body x) \<Longrightarrow>
    tsq_step i s (set_pc i Push_notify (s\<lparr>que := tsq_push (que s) x, pushed := pushed s @ [x]\<rparr>))"
| push_notify_one: "at_pc s i Push_notify \<Longrightarrow> at_pc s j Pop_wait \<Longrightarrow>
    tsq_step i s (set_pc i Push_leave (set_pc j Pop_wake s))"
| push_notify_none: "at_pc s i Push_notify \<Longrightarrow> \<forall>j < length (pcs s). pcs s ! j \<noteq> Pop_wait \<Longrightarrow>
    tsq_step i s (set_pc i Push_leave s)"
| push_unlock: "at_pc s i Push_leave \<Longrightarrow>
    tsq_step i s (set_pc i Idle (s\<lparr>queue_mutex := None\<rparr>))"
| pop_lock: "at_pc s i Pop_enter \<Longrightarrow> queue_mutex s = None \<Longrightarrow>
    tsq_step i s (set_pc i Pop_test (s\<lparr>queue_mutex := Some i\<rparr>))"
| pop_test_empty: "at_pc s i Pop_test \<Longrightarrow> tsq_empty (que s) \<Longrightarrow>
    tsq_step i s (set_pc i Pop_sleep s)"
| pop_sleep: "at_pc s i Pop_sleep \<Longrightarrow>
    tsq_step i s (set_pc i Pop_wait (s\<lparr>queue_mutex := None\<rparr>))"
| pop_test_ready: "at_pc s i Pop_test \<Longrightarrow> \<not> tsq_empty (que s) \<Longrightarrow>
    tsq_step i s (set_pc i Pop_front s)"
| pop_spurious: "at_pc s i Pop_wait \<Longrightarrow> tsq_step i s (set_pc i Pop_wake s)"
| pop_relock: "at_pc s i Pop_wake \<Longrightarrow> queue_mutex s = None \<Longrightarrow>
    tsq_step i s (set_pc i Pop_test (s\<lparr>queue_mutex := Some i\<rparr>))"
| pop_front: "at_pc s i Pop_front \<Longrightarrow> data_queue (que s) = x # xs \<Longrightarrow>
    tsq_step i s (set_pc i (Pop_remove x) s)"
| pop_remove: "at_pc s i (Pop_remove x) \<Longrightarrow> data_queue (que s) = y # ys \<Longrightarrow>
    tsq_step i s (set_pc i (Pop_leave x) (s\<lparr>que := (que s)\<lparr>data_queue := ys\<rparr>, popped := popped s @ [x]\<rparr>))"
| pop_unlock: "at_pc s i (Pop_leave x) \<Longrightarrow>
    tsq_step i s (set_pc i Idle (s\<lparr>queue_mutex := None\<rparr>))"
| try_lock: "at_pc s i (Try_enter v) \<Longrightarrow> queue_mutex s = None \<Longrightarrow>
    tsq_step i s (set_pc i (Try_test v) (s\<lparr>queue_mutex := Some i\<rparr>))"
| try_test_empty: "at_pc s i (Try_test v) \<Longrightarrow> tsq_empty (que s) \<Longrightarrow>
    tsq_step i s (set_pc i (Try_leave False v) s)"
| try_test_ready: "at_pc s i (Try_test v) \<Longrightarrow> \<not> tsq_empty (que s) \<Longrightarrow>
    tsq_step i s (set_pc i Try_front s)"
| try_front: "at_pc s i Try_front \<Longrightarrow> data_queue (que s) = x # xs \<Longrightarrow>
    tsq_step i s (set_pc i (Try_remove x) s)"
| try_remove: "at_pc s i (Try_remove x) \<Longrightarrow> data_queue (que s) = y # ys \<Longrightarrow>
    tsq_step i s (set_pc i (Try_leave True x) (s\<lparr>que := (que s)\<lparr>data_queue := ys\<rparr>, popped := popped s @ [x]\<rparr>))"
| try_unlock: "at_pc s i (Try_leave b x) \<Longrightarrow>
    tsq_step i s (set_pc i Idle (s\<lparr>queue_mutex := None\<rparr>))"
| empty_lock: "at_pc s i Empty_enter \<Longrightarrow> queue_mutex s = None \<Longrightarrow>
    tsq_step i s (set_pc i Empty_body (s\<lparr>queue_mutex := Some i\<rparr>))"
| empty_body: "at_pc s i Empty_body \<Longrightarrow>
    tsq_step i s (set_pc i (Empty_leave (tsq_empty (que s))) s)"
| empty_unlock: "at_pc s i (Empty_leave b) \<Longrightarrow>
    tsq_step i s (set_pc i Idle (s\<lparr>queue_mutex := None\<rparr>))"

definition tsq_any :: "'a tsq_state \<Rightarrow> 'a tsq_state \<Rightarrow> bool" where
  "tsq_any s t \<longleftrightarrow> (\<exists>i. tsq_step i s t)"

definition tsq_init :: "nat \<Rightarrow> 'a tsq_state" where
  "tsq_init n = \<lparr>que = tsq_new, queue_mutex = None, pcs = replicate n Idle,
                 pushed = [], popped = []\<rparr>"

section \<open>Invariants\<close>

text \<open>The positions at which a thread holds the mutex.\<close>

fun holds :: "'a pc \<Rightarrow> bool" where
  "holds (Push_body _) = True" | "holds Push_notify = True" | "holds Push_leave = True"
| "holds Pop_test = True" | "holds Pop_sleep = True" | "holds Pop_front = True"
| "holds (Pop_remove _) = True" | "holds (Pop_leave _) = True"
| "holds (Try_test _) = True" | "holds Try_front = True" | "holds (Try_remove _) = True"
| "holds (Try_leave _ _) = True"
| "holds Empty_body = True" | "holds (Empty_leave _) = True"
| "holds _ = False"

text \<open>
  The positions of a thread that will look at the queue, or wake somebody who will, before it
  can fall asleep.
\<close>

fun coming :: "'a pc \<Rightarrow> bool" where
  "coming Push_notify = True" | "coming Pop_test = True" | "coming Pop_wake = True"
| "coming Pop_front = True" | "coming (Pop_remove _) = True" | "coming _ = False"

definition asleep :: "'a pc \<Rightarrow> bool" where
  "asleep p \<longleftrightarrow> p = Pop_wait"

definition lock_inv :: "'a tsq_state \<Rightarrow> bool" where
  "lock_inv s \<longleftrightarrow>
     (\<forall>i < length (pcs s). holds (pcs s ! i) \<longleftrightarrow> queue_mutex s = Some i) \<and>
     (\<forall>i. queue_mutex s = Some i \<longrightarrow> i < length (pcs s))"

definition fifo_inv :: "'a tsq_state \<Rightarrow> bool" where
  "fifo_inv s \<longleftrightarrow> pushed s = popped s @ data_queue (que s)"

text \<open>What a thread has learnt of the queue and relies on in its next accesses.\<close>

fun relies :: "'a pc \<Rightarrow> 'a list \<Rightarrow> bool" where
  "relies Pop_sleep q \<longleftrightarrow> q = []"
| "relies Pop_front q \<longleftrightarrow> q \<noteq> []"
| "relies (Pop_remove x) q \<longleftrightarrow> q \<noteq> [] \<and> hd q = x"
| "relies Try_front q \<longleftrightarrow> q \<noteq> []"
| "relies (Try_remove x) q \<longleftrightarrow> q \<noteq> [] \<and> hd q = x"
| "relies _ q \<longleftrightarrow> True"

definition rely_inv :: "'a tsq_state \<Rightarrow> bool" where
  "rely_inv s \<longleftrightarrow> (\<forall>i < length (pcs s). relies (pcs s ! i) (data_queue (que s)))"

definition wake_inv :: "'a tsq_state \<Rightarrow> bool" where
  "wake_inv s \<longleftrightarrow>
     (0 < count_if asleep (pcs s) \<longrightarrow> length (data_queue (que s)) \<le> count_if coming (pcs s))"

lemmas tsq_op_defs = tsq_push_def tsq_pop_def tsq_try_pop_def tsq_empty_def tsq_new_def

lemma set_pc_fields [simp]:
  "que (set_pc i p s) = que s" "queue_mutex (set_pc i p s) = queue_mutex s"
  "pcs (set_pc i p s) = (pcs s)[i := p]" "pushed (set_pc i p s) = pushed s"
  "popped (set_pc i p s) = popped s"
  by (simp_all add: set_pc_def)

lemma lock_inv_step: "tsq_step i s t \<Longrightarrow> lock_inv s \<Longrightarrow> lock_inv t"
  by (induction rule: tsq_step.induct)
     (auto simp: lock_inv_def at_pc_def nth_list_update split: if_splits)

text \<open>Only the holder of the mutex relies on anything, so nobody else takes it away.\<close>

lemma lock_inv_unique:
  "lock_inv s \<Longrightarrow> i < length (pcs s) \<Longrightarrow> j < length (pcs s) \<Longrightarrow>
    holds (pcs s ! i) \<Longrightarrow> holds (pcs s ! j) \<Longrightarrow> i = j"
  by (auto simp: lock_inv_def)

lemma relies_holds: "\<not> holds p \<Longrightarrow> relies p q"
  by (cases p) simp_all

lemma rely_inv_change:
  assumes "lock_inv s" and "at_pc s i p" and "holds p" and "pcs t = (pcs s)[i := p']"
    and "relies p' (data_queue (que t))"
  shows "rely_inv t"
  unfolding rely_inv_def
proof (intro allI impI)
  fix j assume j: "j < length (pcs t)"
  show "relies (pcs t ! j) (data_queue (que t))"
  proof (cases "j = i")
    case False
    then have "\<not> holds (pcs s ! j)"
      using lock_inv_unique [OF assms(1), of i j] assms(2,3,4) j by (auto simp: at_pc_def)
    then show ?thesis using False j assms(4) by (simp add: relies_holds)
  qed (use assms(2,4,5) in \<open>simp add: at_pc_def\<close>)
qed

lemma rely_inv_set_pc:
  assumes "rely_inv s" and "relies p (data_queue (que s))" and "que t = que s" and "pcs t = (pcs s)[i := p]"
  shows "rely_inv t"
  using assms by (auto simp: rely_inv_def) (metis nth_list_update_eq nth_list_update_neq)

lemma rely_inv_step:
  assumes "tsq_step i s t" and "lock_inv s" and "rely_inv s"
  shows "rely_inv t"
  using assms(1)
proof cases
  case (push_body x)
  then show ?thesis by (intro rely_inv_change [OF assms(2) push_body(2)]) auto
next
  case (push_notify_one j)
  have "rely_inv (set_pc j Pop_wake s)" by (rule rely_inv_set_pc [OF assms(3)]) simp_all
  then show ?thesis by (rule rely_inv_set_pc [where i = i and p = Push_leave]) (simp_all add: push_notify_one)
next
  case (pop_remove x y ys)
  then show ?thesis by (intro rely_inv_change [OF assms(2) pop_remove(2)]) auto
next
  case (try_remove x y ys)
  then show ?thesis by (intro rely_inv_change [OF assms(2) try_remove(2)]) auto
qed (auto simp: tsq_empty_def intro!: rely_inv_set_pc [OF assms(3)])

lemma rely_invD: "rely_inv s \<Longrightarrow> at_pc s i p \<Longrightarrow> relies p (data_queue (que s))"
  by (auto simp: rely_inv_def at_pc_def)

lemma fifo_inv_step:
  assumes "tsq_step i s t" and "rely_inv s" and "fifo_inv s"
  shows "fifo_inv t"
  using assms(1)
proof cases
  case (pop_remove x y ys)
  then show ?thesis using rely_invD [OF assms(2) pop_remove(2)] assms(3) by (simp add: fifo_inv_def)
next
  case (try_remove x y ys)
  then show ?thesis using rely_invD [OF assms(2) try_remove(2)] assms(3) by (simp add: fifo_inv_def)
qed (use assms(3) in \<open>auto simp: fifo_inv_def tsq_push_def\<close>)

text \<open>
  The counting behind \<open>wake_inv\<close>: moving one thread changes each count by what that thread
  contributed before and contributes now.
\<close>

lemma count_set_pc:
  assumes "at_pc s i p"
  shows "count_if f (pcs (set_pc i p' s)) + (if f p then 1 else 0) =
    count_if f (pcs s) + (if f p' then 1 else 0)"
  using count_if_update [of i "pcs s" f p'] assms by (simp add: at_pc_def)

lemma count_asleep_zero:
  "\<forall>j < length (pcs s). pcs s ! j \<noteq> Pop_wait \<Longrightarrow> count_if asleep (pcs s) = 0"
  using count_if_pos_iff [of asleep "pcs s"] by (auto simp: asleep_def)

lemma wake_inv_set_pc:
  assumes "at_pc s i p" and "wake_inv s"
    and "asleep p' \<longrightarrow> data_queue (que s) = []"
    and "coming p \<longrightarrow> coming p' \<or> data_queue (que s) = []"
  shows "wake_inv (set_pc i p' s)"
  using assms count_set_pc [OF assms(1), of asleep p'] count_set_pc [OF assms(1), of coming p']
  by (cases "data_queue (que s) = []") (auto simp: wake_inv_def split: if_splits)

lemma wake_inv_mutex [simp]:
  "wake_inv (set_pc i p (s\<lparr>queue_mutex := m\<rparr>)) = wake_inv (set_pc i p s)"
  by (simp add: wake_inv_def)

lemma wake_inv_push_body:
  assumes "at_pc s i (Push_body x)" and "wake_inv s"
  shows "wake_inv (set_pc i Push_notify (s\<lparr>que := tsq_push (que s) x, pushed := ps\<rparr>))"
  using assms count_set_pc [OF assms(1), of asleep Push_notify]
    count_set_pc [OF assms(1), of coming Push_notify]
  by (simp add: wake_inv_def tsq_push_def asleep_def)

lemma wake_inv_notify_one:
  assumes "at_pc s i Push_notify" and "at_pc s j Pop_wait" and "wake_inv s"
  shows "wake_inv (set_pc i Push_leave (set_pc j Pop_wake s))"
proof -
  have ij: "i \<noteq> j" using assms(1,2) by (auto simp: at_pc_def)
  then have at: "at_pc (set_pc j Pop_wake s) i Push_notify"
    using assms(1) by (simp add: at_pc_def)
  show ?thesis
    using assms(3) count_set_pc [OF assms(2), of coming Pop_wake]
      count_set_pc [OF assms(2), of asleep Pop_wake]
      count_set_pc [OF at, of coming Push_leave] count_set_pc [OF at, of asleep Push_leave]
    by (simp add: wake_inv_def asleep_def)
qed

lemma wake_inv_take:
  assumes "at_pc s i p" and "wake_inv s" and "\<not> asleep p'" and "\<not> coming p'"
    and "pcs t = (pcs s)[i := p']" and "data_queue (que t) = tl (data_queue (que s))"
    and "coming p \<longrightarrow> data_queue (que s) \<noteq> []"
  shows "wake_inv t"
  using assms count_set_pc [OF assms(1), of asleep p'] count_set_pc [OF assms(1), of coming p']
  by (cases "data_queue (que s)") (auto simp: wake_inv_def split: if_splits)

lemma wake_inv_step:
  assumes "tsq_step i s t" and "rely_inv s" and "wake_inv s"
  shows "wake_inv t"
  using assms(1)
proof cases
  case (push_body x)
  then show ?thesis using assms(3) by (simp add: wake_inv_push_body)
next
  case (push_notify_one j)
  then show ?thesis using assms(3) by (simp add: wake_inv_notify_one)
next
  case push_notify_none
  then show ?thesis
    using count_asleep_zero [of s] count_set_pc [of s i Push_notify asleep Push_leave]
    by (simp add: wake_inv_def asleep_def)
next
  case pop_sleep
  then show ?thesis
    using rely_invD [OF assms(2) pop_sleep(2)] by (simp add: wake_inv_set_pc [OF pop_sleep(2) assms(3)])
next
  case (pop_remove x y ys)
  then show ?thesis by (intro wake_inv_take [OF pop_remove(2) assms(3), of "Pop_leave x"]) (auto simp: asleep_def)
next
  case (try_remove x y ys)
  then show ?thesis by (intro wake_inv_take [OF try_remove(2) assms(3), of "Try_leave True x"]) (auto simp: asleep_def)
qed (simp_all, (erule wake_inv_set_pc [OF _ assms(3)]; simp add: asleep_def tsq_empty_def)+)

section \<open>Reachable states\<close>

definition tsq_inv :: "'a tsq_state \<Rightarrow> bool" where
  "tsq_inv s \<longleftrightarrow> lock_inv s \<and> fifo_inv s \<and> rely_inv s \<and> wake_inv s"

lemma tsq_inv_init: "tsq_inv (tsq_init n)"
  by (auto simp: tsq_inv_def tsq_init_def lock_inv_def fifo_inv_def rely_inv_def wake_inv_def
      tsq_new_def asleep_def)

interpretation tsq_runs: step_invariant tsq_any tsq_inv
  by unfold_locales
     (auto simp: tsq_any_def tsq_inv_def
       intro: lock_inv_step fifo_inv_step rely_inv_step wake_inv_step)

lemma tsq_reachable_inv: "tsq_any\<^sup>*\<^sup>* (tsq_init n) s \<Longrightarrow> tsq_inv s"
  using tsq_runs.good_run tsq_inv_init by blast

text \<open>A thread that is inside a member function and not asleep.\<close>

definition busy :: "'a pc \<Rightarrow> bool" where
  "busy p \<longleftrightarrow> p \<noteq> Idle \<and> p \<noteq> Pop_wait"

text \<open>The holder of the mutex can always take its next statement.\<close>

lemma holder_steps:
  assumes "rely_inv s" and "at_pc s i p" and "holds p"
  shows "\<exists>t. tsq_step i s t"
proof (cases p)
  case Push_notify
  show ?thesis
  proof (cases "\<exists>j. at_pc s j Pop_wait")
    case True
    then show ?thesis using assms(2) Push_notify push_notify_one by blast
  next
    case False
    then show ?thesis using assms(2) Push_notify push_notify_none by (auto simp: at_pc_def)
  qed
next
  case Pop_test
  then show ?thesis using assms(2) pop_test_empty pop_test_ready by blast
next
  case Pop_front
  then obtain y ys where "data_queue (que s) = y # ys"
    using rely_invD [OF assms(1,2)] by (cases "data_queue (que s)") auto
  then show ?thesis using pop_front [of s i] assms(2) Pop_front by blast
next
  case (Pop_remove x)
  then obtain y ys where "data_queue (que s) = y # ys"
    using rely_invD [OF assms(1,2)] by (cases "data_queue (que s)") auto
  then show ?thesis using pop_remove [of s i] assms(2) Pop_remove by blast
next
  case (Try_test v)
  then show ?thesis
    using try_test_empty [of s i v] try_test_ready [of s i v] assms(2) by (cases "tsq_empty (que s)") auto
next
  case Try_front
  then obtain y ys where "data_queue (que s) = y # ys"
    using rely_invD [OF assms(1,2)] by (cases "data_queue (que s)") auto
  then show ?thesis using try_front [of s i] assms(2) Try_front by blast
next
  case (Try_remove x)
  then obtain y ys where "data_queue (que s) = y # ys"
    using rely_invD [OF assms(1,2)] by (cases "data_queue (que s)") auto
  then show ?thesis using try_remove [of s i] assms(2) Try_remove by blast
qed (use assms(2,3) in
    \<open>auto dest: push_body push_unlock pop_sleep pop_unlock try_unlock empty_body empty_unlock\<close>)

text \<open>With the mutex free, a busy thread stands before a lock and can take it.\<close>

lemma free_mutex_steps:
  assumes "queue_mutex s = None" and "at_pc s i p" and "busy p" and "\<not> holds p"
  shows "\<exists>t. tsq_step i s t"
  using assms
  by (cases p)
     (auto simp: busy_def dest: push_lock pop_lock pop_relock try_lock empty_lock)

lemma tsq_reach_step: "tsq_any\<^sup>*\<^sup>* r s \<Longrightarrow> tsq_step i s t \<Longrightarrow> tsq_any\<^sup>*\<^sup>* r t"
  by (meson rtranclp.rtrancl_into_rtrancl tsq_any_def)

text \<open>
  The accesses of a thread between its two lock operations, taken one after the other, have the effect
  that the first part gives the member function.
\<close>

lemma pop_section:
  assumes "at_pc s i Pop_test" and "tsq_pop (que s) = Some (x, q)"
  shows "(tsq_step i ^^ 3) s (set_pc i (Pop_leave x) (s\<lparr>que := q, popped := popped s @ [x]\<rparr>))"
proof -
  let ?a = "set_pc i Pop_front s" and ?b = "set_pc i (Pop_remove x) (set_pc i Pop_front s)"
  obtain xs where q: "data_queue (que s) = x # xs" "q = (que s)\<lparr>data_queue := xs\<rparr>"
    using assms(2) by (cases "data_queue (que s)") (auto simp: tsq_pop_def tsq_empty_def)
  have "tsq_step i s ?a" using pop_test_ready [OF assms(1)] q(1) by (simp add: tsq_empty_def)
  moreover have "tsq_step i ?a ?b" using pop_front [of ?a i x xs] assms(1) q(1) by (simp add: at_pc_def)
  moreover have "tsq_step i ?b (set_pc i (Pop_leave x) (?b\<lparr>que := q, popped := popped s @ [x]\<rparr>))"
    using pop_remove [of ?b i x x xs] assms(1) q by (simp add: at_pc_def)
  moreover have "set_pc i (Pop_leave x) (?b\<lparr>que := q, popped := popped s @ [x]\<rparr>) =
      set_pc i (Pop_leave x) (s\<lparr>que := q, popped := popped s @ [x]\<rparr>)" by (simp add: set_pc_def)
  ultimately show ?thesis by (auto simp: numeral_3_eq_3)
qed

lemma try_section:
  assumes "at_pc s i (Try_test v)" and "tsq_try_pop (que s) v = (b, x, q)"
  shows "\<exists>k. (tsq_step i ^^ k) s
    (set_pc i (Try_leave b x) (s\<lparr>que := q, popped := popped s @ (if b then [x] else [])\<rparr>))"
proof (cases "data_queue (que s)")
  case Nil
  then have "b = False" "x = v" "q = que s" using assms(2) by (auto simp: tsq_try_pop_def)
  then show ?thesis
    using try_test_empty [OF assms(1)] Nil by (intro exI [of _ 1]) (auto simp: tsq_empty_def)
next
  case (Cons y ys)
  then have b: "b" "x = y" "q = (que s)\<lparr>data_queue := ys\<rparr>" using assms(2) by (auto simp: tsq_try_pop_def)
  let ?a = "set_pc i Try_front s" and ?b = "set_pc i (Try_remove x) (set_pc i Try_front s)"
  have "tsq_step i s ?a" using try_test_ready [OF assms(1)] Cons by (simp add: tsq_empty_def)
  moreover have "tsq_step i ?a ?b" using try_front [of ?a i x ys] assms(1) Cons b by (simp add: at_pc_def)
  moreover have "tsq_step i ?b (set_pc i (Try_leave True x) (?b\<lparr>que := q, popped := popped s @ [x]\<rparr>))"
    using try_remove [of ?b i x x ys] assms(1) Cons b by (simp add: at_pc_def)
  moreover have "set_pc i (Try_leave True x) (?b\<lparr>que := q, popped := popped s @ [x]\<rparr>) =
      set_pc i (Try_leave True x) (s\<lparr>que := q, popped := popped s @ [x]\<rparr>)" by (simp add: set_pc_def)
  ultimately show ?thesis using b(1) by (intro exI [of _ 3]) (auto simp: numeral_3_eq_3)
qed

section \<open>Properties\<close>

text \<open>
  C13. Mutual exclusion: in every state that any number of threads reach from an empty queue by
  calling its member functions, at most one thread is between taking the queue's mutex and
  releasing it.
\<close>

theorem tsq_mutual_exclusion:
  assumes "tsq_any\<^sup>*\<^sup>* (tsq_init n) s"
    and "i < length (pcs s)" and "j < length (pcs s)"
    and "holds (pcs s ! i)" and "holds (pcs s ! j)"
  shows "i = j"
  using tsq_reachable_inv [OF assms(1)] lock_inv_unique assms(2-) by (auto simp: tsq_inv_def)

text \<open>
  C14. First in, first out across threads: although a thread reads the front of the queue and removes
  it in two separate accesses, whatever the interleaving, the values that \<open>pop\<close> and \<open>try_pop\<close> handed out so
  far, in the order they were handed out, followed by the values still queued, are exactly the values
  pushed, in the order they were pushed. The lock is what makes the value read the one removed.
\<close>

theorem tsq_fifo_delivery:
  assumes "tsq_any\<^sup>*\<^sup>* (tsq_init n) s"
  shows "pushed s = popped s @ data_queue (que s)"
  using tsq_reachable_inv [OF assms] by (simp add: tsq_inv_def fifo_inv_def)

text \<open>
  C15. No lost wake-up: while a thread sleeps in \<open>pop\<close>, there are at least as many threads on
  their way to the queue (woken, testing, taking, or about to notify) as there are elements in
  it. Calling \<open>notify_one\<close> once per \<open>push\<close>, inside the lock, is therefore enough: no \<open>push\<close> falls
  between the test of the predicate and the sleep.
\<close>

theorem tsq_no_lost_wakeup:
  assumes "tsq_any\<^sup>*\<^sup>* (tsq_init n) s"
    and "i < length (pcs s)" and "pcs s ! i = Pop_wait"
  shows "length (data_queue (que s)) \<le> count_if coming (pcs s)"
proof -
  have "0 < count_if asleep (pcs s)"
    using assms(2,3) count_if_pos_iff [of asleep "pcs s"] by (auto simp: asleep_def)
  then show ?thesis using tsq_reachable_inv [OF assms(1)] by (simp add: tsq_inv_def wake_inv_def)
qed

text \<open>
  C16. The queue never blocks its users: in every reachable state in which some thread is inside
  a member function and not asleep, such a thread can take its next statement.
\<close>

theorem tsq_deadlock_free:
  assumes "tsq_any\<^sup>*\<^sup>* (tsq_init n) s"
    and "k < length (pcs s)" and "busy (pcs s ! k)"
  shows "\<exists>i t. i < length (pcs s) \<and> busy (pcs s ! i) \<and> tsq_step i s t"
proof (cases "queue_mutex s")
  case None
  have inv: "tsq_inv s" using assms(1) by (rule tsq_reachable_inv)
  then have "\<not> holds (pcs s ! k)"
    using None assms(2) by (auto simp: tsq_inv_def lock_inv_def)
  then show ?thesis
    using free_mutex_steps [OF None, of k] assms(2,3) by (auto simp: at_pc_def)
next
  case (Some i)
  have inv: "tsq_inv s" using assms(1) by (rule tsq_reachable_inv)
  then have i: "i < length (pcs s)" and h: "holds (pcs s ! i)"
    using Some by (auto simp: tsq_inv_def lock_inv_def)
  then have "busy (pcs s ! i)" by (auto simp: busy_def)
  moreover have "\<exists>t. tsq_step i s t"
    using holder_steps [of s i "pcs s ! i"] inv i h by (simp add: at_pc_def tsq_inv_def)
  ultimately show ?thesis using i by blast
qed

section \<open>Witnesses\<close>

text \<open>A run of two threads: the first sleeps in \<open>pop\<close>, the second pushes and is to notify.\<close>

definition demo_state :: "nat tsq_state" where
  "demo_state = \<lparr>que = \<lparr>data_queue = [7]\<rparr>, queue_mutex = Some 1, pcs = [Pop_wait, Push_notify],
                 pushed = [7], popped = []\<rparr>"

lemma demo_reachable: "tsq_any\<^sup>*\<^sup>* (tsq_init 2) demo_state"
proof -
  let ?r = "tsq_any\<^sup>*\<^sup>* (tsq_init 2 :: nat tsq_state)"
  let ?st = "\<lambda>q m ps pu. \<lparr>que = \<lparr>data_queue = q\<rparr>, queue_mutex = m, pcs = ps, pushed = pu, popped = []\<rparr>"
  have "?r (?st [] None [Idle, Idle] [])"
    by (simp add: tsq_init_def tsq_new_def numeral_2_eq_2)
  then have "?r (?st [] None [Pop_enter, Idle] [])"
    by (rule tsq_reach_step) (use call_pop [of "?st [] None [Idle, Idle] []" 0] in \<open>simp add: at_pc_def set_pc_def\<close>)
  then have "?r (?st [] (Some 0) [Pop_test, Idle] [])"
    by (rule tsq_reach_step)
       (use pop_lock [of "?st [] None [Pop_enter, Idle] []" 0] in \<open>simp add: at_pc_def set_pc_def\<close>)
  then have "?r (?st [] (Some 0) [Pop_sleep, Idle] [])"
    by (rule tsq_reach_step)
       (use pop_test_empty [of "?st [] (Some 0) [Pop_test, Idle] []" 0] in
         \<open>simp add: at_pc_def set_pc_def tsq_empty_def\<close>)
  then have "?r (?st [] None [Pop_wait, Idle] [])"
    by (rule tsq_reach_step)
       (use pop_sleep [of "?st [] (Some 0) [Pop_sleep, Idle] []" 0] in \<open>simp add: at_pc_def set_pc_def\<close>)
  then have "?r (?st [] None [Pop_wait, Push_enter 7] [])"
    by (rule tsq_reach_step)
       (use call_push [of "?st [] None [Pop_wait, Idle] []" 1 7] in \<open>simp add: at_pc_def set_pc_def\<close>)
  then have "?r (?st [] (Some 1) [Pop_wait, Push_body 7] [])"
    by (rule tsq_reach_step)
       (use push_lock [of "?st [] None [Pop_wait, Push_enter 7] []" 1 7] in
         \<open>simp add: at_pc_def set_pc_def\<close>)
  then have "?r (?st [7] (Some 1) [Pop_wait, Push_notify] [7])"
    by (rule tsq_reach_step)
       (use push_body [of "?st [] (Some 1) [Pop_wait, Push_body 7] []" 1 7] in
         \<open>simp add: at_pc_def set_pc_def tsq_push_def\<close>)
  then show ?thesis by (simp add: demo_state_def)
qed

theorem tsq_mutual_exclusion_witness:
  "holds (pcs demo_state ! 1) \<and> (1::nat) = 1"
  using tsq_mutual_exclusion [OF demo_reachable, of 1 1] by (simp add: demo_state_def)

theorem tsq_fifo_delivery_witness:
  "pushed demo_state = popped demo_state @ data_queue (que demo_state) \<and> pushed demo_state = [7]"
  using tsq_fifo_delivery [OF demo_reachable] by (simp add: demo_state_def)

theorem tsq_no_lost_wakeup_witness:
  "length (data_queue (que demo_state)) = 1 \<and>
   length (data_queue (que demo_state)) \<le> count_if coming (pcs demo_state)"
  using tsq_no_lost_wakeup [OF demo_reachable, of 0] by (simp add: demo_state_def)

theorem tsq_deadlock_free_witness:
  "\<exists>i t. i < length (pcs demo_state) \<and> busy (pcs demo_state ! i) \<and> tsq_step i demo_state t"
  using tsq_deadlock_free [OF demo_reachable, of 1] by (simp add: demo_state_def busy_def)

end
