(* ===== verification/Posix.thy ===== *)
theory Posix
  imports Prelude
begin

text \<open>
  The boundary between the program and everything that is not its source: the system calls,
  the C library and libevent. A call that leaves the program is a value of \<open>extcall\<close>; what
  answers it is a parameter \<open>e\<close> of the definitions, a function from a hidden world and a
  call to an answer and a new world. \<open>ext\<close> performs one call: it asks \<open>e\<close>, sets
  \<open>errno\<close> when the call failed and records the call in a trace.

  The documented behaviour that a theorem relies on is stated as a named predicate of \<open>e\<close>
  (\<open>fd_law\<close>, \<open>recv_law\<close>), never built into the definitions.
\<close>

section \<open>Constants of the platform's headers\<close>

definition EAGAIN :: int where "EAGAIN = 11"
definition EWOULDBLOCK :: int where "EWOULDBLOCK = EAGAIN"
definition EINTR :: int where "EINTR = 4"
definition O_NONBLOCK :: int where "O_NONBLOCK = 2048"
definition EPOLLIN :: evmask where "EPOLLIN = 1"
definition EPOLLET :: evmask where "EPOLLET = push_bit 31 1"
definition POLLIN :: evmask where "POLLIN = 1"
definition SIGINT :: int where "SIGINT = 2"
definition SIGPIPE :: int where "SIGPIPE = 13"
definition SIGALRM :: int where "SIGALRM = 14"
definition SIGTERM :: int where "SIGTERM = 15"
definition SIGCHLD :: int where "SIGCHLD = 17"
definition SIGURG :: int where "SIGURG = 23"
definition FD_SETSIZE :: int where "FD_SETSIZE = 1024"

lemmas errno_defs = EAGAIN_def EWOULDBLOCK_def EINTR_def
lemmas mask_defs = EPOLLIN_def EPOLLET_def POLLIN_def
lemmas signal_defs = SIGINT_def SIGPIPE_def SIGALRM_def SIGTERM_def SIGCHLD_def SIGURG_def

text \<open>\<open>BUF_SIZE\<close> of tools.hpp: the size of every receive buffer of the servers.\<close>

definition BUF_SIZE :: nat where "BUF_SIZE = 4096"

section \<open>Calls and answers\<close>

text \<open>The disposition a \<open>sigaction\<close> call installs.\<close>

datatype sig_action = Handler string | Ignore

text \<open>
  The calls into libevent. Its objects are pointers, here the integers the creating call returns;
  callbacks are named by the function that is registered.
\<close>

datatype levcall =
    Base_new
  | Base_dispatch int
  | Base_loopexit int
  | Base_free int
  | Event_new int fd string
  | Event_assign int int fd string
  | Evsignal_new int int string
  | Event_add int
  | Event_free int
  | Evconnlistener_new_bind int string "32 word" "16 word"
  | Evconnlistener_free int
  | Bev_socket_new int fd
  | Bev_setcb int string string
  | Bev_enable int
  | Bev_connect int "32 word" "16 word"
  | Bev_getfd int
  | Bev_read int nat
  | Bev_write int bytes
  | Bev_free int

datatype extcall =
    C_socket
  | C_setsockopt fd string int
  | C_getsockopt fd string
  | C_bind fd "32 word" "16 word"
  | C_listen fd int
  | C_accept fd
  | C_connect fd "32 word" "16 word"
  | C_recv fd nat
  | C_send fd bytes
  | C_close fd
  | C_getfl fd
  | C_setfl fd int
  | C_socketpair
  | C_sigaction int sig_action bool
  | C_select int "fd list" int
  | C_poll "(fd \<times> evmask) list" int
  | C_epoll_create int
  | C_epoll_add fd fd evmask
  | C_epoll_del fd fd
  | C_epoll_wait fd int int
  | C_fork
  | C_waitpid
  | C_kill int int
  | C_sleep_ms nat
  | C_nonblocking fd
  | C_reuseable fd
  | C_now_ms
  | C_open string string
  | C_fstat fd
  | C_sendfile fd fd int
  | C_umask int
  | C_setsid
  | C_chdir string
  | C_setrlimit int
  | C_getrlimit
  | C_lev levcall

text \<open>
  What a call delivers besides its return value: the bytes of a \<open>recv\<close>, the ready
  descriptors of a \<open>select\<close>, the \<open>revents\<close> of a \<open>poll\<close>, the events of an
  \<open>epoll_wait\<close>, the two ends of a \<open>socketpair\<close>, the number a \<open>getsockopt\<close> or an
  \<open>fstat\<close> stores.
\<close>

datatype payload =
    P_none
  | P_bytes bytes
  | P_fds "fd list"
  | P_revents "evmask list"
  | P_events "(fd \<times> evmask) list"
  | P_pair fd fd
  | P_int int

record answer =
  ret :: int
  eno :: int
  payload :: payload

type_synonym 'w env = "'w \<Rightarrow> extcall \<Rightarrow> answer \<times> 'w"

fun bytes_of :: "payload \<Rightarrow> bytes" where
  "bytes_of (P_bytes bs) = bs"
| "bytes_of _ = []"

fun fds_of :: "payload \<Rightarrow> fd list" where
  "fds_of (P_fds l) = l"
| "fds_of _ = []"

fun revents_of :: "payload \<Rightarrow> evmask list" where
  "revents_of (P_revents l) = l"
| "revents_of _ = []"

fun events_of :: "payload \<Rightarrow> (fd \<times> evmask) list" where
  "events_of (P_events l) = l"
| "events_of _ = []"

fun pair_of :: "payload \<Rightarrow> fd \<times> fd" where
  "pair_of (P_pair a b) = (a, b)"
| "pair_of _ = (-1, -1)"

fun int_of :: "payload \<Rightarrow> int" where
  "int_of (P_int n) = n"
| "int_of _ = 0"

section \<open>The process\<close>

text \<open>
  What the program writes to \<open>std::cout\<close> and to syslog. Both get the same text
  (some lines go to one of them only), so one entry stands for both lines; fixed texts are kept as they are, the lines that
  carry data have a constructor of their own.
\<close>

datatype logline =
    L_text string
  | L_accept_failed int
  | L_connected fd
  | L_recv fd int bytes
  | L_recv_failed fd int
  | L_disconnect fd
  | L_added fd
  | L_added_len fd nat
  | L_wait_failed int
  | L_signal int
  | L_closed fd nat
  | L_closed_fd fd
  | L_exited int
  | L_data string "int list" bytes

record 'w proc =
  world :: 'w
  errno :: int
  trace :: "(extcall \<times> answer) list"
  out :: "logline list"

definition ext :: "'w env \<Rightarrow> extcall \<Rightarrow> ('w, 'x) proc_scheme \<Rightarrow> answer \<times> ('w, 'x) proc_scheme" where
  "ext e c s =
     (let a = fst (e (world s) c)
      in (a, s\<lparr>world := snd (e (world s) c),
               errno := (if ret a < 0 then eno a else errno s),
               trace := trace s @ [(c, a)]\<rparr>))"

definition log :: "logline \<Rightarrow> ('w, 'x) proc_scheme \<Rightarrow> ('w, 'x) proc_scheme" where
  "log l s = s\<lparr>out := out s @ [l]\<rparr>"

text \<open>A call whose answer the code ignores.\<close>

abbreviation extu :: "'w env \<Rightarrow> extcall \<Rightarrow> ('w, 'x) proc_scheme \<Rightarrow> ('w, 'x) proc_scheme" where
  "extu e c s \<equiv> snd (ext e c s)"

text \<open>The calls of a trace, without their answers.\<close>

abbreviation calls :: "('w, 'x) proc_scheme \<Rightarrow> extcall list" where
  "calls s \<equiv> map fst (trace s)"

text \<open>
  The condition every reader tests after a failed \<open>recv\<close>:
  \<open>errno == EAGAIN || errno == EWOULDBLOCK\<close>.
\<close>

abbreviation would_block :: "int \<Rightarrow> bool" where
  "would_block err \<equiv> err = EAGAIN \<or> err = EWOULDBLOCK"

lemma fst_ext [simp]: "fst (ext e c s) = fst (e (world s) c)"
  by (simp add: ext_def Let_def)

lemma ext_pair: "ext e c s = (fst (e (world s) c), extu e c s)"
  by (simp add: prod_eq_iff)

lemma ext_fields [simp]:
  "world (extu e c s) = snd (e (world s) c)"
  "errno (extu e c s) =
     (if ret (fst (e (world s) c)) < 0 then eno (fst (e (world s) c)) else errno s)"
  "trace (extu e c s) = trace s @ [(c, fst (e (world s) c))]"
  "out (extu e c s) = out s"
  "proc.more (extu e c s) = proc.more s"
  by (simp_all add: ext_def Let_def)

lemma log_fields [simp]:
  "world (log l s) = world s" "errno (log l s) = errno s" "trace (log l s) = trace s"
  "out (log l s) = out s @ [l]" "proc.more (log l s) = proc.more s"
  by (simp_all add: log_def)

text \<open>An operation never rewrites the calls made before it.\<close>

definition extends :: "('w, 'x) proc_scheme \<Rightarrow> ('w, 'y) proc_scheme \<Rightarrow> bool" where
  "extends s t \<longleftrightarrow> (\<exists>l. trace t = trace s @ l)"

lemma extends_refl [simp]: "extends s s"
  by (simp add: extends_def)

lemma extends_trans: "extends s t \<Longrightarrow> extends t u \<Longrightarrow> extends s u"
  by (auto simp: extends_def)

lemma extends_ext [simp]: "extends s (extu e c t) \<longleftrightarrow> (extends s t \<or> trace s = trace t @ [(c, fst (e (world t) c))])"
  by (auto simp: extends_def append_eq_append_conv2 Cons_eq_append_conv)

lemma extends_extI: "extends s t \<Longrightarrow> extends s (extu e c t)"
  by simp

lemma extends_log [simp]: "extends s (log l t) = extends s t"
  by (simp add: extends_def)

lemma extends_fold:
  "(\<And>x s. extends s (f x s)) \<Longrightarrow> extends s (fold f xs s)"
  by (induction xs arbitrary: s) (auto intro: extends_trans)

lemma extends_nth: "extends s t \<Longrightarrow> i < length (trace s) \<Longrightarrow> trace t ! i = trace s ! i"
  by (auto simp: extends_def nth_append)

text \<open>The descriptors a list of calls receives from.\<close>

definition recvs :: "extcall list \<Rightarrow> fd set" where
  "recvs cs = {f. \<exists>n. C_recv f n \<in> set cs}"

lemma recvs_Nil [simp]: "recvs [] = {}"
  by (simp add: recvs_def)

lemma recvs_append [simp]: "recvs (xs @ ys) = recvs xs \<union> recvs ys"
  by (auto simp: recvs_def)

lemma recvs_Cons [simp]:
  "recvs (c # cs) = (case c of C_recv f n \<Rightarrow> {f} | _ \<Rightarrow> {}) \<union> recvs cs"
  by (cases c) (auto simp: recvs_def)

section \<open>Documented behaviour of the descriptor table\<close>

text \<open>The descriptors a call opens and the ones it closes.\<close>

fun opened :: "extcall \<Rightarrow> answer \<Rightarrow> fd set" where
  "opened C_socket a = (if 0 \<le> ret a then {ret a} else {})"
| "opened (C_accept _) a = (if 0 \<le> ret a then {ret a} else {})"
| "opened (C_epoll_create _) a = (if 0 \<le> ret a then {ret a} else {})"
| "opened (C_open _ _) a = (if 0 \<le> ret a then {ret a} else {})"
| "opened C_socketpair a =
     (if ret a = 0 then {fst (pair_of (payload a)), snd (pair_of (payload a))} else {})"
| "opened _ a = {}"

fun released :: "extcall \<Rightarrow> fd set" where
  "released (C_close f) = {f}"
| "released _ = {}"

text \<open>
  libevent opens and closes descriptors of its own; the law of the descriptor table is about the
  other calls.
\<close>

fun plain :: "extcall \<Rightarrow> bool" where
  "plain (C_lev _) = False"
| "plain _ = True"

text \<open>
  \<open>tab w\<close> is the set of open descriptors of the process in world \<open>w\<close>. A call that
  opens descriptors returns fresh ones, \<open>close\<close> frees the one it is given (Linux frees it
  even when \<open>close\<close> reports an error), every other call leaves the table alone.
\<close>

definition fd_law :: "('w \<Rightarrow> fd set) \<Rightarrow> 'w env \<Rightarrow> bool" where
  "fd_law tab e \<longleftrightarrow>
     (\<forall>w c. plain c \<longrightarrow> opened c (fst (e w c)) \<inter> tab w = {} \<and>
            (\<forall>f \<in> opened c (fst (e w c)). 0 \<le> f) \<and>
            tab (snd (e w c)) = (tab w - released c) \<union> opened c (fst (e w c)))"

lemma fd_law_tab:
  "fd_law tab e \<Longrightarrow> plain c \<Longrightarrow> tab (snd (e w c)) = (tab w - released c) \<union> opened c (fst (e w c))"
  by (simp add: fd_law_def)

lemma opened_plain: "f \<in> opened c a \<Longrightarrow> plain c"
  by (cases c) simp_all

lemma fd_law_fresh: "fd_law tab e \<Longrightarrow> f \<in> opened c (fst (e w c)) \<Longrightarrow> f \<notin> tab w \<and> 0 \<le> f"
  using opened_plain unfolding fd_law_def by blast

lemma fd_law_frame:
  "fd_law tab e \<Longrightarrow> plain c \<Longrightarrow> released c = {} \<Longrightarrow> opened c (fst (e w c)) = {} \<Longrightarrow> tab (snd (e w c)) = tab w"
  by (simp add: fd_law_tab)

text \<open>The two ends of a socket pair are different descriptors.\<close>

definition pair_law :: "'w env \<Rightarrow> bool" where
  "pair_law e \<longleftrightarrow>
     (\<forall>w. let a = fst (e w C_socketpair) in
        ret a = 0 \<longrightarrow> fst (pair_of (payload a)) \<noteq> snd (pair_of (payload a)))"

text \<open>\<open>waitpid\<close> reports each exited child once: \<open>kids w\<close> bounds how often it still succeeds.\<close>

definition waitpid_finite :: "('w \<Rightarrow> nat) \<Rightarrow> 'w env \<Rightarrow> bool" where
  "waitpid_finite kids e \<longleftrightarrow>
     (\<forall>w. 0 < ret (fst (e w C_waitpid)) \<longrightarrow> kids (snd (e w C_waitpid)) < kids w) \<and>
     (\<forall>w f. kids (snd (e w (C_close f))) \<le> kids w)"

text \<open>
  \<open>recv\<close> never delivers more than it was asked for, a positive result is the number of
  bytes delivered, and a result that is not positive delivers nothing.
\<close>

definition recv_law :: "'w env \<Rightarrow> bool" where
  "recv_law e \<longleftrightarrow>
     (\<forall>w f n. let a = fst (e w (C_recv f n)) in
        -1 \<le> ret a \<and> ret a \<le> int n \<and>
        length (bytes_of (payload a)) = (if 0 < ret a then nat (ret a) else 0))"

lemma recv_law_length:
  assumes "recv_law e"
  shows "length (bytes_of (payload (fst (e w (C_recv f n))))) \<le> n"
    and "-1 \<le> ret (fst (e w (C_recv f n)))"
    and "ret (fst (e w (C_recv f n))) \<le> int n"
proof -
  have law: "-1 \<le> ret (fst (e w (C_recv f n))) \<and> ret (fst (e w (C_recv f n))) \<le> int n \<and>
    length (bytes_of (payload (fst (e w (C_recv f n))))) =
      (if 0 < ret (fst (e w (C_recv f n))) then nat (ret (fst (e w (C_recv f n)))) else 0)"
    using assms unfolding recv_law_def Let_def by blast
  then show "length (bytes_of (payload (fst (e w (C_recv f n))))) \<le> n"
    and "-1 \<le> ret (fst (e w (C_recv f n)))"
    and "ret (fst (e w (C_recv f n))) \<le> int n"
    by (auto simp: nat_le_iff)
qed

text \<open>
  \<open>poll\<close> answers for every entry, and with 0 for an entry whose descriptor is negative.
\<close>

definition poll_law :: "'w env \<Rightarrow> bool" where
  "poll_law e \<longleftrightarrow>
     (\<forall>w l t. let a = fst (e w (C_poll l t)) in
        -1 \<le> ret a \<and>
        (0 \<le> ret a \<longrightarrow> length (revents_of (payload a)) = length l \<and>
          (\<forall>i < length l. fst (l ! i) < 0 \<longrightarrow> revents_of (payload a) ! i = 0)))"

lemma poll_lawD:
  assumes "poll_law e"
  shows "-1 \<le> ret (fst (e w (C_poll l t)))"
    and "0 \<le> ret (fst (e w (C_poll l t))) \<Longrightarrow>
      length (revents_of (payload (fst (e w (C_poll l t))))) = length l"
    and "0 \<le> ret (fst (e w (C_poll l t))) \<Longrightarrow> i < length l \<Longrightarrow> fst (l ! i) < 0 \<Longrightarrow>
      revents_of (payload (fst (e w (C_poll l t)))) ! i = 0"
  using assms unfolding poll_law_def Let_def by blast+

text \<open>\<open>select\<close> leaves in the set only descriptors that were in it.\<close>

definition select_law :: "'w env \<Rightarrow> bool" where
  "select_law e \<longleftrightarrow>
     (\<forall>w n l t. set (fds_of (payload (fst (e w (C_select n l t))))) \<subseteq> set l)"

text \<open>
  \<open>reg w\<close> is the set of descriptors some epoll instance watches. Besides libevent, only
  \<open>EPOLL_CTL_ADD\<close> adds one, and \<open>epoll_wait\<close> reports none but these.
\<close>

fun watched :: "extcall \<Rightarrow> fd set" where
  "watched (C_epoll_add ep f m) = {f}"
| "watched (C_lev _) = UNIV"
| "watched _ = {}"

definition epoll_law :: "('w \<Rightarrow> fd set) \<Rightarrow> 'w env \<Rightarrow> bool" where
  "epoll_law reg e \<longleftrightarrow>
     (\<forall>w c. reg (snd (e w c)) \<subseteq> reg w \<union> watched c) \<and>
     (\<forall>w ep n t. fst ` set (events_of (payload (fst (e w (C_epoll_wait ep n t))))) \<subseteq> reg w)"

text \<open>
  The input pending on a descriptor is finite and a successful \<open>recv\<close> consumes some of it:
  \<open>pend w f\<close> is an amount that every positive answer lowers.
\<close>

definition recv_finite :: "('w \<Rightarrow> fd \<Rightarrow> nat) \<Rightarrow> 'w env \<Rightarrow> bool" where
  "recv_finite pend e \<longleftrightarrow>
     (\<forall>w f n. 0 < ret (fst (e w (C_recv f n))) \<longrightarrow> pend (snd (e w (C_recv f n))) f < pend w f)"

section \<open>Loops that read until nothing is left\<close>

text \<open>
  The servers' read loops have one thing in common: they go round again only after a \<open>recv\<close>
  on their descriptor returned a positive count, and touch nothing else of the outside world
  before that. Such a loop ends whenever the pending input is finite.
\<close>

locale recv_loop =
  fixes e :: "'w env"
    and fd_of :: "'s \<Rightarrow> fd"
    and n :: nat
    and world_of :: "'s \<Rightarrow> 'w"
    and body :: "'s \<Rightarrow> 's + 'r"
  assumes continues: "body s = Inl s' \<Longrightarrow>
     0 < ret (fst (e (world_of s) (C_recv (fd_of s) n))) \<and>
     world_of s' = snd (e (world_of s) (C_recv (fd_of s) n)) \<and> fd_of s' = fd_of s"
begin

lemma terminates: "recv_finite pend e \<Longrightarrow> \<exists>r. loop_until body s = Some r"
  by (rule loop_until_terminates [where m = "\<lambda>s. pend (world_of s) (fd_of s)" and P = "\<lambda>_. True"])
     (use continues in \<open>auto simp: recv_finite_def\<close>)

end

text \<open>
  \<open>as\<close> are the positive answers of the loop so far: each is one \<open>recv\<close> in the trace and
  one logged message.
\<close>

definition drained :: "fd \<Rightarrow> ('w, 'x) proc_scheme \<Rightarrow> answer list \<Rightarrow> ('w, 'x) proc_scheme \<Rightarrow> bool" where
  "drained f s as t \<longleftrightarrow>
     (\<forall>a \<in> set as. 0 < ret a) \<and>
     trace t = trace s @ map (Pair (C_recv f (BUF_SIZE - 1))) as \<and>
     out t = out s @ map (\<lambda>a. L_recv f (ret a) (cstr (bytes_of (payload a)))) as"

lemma drained_Nil: "drained f s [] s"
  by (simp add: drained_def)

text \<open>An answer that makes a reader give its connection up: end of stream or a real error.\<close>

definition gives_up :: "answer \<Rightarrow> bool" where
  "gives_up a \<longleftrightarrow> ret a = 0 \<or> (ret a < 0 \<and> \<not> would_block (eno a))"

section \<open>A scripted environment\<close>

text \<open>
  A concrete environment for the witnesses: it keeps a descriptor table and answers calls from a
  list, in order; an answer that breaks one of the laws above, and every call after the end of
  the list, fails with \<open>EAGAIN\<close>.
\<close>

definition refused :: answer where
  "refused = \<lparr>ret = -1, eno = EAGAIN, payload = P_none\<rparr>"

fun well_formed :: "extcall \<Rightarrow> answer \<Rightarrow> bool" where
  "well_formed (C_recv f n) a \<longleftrightarrow>
     -1 \<le> ret a \<and> ret a \<le> int n \<and>
     length (bytes_of (payload a)) = (if 0 < ret a then nat (ret a) else 0)"
| "well_formed (C_poll l t) a \<longleftrightarrow>
     -1 \<le> ret a \<and>
     (0 \<le> ret a \<longrightarrow> length (revents_of (payload a)) = length l \<and>
       (\<forall>i < length l. fst (l ! i) < 0 \<longrightarrow> revents_of (payload a) ! i = 0))"
| "well_formed (C_select n l t) a \<longleftrightarrow> set (fds_of (payload a)) \<subseteq> set l"
| "well_formed C_socketpair a \<longleftrightarrow> fst (pair_of (payload a)) \<noteq> snd (pair_of (payload a))"
| "well_formed (C_lev (Bev_read b n)) a \<longleftrightarrow>
     ret a \<le> int n \<and> length (bytes_of (payload a)) = nat (ret a)"
| "well_formed c a \<longleftrightarrow> True"

fun within :: "fd set \<Rightarrow> extcall \<Rightarrow> answer \<Rightarrow> bool" where
  "within R (C_epoll_wait ep n t) a \<longleftrightarrow> fst ` set (events_of (payload a)) \<subseteq> R"
| "within R c a \<longleftrightarrow> True"

record script =
  s_open :: "fd set"
  s_reg :: "fd set"
  s_answers :: "answer list"

definition script :: "fd set \<Rightarrow> answer list \<Rightarrow> script" where
  "script T as = \<lparr>s_open = T, s_reg = {}, s_answers = as\<rparr>"

definition legal :: "extcall \<Rightarrow> script \<Rightarrow> answer \<Rightarrow> bool" where
  "legal c w a \<longleftrightarrow>
     opened c a \<inter> s_open w = {} \<and> (\<forall>f \<in> opened c a. 0 \<le> f) \<and> well_formed c a \<and>
     within (s_reg w) c a"

definition next_answer :: "extcall \<Rightarrow> script \<Rightarrow> answer" where
  "next_answer c w =
     (case s_answers w of [] \<Rightarrow> refused | a # _ \<Rightarrow> if legal c w a then a else refused)"

definition script_env :: "script env" where
  "script_env w c =
     (next_answer c w,
      \<lparr>s_open = (s_open w - released c) \<union> opened c (next_answer c w),
       s_reg = (s_reg w - released c) \<union> watched c,
       s_answers = tl (s_answers w)\<rparr>)"

lemma refused_fields [simp]: "ret refused = -1" "eno refused = EAGAIN" "payload refused = P_none"
  by (simp_all add: refused_def)

lemma opened_refused [simp]: "opened c refused = {}"
  by (cases c) simp_all

lemma next_answer_cases: "next_answer c w = refused \<or> legal c w (next_answer c w)"
  by (auto simp: next_answer_def split: list.splits)

lemma script_fd_law: "fd_law s_open script_env"
  unfolding fd_law_def
proof (intro allI impI)
  fix w c
  show "opened c (fst (script_env w c)) \<inter> s_open w = {} \<and>
    (\<forall>f\<in>opened c (fst (script_env w c)). 0 \<le> f) \<and>
    s_open (snd (script_env w c)) = s_open w - released c \<union> opened c (fst (script_env w c))"
    using next_answer_cases [of c w] by (auto simp: script_env_def legal_def)
qed

lemma script_recv_law: "recv_law script_env"
  unfolding recv_law_def Let_def
proof (intro allI)
  fix w f n
  show "-1 \<le> ret (fst (script_env w (C_recv f n))) \<and>
    ret (fst (script_env w (C_recv f n))) \<le> int n \<and>
    length (bytes_of (payload (fst (script_env w (C_recv f n))))) =
      (if 0 < ret (fst (script_env w (C_recv f n))) then nat (ret (fst (script_env w (C_recv f n))))
       else 0)"
    using next_answer_cases [of "C_recv f n" w] by (auto simp: script_env_def legal_def)
qed

lemma script_select_law: "select_law script_env"
  unfolding select_law_def
proof (intro allI)
  fix w n l t
  show "set (fds_of (payload (fst (script_env w (C_select n l t))))) \<subseteq> set l"
    using next_answer_cases [of "C_select n l t" w] by (auto simp: script_env_def legal_def)
qed

lemma script_poll_law: "poll_law script_env"
  unfolding poll_law_def Let_def
proof (intro allI)
  fix w l t
  show "-1 \<le> ret (fst (script_env w (C_poll l t))) \<and>
    (0 \<le> ret (fst (script_env w (C_poll l t))) \<longrightarrow>
      length (revents_of (payload (fst (script_env w (C_poll l t))))) = length l \<and>
      (\<forall>i<length l. fst (l ! i) < 0 \<longrightarrow> revents_of (payload (fst (script_env w (C_poll l t)))) ! i = 0))"
    using next_answer_cases [of "C_poll l t" w] by (auto simp: script_env_def legal_def)
qed

lemma script_pair_law: "pair_law script_env"
  unfolding pair_law_def Let_def
proof (intro allI)
  fix w
  show "ret (fst (script_env w C_socketpair)) = 0 \<longrightarrow>
    fst (pair_of (payload (fst (script_env w C_socketpair)))) \<noteq>
    snd (pair_of (payload (fst (script_env w C_socketpair))))"
    using next_answer_cases [of C_socketpair w] by (auto simp: script_env_def legal_def)
qed

lemma script_epoll_law: "epoll_law s_reg script_env"
  unfolding epoll_law_def
proof (intro conjI allI)
  fix w ep n t
  show "fst ` set (events_of (payload (fst (script_env w (C_epoll_wait ep n t))))) \<subseteq> s_reg w"
    using next_answer_cases [of "C_epoll_wait ep n t" w] by (auto simp: script_env_def legal_def)
qed (auto simp: script_env_def)

text \<open>One step of a script, for evaluating runs by the simplifier.\<close>

lemma script_step:
  "s_answers w = a # as \<Longrightarrow> legal c w a \<Longrightarrow>
    script_env w c =
      (a, \<lparr>s_open = (s_open w - released c) \<union> opened c a,
           s_reg = (s_reg w - released c) \<union> watched c, s_answers = as\<rparr>)"
  by (simp add: script_env_def next_answer_def)

lemma script_recv_finite: "recv_finite (\<lambda>w f. length (s_answers w)) script_env"
  by (auto simp: recv_finite_def script_env_def next_answer_def split: list.splits)

lemma script_waitpid_finite: "waitpid_finite (\<lambda>w. length (s_answers w)) script_env"
  by (auto simp: waitpid_finite_def script_env_def next_answer_def split: list.splits)

text \<open>Shorthands for answers and for a process that has done nothing yet.\<close>

definition ok :: "int \<Rightarrow> answer" where
  "ok n = \<lparr>ret = n, eno = 0, payload = P_none\<rparr>"

definition ok_with :: "int \<Rightarrow> payload \<Rightarrow> answer" where
  "ok_with n p = \<lparr>ret = n, eno = 0, payload = p\<rparr>"

definition fail :: "int \<Rightarrow> answer" where
  "fail err = \<lparr>ret = -1, eno = err, payload = P_none\<rparr>"

lemma answer_fields [simp]:
  "ret (ok n) = n" "eno (ok n) = 0" "payload (ok n) = P_none"
  "ret (ok_with n p) = n" "eno (ok_with n p) = 0" "payload (ok_with n p) = p"
  "ret (fail err) = -1" "eno (fail err) = err" "payload (fail err) = P_none"
  by (simp_all add: ok_def ok_with_def fail_def)

definition proc0 :: "'w \<Rightarrow> 'w proc" where
  "proc0 w = \<lparr>world = w, errno = 0, trace = [], out = []\<rparr>"

end
