(* ===== verification/MultiConn.thy ===== *)
theory MultiConn
  imports Posix
begin

unbundle bit_operations_syntax

text \<open>
  The parts of server/include/multi_connection_server.hpp that its three servers share, and the
  \<open>select\<close> and \<open>poll\<close> servers. Both keep their connections in an array of slots whose
  entry 0 is the listening socket and whose free entries are -1; the locale \<open>slot_reader\<close>
  states what reading a slot may do to the array and to the process's descriptors, and
  \<open>slot_acceptor\<close> adds what accepting may do. The \<open>select\<close> server satisfies both, the
  \<open>poll\<close> server only the first: with a full array it keeps the new connection open without
  a slot.
\<close>

section \<open>Shared operations\<close>

datatype MultiplexType = MT_SELECT | MT_POLL | MT_EPOLL

datatype EpollTriggerType = EP_LT | EP_ET

definition SELECT_FDS_LEN :: nat where "SELECT_FDS_LEN = 128"
definition POLL_FDS_LEN :: nat where "POLL_FDS_LEN = 1024"
definition EPOLL_FDS_LEN :: nat where "EPOLL_FDS_LEN = 1024"

text \<open>
  The signal handler writes the signal number, cut to 8 bits, to the pipe end \<open>pipe1\<close> unless
  it is -1, and restores \<open>errno\<close>.
\<close>

definition sig_handler :: "'w env \<Rightarrow> fd \<Rightarrow> int \<Rightarrow> ('w, 'x) proc_scheme \<Rightarrow> ('w, 'x) proc_scheme" where
  "sig_handler e pipe1 sig s =
     (let save_errno = errno s;
          s = (if pipe1 \<noteq> -1 then extu e (C_send pipe1 [word_of_int sig]) s else s)
      in s\<lparr>errno := save_errno\<rparr>)"

definition add_sig :: "'w env \<Rightarrow> int \<Rightarrow> ('w, 'x) proc_scheme \<Rightarrow> unit outcome \<times> ('w, 'x) proc_scheme" where
  "add_sig e sig s =
     (let (a, s) = ext e (C_sigaction sig (Handler ''sig_handler'') True) s
      in (if ret a \<noteq> -1 then Ret () else Assert_failed, s))"

definition set_no_blocking :: "'w env \<Rightarrow> fd \<Rightarrow> ('w, 'x) proc_scheme \<Rightarrow> ('w, 'x) proc_scheme" where
  "set_no_blocking e cli_fd s =
     (let (a, s) = ext e (C_getfl cli_fd) s
      in extu e (C_setfl cli_fd (ret a OR O_NONBLOCK)) s)"

definition serv_accept :: "'w env \<Rightarrow> fd \<Rightarrow> ('w, 'x) proc_scheme \<Rightarrow> fd \<times> ('w, 'x) proc_scheme" where
  "serv_accept e listen_fd s =
     (let (a, s) = ext e (C_accept listen_fd) s; cli_fd = ret a
      in if cli_fd < 0 then (-1, log (L_accept_failed (errno s)) s)
         else (cli_fd, set_no_blocking e cli_fd (log (L_connected cli_fd) s)))"

text \<open>
  \<open>serv_read\<close> zeroes its buffer before the call, so what it prints is the C string at the
  front of the zeroed buffer after the received bytes were stored there.
\<close>

definition serv_read :: "'w env \<Rightarrow> fd \<Rightarrow> ('w, 'x) proc_scheme \<Rightarrow> int \<times> ('w, 'x) proc_scheme" where
  "serv_read e cli_fd s =
     (let buf = replicate BUF_SIZE 0;
          (a, s) = ext e (C_recv cli_fd (BUF_SIZE - 1)) s;
          n = ret a;
          buf = fill_buf buf (bytes_of (payload a))
      in if 0 < n then (n, log (L_recv cli_fd n (cstr buf)) s)
         else if n < 0 then (n, log (L_recv_failed cli_fd (errno s)) s)
         else (n, log (L_disconnect cli_fd) s))"

text \<open>When a reader gives a connection up: end of stream, or an error other than "no data yet".\<close>

abbreviation give_up :: "int \<Rightarrow> int \<Rightarrow> bool" where
  "give_up r err \<equiv> r = 0 \<or> (r < 0 \<and> err \<noteq> EAGAIN \<and> err \<noteq> EWOULDBLOCK)"

section \<open>The select server\<close>

record 'w select_srv = "'w proc" +
  fds :: "fd list"
  maxfd :: int

definition select_init :: "fd \<Rightarrow> 'w proc \<Rightarrow> 'w select_srv" where
  "select_init listen_fd s =
     proc.extend s \<lparr>fds = (replicate SELECT_FDS_LEN (-1))[0 := listen_fd], maxfd = -1\<rparr>"

text \<open>
  The loop that fills the descriptor set; \<open>FD_SET\<close> of a descriptor outside
  \<open>0..<FD_SETSIZE\<close> writes outside the set.
\<close>

fun build_rfds :: "fd list \<Rightarrow> fd list \<Rightarrow> int \<Rightarrow> fd list \<times> int" where
  "build_rfds [] rfds m = (rfds, m)"
| "build_rfds (f # fs) rfds m =
     (if f \<noteq> -1 then build_rfds fs (List.insert f rfds) (max f m) else build_rfds fs rfds m)"

definition fd_settable :: "fd \<Rightarrow> bool" where
  "fd_settable f \<longleftrightarrow> f = -1 \<or> (0 \<le> f \<and> f < FD_SETSIZE)"

definition select_accept :: "'w env \<Rightarrow> fd \<Rightarrow> 'w select_srv \<Rightarrow> 'w select_srv" where
  "select_accept e listen_fd s =
     (let (cli_fd, s) = serv_accept e listen_fd s
      in if cli_fd \<noteq> -1 then
           let i = first_from (\<lambda>i. fds s ! i = -1) SELECT_FDS_LEN 0;
               s = (if i < SELECT_FDS_LEN then log (L_added cli_fd) (s\<lparr>fds := (fds s)[i := cli_fd]\<rparr>) else s)
           in if i = SELECT_FDS_LEN
              then log (L_text ''Fd set is full, disconnect client connection.'')
                     (extu e (C_close cli_fd) s)
              else s
         else s)"

definition select_read :: "'w env \<Rightarrow> fd list \<Rightarrow> nat \<Rightarrow> 'w select_srv \<Rightarrow> 'w select_srv" where
  "select_read e rfds i s =
     (if fds s ! i \<noteq> -1 \<and> fds s ! i \<in> set rfds then
        let (r, s) = serv_read e (fds s ! i) s
        in if give_up r (errno s)
           then (extu e (C_close (fds s ! i)) s)\<lparr>fds := (fds s)[i := -1]\<rparr>
           else s
      else s)"

definition select_events :: "'w env \<Rightarrow> fd \<Rightarrow> fd list \<Rightarrow> 'w select_srv \<Rightarrow> 'w select_srv" where
  "select_events e listen_fd rfds s =
     (let s = (if listen_fd \<in> set rfds then select_accept e listen_fd s else s)
      in fold (select_read e rfds) [1..<SELECT_FDS_LEN] s)"

definition select_round :: "'w env \<Rightarrow> fd \<Rightarrow> 'w select_srv \<Rightarrow> unit outcome \<times> 'w select_srv" where
  "select_round e listen_fd s =
     (if \<not> list_all fd_settable (fds s) then (Undefined, s)
      else
        let (rfds, m) = build_rfds (fds s) [] (maxfd s);
            s = log (L_text ''Selecting...'') (s\<lparr>maxfd := m\<rparr>);
            (a, s) = ext e (C_select (maxfd s + 1) rfds 10) s
        in if ret a = 0 then (Ret (), log (L_text ''Timeout.'') s)
           else if ret a = -1 then (Exit 1, log (L_wait_failed (errno s)) s)
           else (Ret (), select_events e listen_fd (fds_of (payload a))
                           (log (L_text ''Read event.'') s)))"

text \<open>\<open>serv_select\<close> never returns: its state after \<open>k\<close> rounds of its loop.\<close>

definition serv_select :: "'w env \<Rightarrow> fd \<Rightarrow> nat \<Rightarrow> 'w proc \<Rightarrow> unit outcome \<times> 'w select_srv" where
  "serv_select e listen_fd k s =
     iterate (select_round e listen_fd) k (select_init listen_fd s)"

section \<open>The poll server\<close>

record pollfd =
  pfd :: fd
  events :: evmask
  revents :: evmask

record 'w poll_srv = "'w proc" +
  pfds :: "pollfd list"

text \<open>The array starts as uninitialised memory (\<open>junk\<close>).\<close>

definition poll_init :: "pollfd list \<Rightarrow> fd \<Rightarrow> 'w proc \<Rightarrow> 'w poll_srv" where
  "poll_init junk listen_fd s =
     proc.extend s
       \<lparr>pfds = (map (\<lambda>p. p\<lparr>pfd := -1\<rparr>) junk)
          [0 := (junk ! 0)\<lparr>pfd := listen_fd, events := POLLIN\<rparr>]\<rparr>"

fun store_revents :: "pollfd list \<Rightarrow> evmask list \<Rightarrow> pollfd list" where
  "store_revents (p # ps) (r # rs) = p\<lparr>revents := r\<rparr> # store_revents ps rs"
| "store_revents ps _ = ps"

definition poll_accept :: "'w env \<Rightarrow> fd \<Rightarrow> 'w poll_srv \<Rightarrow> 'w poll_srv" where
  "poll_accept e listen_fd s =
     (let (cli_fd, s) = serv_accept e listen_fd s
      in if cli_fd \<noteq> -1 then
           let i = first_from (\<lambda>i. pfd (pfds s ! i) = -1) POLL_FDS_LEN 0;
               s = (if i < POLL_FDS_LEN
                    then log (L_added cli_fd)
                      (s\<lparr>pfds := (pfds s)[i := (pfds s ! i)\<lparr>pfd := cli_fd, events := POLLIN\<rparr>]\<rparr>)
                    else s)
           in if i = POLL_FDS_LEN
              then log (L_text ''Fd set is full, disconnect client connection.'') s
              else s
         else s)"

definition poll_read :: "'w env \<Rightarrow> nat \<Rightarrow> 'w poll_srv \<Rightarrow> 'w poll_srv" where
  "poll_read e i s =
     (if pfd (pfds s ! i) \<noteq> -1 \<and> revents (pfds s ! i) AND POLLIN \<noteq> 0 then
        let (r, s) = serv_read e (pfd (pfds s ! i)) s
        in if give_up r (errno s)
           then (extu e (C_close (pfd (pfds s ! i))) s)
                  \<lparr>pfds := (pfds s)[i := (pfds s ! i)\<lparr>pfd := -1\<rparr>]\<rparr>
           else s
      else s)"

definition poll_events :: "'w env \<Rightarrow> fd \<Rightarrow> 'w poll_srv \<Rightarrow> 'w poll_srv" where
  "poll_events e listen_fd s =
     (let s = (if revents (pfds s ! 0) AND POLLIN \<noteq> 0 then poll_accept e listen_fd s else s)
      in fold (poll_read e) [1..<POLL_FDS_LEN] s)"

definition poll_round :: "'w env \<Rightarrow> fd \<Rightarrow> 'w poll_srv \<Rightarrow> unit outcome \<times> 'w poll_srv" where
  "poll_round e listen_fd s =
     (let s = log (L_text ''Poll...'') s;
          (a, s) = ext e (C_poll (map (\<lambda>p. (pfd p, events p)) (pfds s)) 10000) s;
          s = s\<lparr>pfds := store_revents (pfds s) (revents_of (payload a))\<rparr>
      in if ret a = 0 then (Ret (), log (L_text ''Timeout.'') s)
         else if ret a = -1 then (Exit 1, log (L_wait_failed (errno s)) s)
         else (Ret (), poll_events e listen_fd s))"

definition serv_poll :: "'w env \<Rightarrow> pollfd list \<Rightarrow> fd \<Rightarrow> nat \<Rightarrow> 'w proc \<Rightarrow> unit outcome \<times> 'w poll_srv" where
  "serv_poll e junk listen_fd k s =
     iterate (poll_round e listen_fd) k (poll_init junk listen_fd s)"

section \<open>What an array of slots holds\<close>

text \<open>The connections of a slot array: its entries other than entry 0 and -1.\<close>

definition clients :: "fd list \<Rightarrow> fd set" where
  "clients l = {l ! i |i. 1 \<le> i \<and> i < length l \<and> l ! i \<noteq> -1}"

definition slots_distinct :: "fd list \<Rightarrow> bool" where
  "slots_distinct l \<longleftrightarrow>
     (\<forall>i j. 1 \<le> i \<and> i < length l \<and> 1 \<le> j \<and> j < length l \<and> l ! i \<noteq> -1 \<and> l ! i = l ! j \<longrightarrow> i = j)"

text \<open>
  The accounting invariant: the array has \<open>n\<close> slots, entry 0 is the listening socket, no
  descriptor has two slots, and the open descriptors \<open>T\<close> of the process are those it started
  with (\<open>B\<close>) and the connections of the array, nothing else.
\<close>

definition conn_inv :: "nat \<Rightarrow> fd \<Rightarrow> fd set \<Rightarrow> fd list \<Rightarrow> fd set \<Rightarrow> bool" where
  "conn_inv n listen_fd B l T \<longleftrightarrow>
     length l = n \<and> 0 < n \<and> l ! 0 = listen_fd \<and> listen_fd \<in> B \<and> -1 \<notin> B \<and>
     slots_distinct l \<and> B \<inter> clients l = {} \<and> T = B \<union> clients l"

lemma clients_erase:
  assumes "slots_distinct l" and "1 \<le> i" and "i < length l" and "l ! i \<noteq> -1"
  shows "clients (l[i := -1]) = clients l - {l ! i}"
  using assms by (auto simp: clients_def slots_distinct_def nth_list_update)

lemma clients_put:
  assumes "1 \<le> i" and "i < length l" and "l ! i = -1" and "f \<noteq> -1"
  shows "clients (l[i := f]) = insert f (clients l)"
  using assms by (auto simp: clients_def nth_list_update)

lemma slots_distinct_erase: "slots_distinct l \<Longrightarrow> slots_distinct (l[i := -1])"
  by (cases "i < length l")
     (auto simp: slots_distinct_def nth_list_update list_update_beyond split: if_splits)

lemma slots_distinct_put: "slots_distinct l \<Longrightarrow> f \<notin> clients l \<Longrightarrow> slots_distinct (l[i := f])"
  by (cases "i < length l")
     (auto simp: slots_distinct_def clients_def nth_list_update list_update_beyond split: if_splits)

lemma conn_inv_erase:
  assumes "conn_inv n lf B l T" and "1 \<le> i" and "i < n" and "l ! i \<noteq> -1"
  shows "conn_inv n lf B (l[i := -1]) (T - {l ! i})"
proof -
  have "l ! i \<in> clients l" using assms by (auto simp: conn_inv_def clients_def)
  then show ?thesis
    using assms by (auto simp: conn_inv_def clients_erase slots_distinct_erase)
qed

lemma conn_inv_put:
  assumes "conn_inv n lf B l T" and "i < n" and "l ! i = -1" and "0 \<le> f" and "f \<notin> T"
  shows "conn_inv n lf B (l[i := f]) (insert f T)"
proof -
  have "1 \<le> i"
    using assms(1,3) by (cases i) (auto simp: conn_inv_def)
  then show ?thesis
    using assms by (auto simp: conn_inv_def clients_put intro!: slots_distinct_put)
qed

text \<open>In a full array every entry is an open descriptor.\<close>

lemma conn_inv_slots_open:
  assumes inv: "conn_inv n lf B l T" and full: "\<forall>j < n. l ! j \<noteq> -1"
  shows "set l \<subseteq> T"
proof
  fix f assume "f \<in> set l"
  then obtain i where i: "i < n" "f = l ! i"
    using inv by (auto simp: in_set_conv_nth conn_inv_def)
  show "f \<in> T"
  proof (cases i)
    case 0
    then show ?thesis using inv i by (simp add: conn_inv_def)
  next
    case (Suc k)
    then have "f \<in> clients l"
      using i full inv unfolding clients_def conn_inv_def by (intro CollectI exI [of _ i]) simp
    then show ?thesis using inv by (simp add: conn_inv_def)
  qed
qed

section \<open>The contract of a slot server\<close>

text \<open>
  Handling slot \<open>i\<close> leaves the array and the descriptors alone, or closes the connection of
  that slot and frees the slot. \<open>law\<close> is what this relies on of the operating system.
\<close>

locale slot_reader =
  fixes law :: bool
    and slots :: "'s \<Rightarrow> fd list"
    and opens :: "'s \<Rightarrow> fd set"
    and read :: "nat \<Rightarrow> 's \<Rightarrow> 's"
  assumes read_effect: "law \<Longrightarrow> 1 \<le> i \<Longrightarrow> i < length (slots s) \<Longrightarrow>
     (slots (read i s) = slots s \<and> opens (read i s) = opens s) \<or>
     (slots s ! i \<noteq> -1 \<and> slots (read i s) = (slots s)[i := -1] \<and>
      opens (read i s) = opens s - {slots s ! i})"
begin

lemma read_inv:
  assumes "law" and "conn_inv n lf B (slots s) (opens s)" and "1 \<le> i" and "i < n"
  shows "conn_inv n lf B (slots (read i s)) (opens (read i s))"
proof -
  have "i < length (slots s)" using assms(2,4) by (simp add: conn_inv_def)
  from read_effect [OF assms(1,3) this] show ?thesis
    using assms conn_inv_erase by auto
qed

lemma read_all_inv:
  assumes "law" and "conn_inv n lf B (slots s) (opens s)"
    and "\<forall>i \<in> set is. 1 \<le> i \<and> i < n"
  shows "conn_inv n lf B (slots (fold read is s)) (opens (fold read is s))"
  using assms(2,3) by (induction "is" arbitrary: s) (auto simp: read_inv [OF assms(1)])

lemma read_all_length:
  assumes "law" and "\<forall>i \<in> set is. 1 \<le> i \<and> i < length (slots s)"
  shows "length (slots (fold read is s)) = length (slots s)"
  using assms(2)
proof (induction "is" arbitrary: s)
  case (Cons i "is")
  then have "length (slots (read i s)) = length (slots s)"
    using read_effect [OF assms(1), of i s] by auto
  with Cons show ?case by simp
qed simp

end

text \<open>
  Accepting leaves both alone, or puts a fresh descriptor into a free slot of an array of
  \<open>cap\<close> slots.
\<close>

locale slot_acceptor = slot_reader +
  fixes cap :: nat
    and accept :: "'s \<Rightarrow> 's"
  assumes accept_effect: "law \<Longrightarrow> length (slots s) = cap \<Longrightarrow>
     (slots (accept s) = slots s \<and> opens (accept s) = opens s) \<or>
     (\<exists>i f. i < cap \<and> slots s ! i = -1 \<and> 0 \<le> f \<and> f \<notin> opens s \<and>
            slots (accept s) = (slots s)[i := f] \<and> opens (accept s) = insert f (opens s))"
begin

lemma accept_inv:
  assumes "law" and "conn_inv cap lf B (slots s) (opens s)"
  shows "conn_inv cap lf B (slots (accept s)) (opens (accept s))"
proof -
  have "length (slots s) = cap" using assms(2) by (simp add: conn_inv_def)
  from accept_effect [OF assms(1) this] show ?thesis
    using assms(2) conn_inv_put by auto
qed

lemma events_inv:
  fixes ready :: bool
  assumes "law" and "conn_inv cap lf B (slots s) (opens s)"
  defines "t \<equiv> fold read [1..<cap] (if ready then accept s else s)"
  shows "conn_inv cap lf B (slots t) (opens t)"
  unfolding t_def using assms(1,2) accept_inv by (auto intro!: read_all_inv)

end

section \<open>Effect of the shared operations on the descriptors\<close>

lemma serv_accept_cases:
  assumes "fd_law tab e" and "serv_accept e lf s = (c, t)"
  shows "(c = -1 \<and> tab (world t) = tab (world s)) \<or>
    (0 \<le> c \<and> c \<notin> tab (world s) \<and> tab (world t) = insert c (tab (world s)))"
proof (cases "ret (fst (e (world s) (C_accept lf))) < 0")
  case True
  then show ?thesis
    using assms(2) by (auto simp: serv_accept_def Let_def split_beta fd_law_tab [OF assms(1)])
next
  case False
  then have c: "c = ret (fst (e (world s) (C_accept lf)))"
    and "tab (world t) = tab (snd (e (world s) (C_accept lf)))"
    using assms(2)
    by (auto simp: serv_accept_def set_no_blocking_def Let_def split_beta
        fd_law_frame [OF assms(1)])
  moreover have "c \<notin> tab (world s) \<and> 0 \<le> c"
    using False c by (intro fd_law_fresh [OF assms(1), of c "C_accept lf"]) simp
  ultimately show ?thesis using False by (simp add: fd_law_tab [OF assms(1)])
qed

lemma serv_read_tab: "fd_law tab e \<Longrightarrow> tab (world (snd (serv_read e f s))) = tab (world s)"
  by (simp add: serv_read_def Let_def split_beta fd_law_tab)

lemma select_srv_frame [simp]:
  fixes s :: "'w select_srv"
  shows "fds (extu e c s) = fds s" "maxfd (extu e c s) = maxfd s"
    "fds (log l s) = fds s" "maxfd (log l s) = maxfd s"
  by (simp_all add: ext_def log_def Let_def)

lemma poll_srv_frame [simp]:
  fixes s :: "'w poll_srv"
  shows "pfds (extu e c s) = pfds s" "pfds (log l s) = pfds s"
  by (simp_all add: ext_def log_def Let_def)

lemma serv_read_fds [simp]:
  fixes s :: "'w select_srv"
  shows "fds (snd (serv_read e f s)) = fds s"
  by (simp add: serv_read_def Let_def split_beta)

lemma serv_read_pfds [simp]:
  fixes s :: "'w poll_srv"
  shows "pfds (snd (serv_read e f s)) = pfds s"
  by (simp add: serv_read_def Let_def split_beta)

lemma serv_accept_fds [simp]:
  fixes s :: "'w select_srv"
  shows "fds (snd (serv_accept e f s)) = fds s"
  by (simp add: serv_accept_def set_no_blocking_def Let_def split_beta)

lemma serv_accept_pfds [simp]:
  fixes s :: "'w poll_srv"
  shows "pfds (snd (serv_accept e f s)) = pfds s"
  by (simp add: serv_accept_def set_no_blocking_def Let_def split_beta)

section \<open>Handlers only add calls\<close>

lemma extends_serv_read [intro]: "extends s (snd (serv_read e f s))"
  by (simp add: serv_read_def Let_def split_beta)

lemma extends_serv_accept [intro]: "extends s (snd (serv_accept e f s))"
  by (simp add: serv_accept_def set_no_blocking_def Let_def split_beta)

lemma extends_select_srv [simp]:
  fixes t :: "'w select_srv"
  shows "extends s (t\<lparr>fds := l\<rparr>) = extends s t"
  by (simp add: extends_def)

lemma extends_select_read [intro]: "extends s (select_read e rfds i s)"
  using extends_serv_read [of s e "fds s ! i"]
  by (auto simp: select_read_def Let_def split_beta)

lemma extends_select_accept [intro]: "extends s (select_accept e lf s)"
  using extends_serv_accept [of s e lf]
  by (auto simp: select_accept_def Let_def split_beta)

lemma extends_select_events [intro]: "extends s (select_events e lf rfds s)"
  unfolding select_events_def Let_def
  by (rule extends_trans [OF _ extends_fold]) auto

lemma recvs_serv_read [simp]:
  "recvs (calls (snd (serv_read e f s))) = insert f (recvs (calls s))"
  by (simp add: serv_read_def Let_def split_beta)

lemma recvs_serv_accept [simp]:
  "recvs (calls (snd (serv_accept e f s))) = recvs (calls s)"
  by (simp add: serv_accept_def set_no_blocking_def Let_def split_beta)

section \<open>Both servers meet the contract\<close>

interpretation sel: slot_acceptor "fd_law tab e" fds "\<lambda>s. tab (world s)" "select_read e rfds"
    SELECT_FDS_LEN "select_accept e listen_fd"
  for tab :: "'w \<Rightarrow> fd set" and e :: "'w env" and rfds :: "fd list" and listen_fd :: fd
proof (unfold_locales, goal_cases)
  case (1 i s)
  then show ?case
    using serv_read_tab [OF 1(1), of "fds s ! i" s]
    by (auto simp: select_read_def Let_def split_beta fd_law_tab)
next
  case (2 s)
  obtain c t where ct: "serv_accept e listen_fd s = (c, t)" by fastforce
  then have fds: "fds t = fds s" using serv_accept_fds [of e listen_fd s] by simp
  let ?i = "first_from (\<lambda>i. fds s ! i = -1) SELECT_FDS_LEN 0"
  consider "?i = SELECT_FDS_LEN" | "?i < SELECT_FDS_LEN" "fds s ! ?i = -1"
    using first_from_bounds [of 0 SELECT_FDS_LEN "\<lambda>i. fds s ! i = -1"]
      first_from_hit [of "\<lambda>i. fds s ! i = -1" SELECT_FDS_LEN 0] by fastforce
  then show ?case
  proof cases
    case 1
    then show ?thesis
      using serv_accept_cases [OF 2(1) ct] ct fds
      by (auto simp: select_accept_def Let_def fd_law_tab [OF 2(1)])
  next
    case 2
    then have eq: "select_accept e listen_fd s =
        (if c \<noteq> -1 then log (L_added c) (t\<lparr>fds := (fds s)[?i := c]\<rparr>) else t)"
      using ct fds by (simp add: select_accept_def Let_def)
    show ?thesis
    proof (cases "c = -1")
      case True
      then show ?thesis using serv_accept_cases [OF \<open>fd_law tab e\<close> ct] eq fds by simp
    next
      case False
      then show ?thesis
        using serv_accept_cases [OF \<open>fd_law tab e\<close> ct] eq 2
        by (intro disjI2 exI [of _ ?i] exI [of _ c]) simp
    qed
  qed
qed

interpretation pol: slot_reader "fd_law tab e" "\<lambda>s. map pfd (pfds s)" "\<lambda>s. tab (world s)"
    "poll_read e"
  for tab :: "'w \<Rightarrow> fd set" and e :: "'w env"
proof (unfold_locales, goal_cases)
  case (1 i s)
  then show ?case
    using serv_read_tab [OF 1(1), of "pfd (pfds s ! i)" s]
    by (auto simp: poll_read_def Let_def split_beta fd_law_tab map_update)
qed

section \<open>Rounds of the select server\<close>

lemma build_rfds_spec:
  "set (fst (build_rfds l acc m)) = set acc \<union> (set l - {-1}) \<and>
   m \<le> snd (build_rfds l acc m) \<and> (\<forall>f \<in> set l. f \<noteq> -1 \<longrightarrow> f \<le> snd (build_rfds l acc m))"
proof (induction l acc m rule: build_rfds.induct)
  case (2 f fs rfds m)
  then show ?case by (cases "f = -1") (auto simp: max_def split: if_splits)
qed simp

lemma select_round_inv:
  assumes "fd_law tab e" and "conn_inv SELECT_FDS_LEN lf B (fds s) (tab (world s))"
  defines "t \<equiv> snd (select_round e lf s)"
  shows "conn_inv SELECT_FDS_LEN lf B (fds t) (tab (world t))"
  unfolding t_def select_round_def select_events_def Let_def split_beta
  using assms(1,2) sel.events_inv [OF assms(1)] by (simp add: fd_law_frame)

lemma select_init_inv:
  assumes "listen_fd \<in> tab (world s)" and "-1 \<notin> tab (world s)"
  shows "conn_inv SELECT_FDS_LEN listen_fd (tab (world s)) (fds (select_init listen_fd s))
    (tab (world (select_init listen_fd s)))"
proof -
  have "clients ((replicate SELECT_FDS_LEN (-1))[0 := listen_fd]) = {}"
    by (auto simp: clients_def nth_list_update)
  then show ?thesis
    using assms
    by (auto simp: conn_inv_def select_init_def proc.defs SELECT_FDS_LEN_def slots_distinct_def
        nth_list_update)
qed

lemma select_run_inv:
  fixes k :: nat
  assumes "fd_law tab e" and "listen_fd \<in> tab (world s)" and "-1 \<notin> tab (world s)"
  defines "t \<equiv> snd (serv_select e listen_fd k s)"
  shows "conn_inv SELECT_FDS_LEN listen_fd (tab (world s)) (fds t) (tab (world t))"
  unfolding t_def serv_select_def
  by (rule iterate_preserves [where P = "\<lambda>u. conn_inv SELECT_FDS_LEN listen_fd (tab (world s))
        (fds u) (tab (world u))"])
     (use select_round_inv [OF assms(1)] select_init_inv [of listen_fd tab s] assms(2,3) in auto)

section \<open>Rounds of the poll server\<close>

lemma poll_accept_free_inv:
  fixes listen_fd :: fd
  assumes law: "fd_law tab e" and inv: "conn_inv POLL_FDS_LEN lf B (map pfd (pfds s)) (tab (world s))"
    and free: "j < POLL_FDS_LEN" "pfd (pfds s ! j) = -1"
  defines "t \<equiv> poll_accept e listen_fd s"
  shows "conn_inv POLL_FDS_LEN lf B (map pfd (pfds t)) (tab (world t))"
proof -
  let ?i = "first_from (\<lambda>i. pfd (pfds s ! i) = -1) POLL_FDS_LEN 0"
  obtain c u where cu: "serv_accept e listen_fd s = (c, u)" by fastforce
  then have pfds: "pfds u = pfds s" using serv_accept_pfds [of e listen_fd s] by simp
  have "?i \<noteq> POLL_FDS_LEN"
    using free first_from_full_iff [of "\<lambda>i. pfd (pfds s ! i) = -1" POLL_FDS_LEN] by blast
  then have i: "?i < POLL_FDS_LEN" and hit: "pfd (pfds s ! ?i) = -1"
    using first_from_bounds [of 0 POLL_FDS_LEN "\<lambda>i. pfd (pfds s ! i) = -1"]
      first_from_hit [of "\<lambda>i. pfd (pfds s ! i) = -1" POLL_FDS_LEN 0] by auto
  have len: "length (pfds s) = POLL_FDS_LEN" using inv by (simp add: conn_inv_def)
  have t: "t = (if c \<noteq> -1 then log (L_added c)
      (u\<lparr>pfds := (pfds s)[?i := (pfds s ! ?i)\<lparr>pfd := c, events := POLLIN\<rparr>]\<rparr>) else u)"
    unfolding t_def using cu pfds i by (simp add: poll_accept_def Let_def)
  show ?thesis
  proof (cases "c = -1")
    case True
    then show ?thesis using serv_accept_cases [OF law cu] t pfds inv by simp
  next
    case False
    then have "0 \<le> c" "c \<notin> tab (world s)" "tab (world u) = insert c (tab (world s))"
      using serv_accept_cases [OF law cu] by auto
    then show ?thesis
      using conn_inv_put [OF inv i, of c] hit i len t False by (simp add: map_update)
  qed
qed

lemma map_pfd_store_revents [simp]: "map pfd (store_revents ps rs) = map pfd ps"
  by (induction ps rs rule: store_revents.induct) auto

lemma pfd_store_revents [simp]: "i < length ps \<Longrightarrow> pfd (store_revents ps rs ! i) = pfd (ps ! i)"
  by (metis length_map map_pfd_store_revents nth_map)

lemma length_store_revents [simp]: "length (store_revents ps rs) = length ps"
  by (metis length_map map_pfd_store_revents)

lemma poll_round_inv:
  assumes law: "fd_law tab e" and inv: "conn_inv POLL_FDS_LEN lf B (map pfd (pfds s)) (tab (world s))"
    and free: "j < POLL_FDS_LEN" "pfd (pfds s ! j) = -1"
  defines "t \<equiv> snd (poll_round e lf s)"
  shows "conn_inv POLL_FDS_LEN lf B (map pfd (pfds t)) (tab (world t))"
proof -
  have len: "length (pfds s) = POLL_FDS_LEN" using inv by (simp add: conn_inv_def)
  have events: "conn_inv POLL_FDS_LEN lf B (map pfd (pfds (poll_events e lf u)))
      (tab (world (poll_events e lf u)))"
    if "map pfd (pfds u) = map pfd (pfds s)" "tab (world u) = tab (world s)" for u
  proof -
    have "pfd (pfds u ! j) = -1"
      using that(1) free len by (metis length_map nth_map)
    then show ?thesis
      using poll_accept_free_inv [OF law, of lf B u j lf] that inv free
      unfolding poll_events_def Let_def
      by (intro pol.read_all_inv [OF law]) auto
  qed
  show ?thesis
    unfolding t_def poll_round_def Let_def split_beta
    using inv events by (simp add: fd_law_frame [OF law])
qed

lemma poll_init_inv:
  assumes "length junk = POLL_FDS_LEN" and "listen_fd \<in> tab (world s)" and "-1 \<notin> tab (world s)"
  shows "conn_inv POLL_FDS_LEN listen_fd (tab (world s)) (map pfd (pfds (poll_init junk listen_fd s)))
    (tab (world (poll_init junk listen_fd s)))"
proof -
  let ?l = "map pfd (pfds (poll_init junk listen_fd s))"
  have nth: "?l ! i = (if i = 0 then listen_fd else -1)" if "i < POLL_FDS_LEN" for i
    using that assms(1) by (auto simp: poll_init_def proc.defs nth_list_update)
  have len: "length ?l = POLL_FDS_LEN"
    using assms(1) by (simp add: poll_init_def proc.defs)
  have "clients ?l = {}" using nth len by (auto simp: clients_def)
  moreover have "slots_distinct ?l" using nth len by (auto simp: slots_distinct_def)
  moreover have "?l ! 0 = listen_fd" using nth [of 0] by (simp add: POLL_FDS_LEN_def)
  ultimately show ?thesis
    using assms(2,3) len by (simp add: conn_inv_def poll_init_def proc.defs POLL_FDS_LEN_def)
qed

text \<open>
  With a full array the books are wrong only after the server has logged that it turns a client away.
\<close>

definition turned_away :: logline where
  "turned_away = L_text ''Fd set is full, disconnect client connection.''"

lemma poll_accept_inv:
  fixes listen_fd :: fd
  assumes law: "fd_law tab e" and inv: "conn_inv POLL_FDS_LEN lf B (map pfd (pfds s)) (tab (world s))"
  defines "t \<equiv> poll_accept e listen_fd s"
  shows "conn_inv POLL_FDS_LEN lf B (map pfd (pfds t)) (tab (world t)) \<or> turned_away \<in> set (out t)"
proof (cases "\<exists>j < POLL_FDS_LEN. pfd (pfds s ! j) = -1")
  case True
  then show ?thesis using poll_accept_free_inv [OF law inv] unfolding t_def by blast
next
  case False
  obtain c u where cu: "serv_accept e listen_fd s = (c, u)" by fastforce
  then have pfds: "pfds u = pfds s" using serv_accept_pfds [of e listen_fd s] by simp
  have "first_from (\<lambda>i. pfd (pfds s ! i) = -1) POLL_FDS_LEN 0 = POLL_FDS_LEN"
    using False by (simp add: first_from_full_iff)
  then have "t = (if c \<noteq> -1 then log turned_away u else u)"
    unfolding t_def using cu pfds by (simp add: poll_accept_def Let_def turned_away_def)
  then show ?thesis using serv_accept_cases [OF law cu] inv pfds by auto
qed

lemma serv_read_out: "set (out s) \<subseteq> set (out (snd (serv_read e f s)))"
  by (auto simp: serv_read_def Let_def split_beta)

lemma poll_read_out: "set (out s) \<subseteq> set (out (fold (poll_read e) is s))"
proof (induction "is" arbitrary: s)
  case (Cons i "is")
  have "set (out s) \<subseteq> set (out (poll_read e i s))"
    using serv_read_out [of s e "pfd (pfds s ! i)"] by (auto simp: poll_read_def Let_def split_beta)
  then show ?case using Cons [of "poll_read e i s"] by auto
qed simp

lemma poll_accept_out: "set (out s) \<subseteq> set (out (poll_accept e lf s))"
  by (auto simp: poll_accept_def serv_accept_def set_no_blocking_def Let_def split_beta)

lemma poll_events_books:
  assumes law: "fd_law tab e"
    and "conn_inv POLL_FDS_LEN lf B (map pfd (pfds s)) (tab (world s)) \<or> turned_away \<in> set (out s)"
  defines "t \<equiv> poll_events e lf s"
  shows "conn_inv POLL_FDS_LEN lf B (map pfd (pfds t)) (tab (world t)) \<or> turned_away \<in> set (out t)"
proof -
  define u where "u = (if revents (pfds s ! 0) AND POLLIN \<noteq> 0 then poll_accept e lf s else s)"
  have t: "t = fold (poll_read e) [1..<POLL_FDS_LEN] u" by (simp add: t_def u_def poll_events_def)
  have "conn_inv POLL_FDS_LEN lf B (map pfd (pfds u)) (tab (world u)) \<or> turned_away \<in> set (out u)"
    using assms(2) poll_accept_inv [OF law, of lf B s lf] poll_accept_out [of s e lf] unfolding u_def by auto
  then show ?thesis
    using pol.read_all_inv [OF law, of POLL_FDS_LEN lf B u "[1..<POLL_FDS_LEN]"] poll_read_out [of u e "[1..<POLL_FDS_LEN]"]
    unfolding t by auto
qed

lemma poll_round_books:
  assumes law: "fd_law tab e"
    and "conn_inv POLL_FDS_LEN lf B (map pfd (pfds s)) (tab (world s)) \<or> turned_away \<in> set (out s)"
  defines "t \<equiv> snd (poll_round e lf s)"
  shows "conn_inv POLL_FDS_LEN lf B (map pfd (pfds t)) (tab (world t)) \<or> turned_away \<in> set (out t)"
  unfolding t_def poll_round_def Let_def split_beta
  using assms(2) by (auto simp: fd_law_frame [OF law] intro!: poll_events_books [OF law])

lemma poll_run_books:
  fixes k :: nat
  assumes "fd_law tab e" and "length junk = POLL_FDS_LEN" and "listen_fd \<in> tab (world s)" and "-1 \<notin> tab (world s)"
  defines "t \<equiv> snd (serv_poll e junk listen_fd k s)"
  shows "conn_inv POLL_FDS_LEN listen_fd (tab (world s)) (map pfd (pfds t)) (tab (world t)) \<or> turned_away \<in> set (out t)"
  unfolding t_def serv_poll_def
  by (rule iterate_preserves [where P = "\<lambda>u. conn_inv POLL_FDS_LEN listen_fd (tab (world s))
        (map pfd (pfds u)) (tab (world u)) \<or> turned_away \<in> set (out u)"])
     (use poll_round_books [OF assms(1)] poll_init_inv [of junk listen_fd tab s] assms(2-4) in auto)

section \<open>Whom a poll round reads from\<close>

text \<open>Slots that the read loop would act on belong to \<open>C\<close>; free slots report nothing.\<close>

definition armed_within :: "fd set \<Rightarrow> pollfd list \<Rightarrow> bool" where
  "armed_within C ps \<longleftrightarrow>
     (\<forall>j. 1 \<le> j \<and> j < length ps \<and> pfd (ps ! j) \<noteq> -1 \<and> revents (ps ! j) AND POLLIN \<noteq> 0 \<longrightarrow>
        pfd (ps ! j) \<in> C)"

lemma clients_map_pfd:
  "Suc 0 \<le> j \<Longrightarrow> j < length ps \<Longrightarrow> pfd (ps ! j) \<noteq> -1 \<Longrightarrow> pfd (ps ! j) \<in> clients (map pfd ps)"
  unfolding clients_def by (intro CollectI exI [of _ j]) simp

lemma poll_read_armed:
  assumes "armed_within C (pfds s)" and "1 \<le> i" and "i < length (pfds s)"
  shows "armed_within C (pfds (poll_read e i s)) \<and> length (pfds (poll_read e i s)) = length (pfds s) \<and>
    recvs (calls (poll_read e i s)) \<subseteq> recvs (calls s) \<union> C"
  using assms
  by (auto simp: poll_read_def Let_def split_beta armed_within_def nth_list_update)

lemma poll_read_all_recvs:
  assumes "armed_within C (pfds s)" and "\<forall>i \<in> set is. 1 \<le> i \<and> i < length (pfds s)"
  shows "recvs (calls (fold (poll_read e) is s)) \<subseteq> recvs (calls s) \<union> C"
  using assms
proof (induction "is" arbitrary: s)
  case (Cons i "is")
  then have "armed_within C (pfds (poll_read e i s))"
    and "length (pfds (poll_read e i s)) = length (pfds s)"
    and step: "recvs (calls (poll_read e i s)) \<subseteq> recvs (calls s) \<union> C"
    using poll_read_armed [of C s i e] by auto
  then have "recvs (calls (fold (poll_read e) is (poll_read e i s)))
      \<subseteq> recvs (calls (poll_read e i s)) \<union> C"
    using Cons.prems by (intro Cons.IH) auto
  with step show ?case by auto
qed simp

lemma poll_accept_armed:
  assumes "armed_within C (pfds s)" and "length (pfds s) = POLL_FDS_LEN"
    and quiet: "\<forall>j < length (pfds s). pfd (pfds s ! j) = -1 \<longrightarrow> revents (pfds s ! j) = 0"
  shows "armed_within C (pfds (poll_accept e lf s)) \<and>
    length (pfds (poll_accept e lf s)) = POLL_FDS_LEN \<and>
    recvs (calls (poll_accept e lf s)) = recvs (calls s)"
  using assms first_from_hit [of "\<lambda>i. pfd (pfds s ! i) = -1" POLL_FDS_LEN 0]
  by (auto simp: poll_accept_def Let_def split_beta armed_within_def nth_list_update)

lemma revents_store:
  "length rs = length ps \<Longrightarrow> i < length ps \<Longrightarrow> revents (store_revents ps rs ! i) = rs ! i"
proof (induction ps rs arbitrary: i rule: store_revents.induct)
  case (1 p ps r rs)
  then show ?case by (cases i) auto
qed auto

lemma poll_events_recvs:
  assumes "length (pfds s) = POLL_FDS_LEN"
    and "\<forall>j < length (pfds s). pfd (pfds s ! j) = -1 \<longrightarrow> revents (pfds s ! j) = 0"
  shows "recvs (calls (poll_events e lf s)) \<subseteq> recvs (calls s) \<union> clients (map pfd (pfds s))"
proof -
  let ?C = "clients (map pfd (pfds s))"
  have armed: "armed_within ?C (pfds s)" by (auto simp: armed_within_def clients_map_pfd)
  let ?u = "if revents (pfds s ! 0) AND POLLIN \<noteq> 0 then poll_accept e lf s else s"
  have "armed_within ?C (pfds ?u)" "length (pfds ?u) = POLL_FDS_LEN"
    "recvs (calls ?u) = recvs (calls s)"
    using armed poll_accept_armed [OF armed assms] assms(1) by auto
  then show ?thesis
    unfolding poll_events_def Let_def using poll_read_all_recvs [of ?C ?u] by auto
qed

section \<open>Properties\<close>

text \<open>
  C17. \<open>serv_read\<close> never overruns its buffer and prints what arrived: if the operating system
  delivers at most what was asked for, every message leaves at least one zero byte of the buffer
  in place, and the text logged is the received bytes up to their first NUL.
\<close>

theorem serv_read_message:
  assumes "recv_law e" and "serv_read e cli_fd s = (n, t)" and "0 < n"
  defines "bs \<equiv> bytes_of (payload (fst (e (world s) (C_recv cli_fd (BUF_SIZE - 1)))))"
  shows "n = int (length bs) \<and> length bs < BUF_SIZE \<and> out t = out s @ [L_recv cli_fd n (cstr bs)]"
proof -
  let ?a = "fst (e (world s) (C_recv cli_fd (BUF_SIZE - 1)))"
  have n: "n = ret ?a" and out: "out t = out s @ [L_recv cli_fd n (cstr (fill_buf (replicate BUF_SIZE 0) bs))]"
    using assms(2,3) by (auto simp: serv_read_def Let_def split_beta bs_def split: if_splits)
  have len: "int (length bs) = n"
    using assms(1,3) n by (auto simp: recv_law_def Let_def bs_def)
  moreover have "length bs < BUF_SIZE"
    using recv_law_length(1) [OF assms(1), of "world s" cli_fd "BUF_SIZE - 1"]
    by (simp add: bs_def BUF_SIZE_def)
  ultimately show ?thesis using out by (simp add: cstr_fill_zeroed)
qed

text \<open>
  C18. The select server leaks and steals no descriptor: after any number of rounds, however the
  rounds end, the open descriptors of the process are those it started with and exactly the
  connections in its array, no connection has two slots, and slot 0 is still the listening
  socket.
\<close>

theorem select_no_descriptor_leak:
  assumes "fd_law tab e" and "listen_fd \<in> tab (world s)" and "-1 \<notin> tab (world s)"
    and "serv_select e listen_fd k s = (r, t)"
  shows "tab (world t) = tab (world s) \<union> clients (fds t) \<and>
    tab (world s) \<inter> clients (fds t) = {} \<and> slots_distinct (fds t) \<and>
    length (fds t) = SELECT_FDS_LEN \<and> fds t ! 0 = listen_fd"
  using select_run_inv [OF assms(1), of listen_fd s k] assms(2-) by (simp add: conn_inv_def)

text \<open>
  Every round of the select server that reaches \<open>select\<close> asks about all its descriptors:
  the set it passes holds the listening socket and every connection of the array and nothing
  else, and the bound it passes exceeds each of them.
\<close>

theorem select_watches_every_slot:
  assumes "list_all fd_settable (fds s)"
  shows "\<exists>nfds rfds. calls (snd (select_round e listen_fd s)) ! length (trace s) = C_select nfds rfds 10 \<and>
    set rfds = set (fds s) - {-1} \<and> (\<forall>f \<in> set rfds. f < nfds)"
proof -
  obtain rfds m where b: "build_rfds (fds s) [] (maxfd s) = (rfds, m)" by fastforce
  let ?u = "log (L_text ''Selecting...'') (s\<lparr>maxfd := m\<rparr>)"
  let ?c = "C_select (m + 1) rfds 10"
  have "extends (extu e ?c ?u) (snd (select_round e listen_fd s))"
    using assms b
      extends_select_events [of "log (L_text ''Read event.'') (extu e ?c ?u)" e listen_fd]
    by (auto simp: select_round_def Let_def split_beta extends_def)
  then have "trace (snd (select_round e listen_fd s)) ! length (trace s) =
      (?c, fst (e (world s) ?c))"
    by (simp add: extends_nth)
  moreover have "length (trace s) < length (trace (snd (select_round e listen_fd s)))"
    using \<open>extends (extu e ?c ?u) _\<close> by (auto simp: extends_def)
  ultimately have "calls (snd (select_round e listen_fd s)) ! length (trace s) = ?c"
    by simp
  then show ?thesis
    using build_rfds_spec [of "fds s" "[]" "maxfd s"] b by (intro exI conjI) auto
qed


text \<open>
  C19. A round of the poll server keeps its books while a slot is free: if the open descriptors
  were those the process started with and exactly the connections of the array, they still are
  after the round.
\<close>

theorem poll_round_no_leak:
  assumes "fd_law tab e" and "conn_inv POLL_FDS_LEN listen_fd B (map pfd (pfds s)) (tab (world s))"
    and "j < POLL_FDS_LEN" and "pfd (pfds s ! j) = -1"
    and "poll_round e listen_fd s = (r, t)"
  shows "conn_inv POLL_FDS_LEN listen_fd B (map pfd (pfds t)) (tab (world t))"
  using poll_round_inv [OF assms(1-4)] assms(5) by simp

text \<open>
  C20. With a full array the poll server leaks: unlike the select server it announces that it
  disconnects the new client but never closes it, so the accepted descriptor stays open and is in
  no slot.
\<close>

theorem poll_full_leaks_connection:
  assumes "fd_law tab e" and "conn_inv POLL_FDS_LEN listen_fd B (map pfd (pfds s)) (tab (world s))"
    and "\<forall>j < POLL_FDS_LEN. pfd (pfds s ! j) \<noteq> -1"
    and "0 \<le> ret (fst (e (world s) (C_accept listen_fd)))"
  defines "c \<equiv> ret (fst (e (world s) (C_accept listen_fd)))"
  shows "c \<in> tab (world (poll_accept e listen_fd s)) \<and>
    c \<notin> set (map pfd (pfds (poll_accept e listen_fd s)))"
proof -
  obtain c' t where ct: "serv_accept e listen_fd s = (c', t)" by fastforce
  then have c': "c' = c"
    using assms(4) by (auto simp: serv_accept_def Let_def split_beta c_def)
  have t: "pfds t = pfds s" using ct serv_accept_pfds [of e listen_fd s] by simp
  have fresh: "c \<notin> tab (world s)" "c \<in> tab (world t)" "0 \<le> c"
    using serv_accept_cases [OF assms(1) ct] assms(4) by (auto simp: c' c_def)
  have "first_from (\<lambda>i. pfd (pfds s ! i) = -1) POLL_FDS_LEN 0 = POLL_FDS_LEN"
    using assms(3) by (simp add: first_from_full_iff)
  then have eq: "poll_accept e listen_fd s =
      log (L_text ''Fd set is full, disconnect client connection.'') t"
    using ct c' t fresh(3) by (simp add: poll_accept_def Let_def)
  have "set (map pfd (pfds s)) \<subseteq> tab (world s)"
    using conn_inv_slots_open [OF assms(2)] assms(2,3) by (simp add: conn_inv_def)
  then show ?thesis using fresh eq t by auto
qed

text \<open>
  No round of the poll server reads from a connection it accepted in the same round: every
  descriptor it receives from was in the array when the round began, because \<open>poll\<close> clears
  the \<open>revents\<close> of free slots (also the uninitialised ones).
\<close>

theorem poll_reads_only_old_connections:
  assumes "poll_law e" and "length (pfds s) = POLL_FDS_LEN"
    and "poll_round e listen_fd s = (r, t)"
  shows "recvs (calls t) \<subseteq> recvs (calls s) \<union> clients (map pfd (pfds s))"
proof -
  let ?c = "C_poll (map (\<lambda>p. (pfd p, events p)) (pfds s)) 10000"
  let ?a = "fst (e (world s) ?c)"
  let ?u = "(extu e ?c (log (L_text ''Poll...'') s))
      \<lparr>pfds := store_revents (pfds s) (revents_of (payload ?a))\<rparr>"
  note law = poll_lawD [OF assms(1), of "world s" "map (\<lambda>p. (pfd p, events p)) (pfds s)" 10000]
  show ?thesis
  proof (cases "0 < ret ?a")
    case True
    then have "t = poll_events e listen_fd ?u"
      using assms(3) by (auto simp: poll_round_def Let_def split_beta)
    moreover have "recvs (calls (poll_events e listen_fd ?u))
        \<subseteq> recvs (calls ?u) \<union> clients (map pfd (pfds ?u))"
      using law True assms(2) by (intro poll_events_recvs) (auto simp: revents_store)
    ultimately show ?thesis by simp
  next
    case False
    then have "ret ?a = 0 \<or> ret ?a = -1" using law(1) by linarith
    then have "calls t = calls s @ [?c]"
      using assms(3) by (elim disjE) (simp_all add: poll_round_def Let_def split_beta, auto)
    then show ?thesis by simp
  qed
qed

section \<open>Witnesses\<close>

theorem serv_read_message_witness:
  "out (snd (serv_read script_env 5 (proc0 (script {5} [ok_with 2 (P_bytes [72, 105])])))) = [L_recv 5 2 [72, 105]]"
proof -
  let ?s = "proc0 (script {5} [ok_with 2 (P_bytes [72, 105])])"
  obtain n t where nt: "serv_read script_env 5 ?s = (n, t)" by fastforce
  have ans: "fst (script_env (world ?s) (C_recv 5 (BUF_SIZE - 1))) = ok_with 2 (P_bytes [72, 105])"
    by (simp add: proc0_def script_env_def next_answer_def script_def legal_def BUF_SIZE_def)
  have n: "n = 2" using nt ans by (auto simp: serv_read_def Let_def split_beta)
  from serv_read_message [OF script_recv_law nt] show ?thesis
    using n ans nt by (simp add: cstr_def proc0_def)
qed

text \<open>One round in which a client connects: \<open>select\<close>, \<open>accept\<close>, two \<open>fcntl\<close>s.\<close>

definition demo_world :: script where
  "demo_world = script {0, 1, 2, 3} ([ok_with 1 (P_fds [3]), ok 4, ok 2, ok 0])"

theorem select_no_descriptor_leak_witness:
  "s_open (world (snd (serv_select script_env 3 1 (proc0 demo_world)))) =
     {0, 1, 2, 3} \<union> clients (fds (snd (serv_select script_env 3 1 (proc0 demo_world)))) \<and>
   fds (snd (serv_select script_env 3 1 (proc0 demo_world))) ! 0 = 3"
proof -
  have "3 \<in> s_open (world (proc0 demo_world))" "-1 \<notin> s_open (world (proc0 demo_world))"
    by (simp_all add: proc0_def demo_world_def script_def)
  from select_no_descriptor_leak [OF script_fd_law this surjective_pairing, of 1]
  show ?thesis by (simp add: proc0_def demo_world_def script_def)
qed

lemma select_init_settable: "fd_settable listen_fd \<Longrightarrow> list_all fd_settable (fds (select_init listen_fd s))"
  using set_update_subset_insert [of "replicate SELECT_FDS_LEN (-1)" 0 listen_fd]
  by (auto simp: select_init_def proc.defs list_all_iff fd_settable_def split: if_splits)

theorem select_watches_every_slot_witness:
  "\<exists>nfds rfds. calls (snd (select_round script_env 3 (select_init 3 (proc0 demo_world)))) !
      length (trace (select_init 3 (proc0 demo_world))) = C_select nfds rfds 10 \<and>
    set rfds = set (fds (select_init 3 (proc0 demo_world))) - {-1} \<and> (\<forall>f \<in> set rfds. f < nfds)"
  using select_watches_every_slot [OF select_init_settable [of 3 "proc0 demo_world"], of script_env 3]
  by (simp add: fd_settable_def FD_SETSIZE_def)

definition demo_junk :: "pollfd list" where
  "demo_junk = replicate POLL_FDS_LEN \<lparr>pfd = 77, events = 0, revents = POLLIN\<rparr>"

definition demo_poll :: "script poll_srv" where
  "demo_poll = poll_init demo_junk 3 (proc0 demo_world)"

lemma demo_poll_inv: "conn_inv POLL_FDS_LEN 3 {0, 1, 2, 3} (map pfd (pfds demo_poll)) (s_open (world demo_poll))"
  using poll_init_inv [of demo_junk 3 s_open "proc0 demo_world"]
  by (simp add: demo_poll_def demo_junk_def proc0_def demo_world_def script_def)

theorem poll_round_no_leak_witness:
  "conn_inv POLL_FDS_LEN 3 {0, 1, 2, 3} (map pfd (pfds (snd (poll_round script_env 3 demo_poll))))
    (s_open (world (snd (poll_round script_env 3 demo_poll))))"
proof -
  have "1 < POLL_FDS_LEN" "pfd (pfds demo_poll ! 1) = -1"
    by (simp_all add: demo_poll_def poll_init_def demo_junk_def proc.defs POLL_FDS_LEN_def)
  then show ?thesis
    by (rule poll_round_no_leak [OF script_fd_law demo_poll_inv _ _ surjective_pairing])
qed

theorem poll_reads_only_old_connections_witness:
  "recvs (calls (snd (poll_round script_env 3 demo_poll))) \<subseteq>
    recvs (calls demo_poll) \<union> clients (map pfd (pfds demo_poll))"
proof -
  have "length (pfds demo_poll) = POLL_FDS_LEN"
    using demo_poll_inv by (simp add: conn_inv_def)
  then show ?thesis
    by (rule poll_reads_only_old_connections [OF script_poll_law _ surjective_pairing])
qed

text \<open>A full array: descriptors 3 to 1026 in the slots, 2000 accepted.\<close>

definition full_slots :: "fd list" where
  "full_slots = map (\<lambda>i. int i + 3) [0..<POLL_FDS_LEN]"

definition full_poll :: "script poll_srv" where
  "full_poll = proc.extend (proc0 (script ({3} \<union> clients full_slots) [ok 2000]))
     \<lparr>pfds = map (\<lambda>f. \<lparr>pfd = f, events = POLLIN, revents = POLLIN\<rparr>) full_slots\<rparr>"

lemma full_poll_pfds: "map pfd (pfds full_poll) = full_slots"
  by (simp add: full_poll_def proc.defs comp_def)

lemma full_poll_world: "world full_poll = script ({3} \<union> clients full_slots) [ok 2000]"
  by (simp add: full_poll_def proc.defs proc0_def)

lemma full_poll_inv: "conn_inv POLL_FDS_LEN 3 {3} (map pfd (pfds full_poll)) (s_open (world full_poll))"
  unfolding full_poll_pfds full_poll_world
  by (auto simp: script_def conn_inv_def full_slots_def POLL_FDS_LEN_def slots_distinct_def clients_def)

theorem poll_full_leaks_connection_witness:
  "2000 \<in> s_open (world (poll_accept script_env 3 full_poll)) \<and>
   2000 \<notin> set (map pfd (pfds (poll_accept script_env 3 full_poll)))"
proof -
  have "2000 \<notin> {3} \<union> clients full_slots"
    by (auto simp: clients_def full_slots_def POLL_FDS_LEN_def)
  then have ans: "ret (fst (script_env (world full_poll) (C_accept 3))) = 2000"
    unfolding full_poll_world by (simp add: script_env_def next_answer_def script_def legal_def)
  have full: "\<forall>j < POLL_FDS_LEN. pfd (pfds full_poll ! j) \<noteq> -1"
    by (simp add: full_poll_def proc.defs full_slots_def)
  show ?thesis
    using poll_full_leaks_connection [OF script_fd_law full_poll_inv full] ans by simp
qed

end
