(* ===== verification/MultiConnEpoll.thy ===== *)
theory MultiConnEpoll
  imports MultiConn "HOL-Library.FSet"
begin

unbundle bit_operations_syntax

text \<open>
  The epoll server of server/include/multi_connection_server.hpp: the main loop with its
  dispatch of events to a thread pool, the three worker functions, shutdown. The worker for
  client messages is split before its \<open>close\<close> and at its label \<open>CLOSE_FD\<close>, because the code before the
  label runs without the lock. In every interleaving \<open>ep_fds\<close> accounts for the open connections, up
  to the first time a connection is given a number that a worker waits to erase; \<open>ep_close_race\<close> exhibits
  such a run, which loses the connection.
\<close>

section \<open>State\<close>

text \<open>A closure that the main thread posted to the \<open>boost::asio\<close> pool.\<close>

datatype task = Sig_task | Msg_task fd EpollTriggerType

record 'w ep_srv = "'w proc" +
  running :: bool
  sig_pipe_fd :: "fd \<times> fd"
  epfd :: fd
  ep_fds :: "fd fset"
  pool :: "task list"

section \<open>Workers\<close>

text \<open>
  One turn of the loop of \<open>ep_sig_worker_func\<close>; the byte is an \<open>int8_t\<close>, and both cases
  end in \<open>continue\<close>.
\<close>

definition ep_sig_body :: "'w env \<Rightarrow> 'w ep_srv \<Rightarrow> 'w ep_srv + 'w ep_srv" where
  "ep_sig_body e s =
     (let (a, s) = ext e (C_recv (fst (sig_pipe_fd s)) 1) s
      in if ret a = 1 then
           let sig = sint (hd (bytes_of (payload a) @ [0]));
               s = log (L_signal sig) s
           in Inl (if sig = SIGTERM \<or> sig = SIGINT then s\<lparr>running := False\<rparr> else s)
         else Inr s)"

definition ep_sig_worker_func :: "'w env \<Rightarrow> 'w ep_srv \<Rightarrow> 'w ep_srv option" where
  "ep_sig_worker_func e s = loop_until (ep_sig_body e) s"

definition ep_accept_worker_func ::
  "'w env \<Rightarrow> fd \<Rightarrow> EpollTriggerType \<Rightarrow> 'w ep_srv \<Rightarrow> 'w ep_srv" where
  "ep_accept_worker_func e listen_fd trigger_type s =
     (let (cli_fd, s) = serv_accept e listen_fd s
      in if cli_fd \<noteq> -1 then
           if fcard (ep_fds s) < EPOLL_FDS_LEN then
             let mask = (if trigger_type = EP_ET then EPOLLIN OR EPOLLET else EPOLLIN);
                 s = extu e (C_epoll_add (epfd s) cli_fd mask) s;
                 s = s\<lparr>ep_fds := finsert cli_fd (ep_fds s)\<rparr>
             in log (L_added_len cli_fd (fcard (ep_fds s))) s
           else
             log (L_text ''Fd set is full, disconnect client connection.'')
               (extu e (C_close cli_fd) s)
         else s)"

text \<open>
  One turn of the edge-triggered read loop. Leaving it, the flag says whether the code jumps to
  \<open>CLOSE_FD\<close>.
\<close>

definition ep_drain_body :: "'w env \<Rightarrow> fd \<Rightarrow> ('w, 'x) proc_scheme \<Rightarrow>
  ('w, 'x) proc_scheme + bool \<times> ('w, 'x) proc_scheme" where
  "ep_drain_body e cli_fd s =
     (let (r, s) = serv_read e cli_fd s
      in if 0 < r then Inl s
         else if r = 0 then Inr (True, extu e (C_close cli_fd) s)
         else if would_block (errno s)
              then Inr (False, log (L_text ''Edge trigger, wait next EPOLL_IN.'') s)
         else Inr (True, extu e (C_close cli_fd) s))"

text \<open>\<open>ep_msg_worker_func\<close> up to its \<open>return\<close> or its jump to \<open>CLOSE_FD\<close>.\<close>

definition ep_msg_worker_read :: "'w env \<Rightarrow> fd \<Rightarrow> EpollTriggerType \<Rightarrow> 'w ep_srv \<Rightarrow>
  (bool \<times> 'w ep_srv) option" where
  "ep_msg_worker_read e cli_fd trigger_type s =
     (if trigger_type = EP_ET then loop_until (ep_drain_body e cli_fd) s
      else
        let (r, s) = serv_read e cli_fd s
        in if r = 0 then Some (True, extu e (C_close cli_fd) s)
           else if r < 0 then
             if would_block (errno s)
             then Some (False, log (L_text ''Level trigger, wait next EPOLL_IN.'') s)
             else Some (True, extu e (C_close cli_fd) s)
           else Some (False, s))"

text \<open>The code at \<open>CLOSE_FD\<close>, inside the lock.\<close>

definition ep_close_fd :: "'w env \<Rightarrow> fd \<Rightarrow> 'w ep_srv \<Rightarrow> 'w ep_srv" where
  "ep_close_fd e cli_fd s =
     (let s = extu e (C_epoll_del (epfd s) cli_fd) s;
          s = s\<lparr>ep_fds := ep_fds s |-| {|cli_fd|}\<rparr>
      in log (L_closed cli_fd (fcard (ep_fds s))) s)"

definition ep_msg_worker_func ::
  "'w env \<Rightarrow> fd \<Rightarrow> EpollTriggerType \<Rightarrow> 'w ep_srv \<Rightarrow> 'w ep_srv option" where
  "ep_msg_worker_func e cli_fd trigger_type s =
     (case ep_msg_worker_read e cli_fd trigger_type s of
        None \<Rightarrow> None
      | Some (close_it, s) \<Rightarrow> Some (if close_it then ep_close_fd e cli_fd s else s))"

section \<open>The main loop\<close>

definition epoll_init :: "'w env \<Rightarrow> fd \<Rightarrow> 'w ep_srv \<Rightarrow> 'w ep_srv" where
  "epoll_init e listen_fd s =
     (let (a, s) = ext e (C_epoll_create (int EPOLL_FDS_LEN)) s;
          s = s\<lparr>epfd := ret a\<rparr>;
          s = extu e (C_epoll_add (epfd s) listen_fd EPOLLIN) s;
          s = extu e (C_epoll_add (epfd s) (fst (sig_pipe_fd s)) EPOLLIN) s
      in log (L_text ''Create thread pool with concurrent count'')
           (s\<lparr>ep_fds := finsert (fst (sig_pipe_fd s)) (finsert listen_fd (ep_fds s)), pool := []\<rparr>))"

definition epoll_event :: "'w env \<Rightarrow> fd \<Rightarrow> EpollTriggerType \<Rightarrow> fd \<times> evmask \<Rightarrow> 'w ep_srv \<Rightarrow> 'w ep_srv" where
  "epoll_event e listen_fd trigger_type ev s =
     (if fst ev = listen_fd \<and> snd ev AND EPOLLIN \<noteq> 0
      then ep_accept_worker_func e listen_fd trigger_type s
      else if fst ev = fst (sig_pipe_fd s) \<and> snd ev AND EPOLLIN \<noteq> 0
      then s\<lparr>pool := pool s @ [Sig_task]\<rparr>
      else if fst ev \<noteq> -1 \<and> snd ev AND EPOLLIN \<noteq> 0
      then s\<lparr>pool := pool s @ [Msg_task (fst ev) trigger_type]\<rparr>
      else s)"

definition epoll_round :: "'w env \<Rightarrow> fd \<Rightarrow> EpollTriggerType \<Rightarrow> 'w ep_srv \<Rightarrow> unit outcome \<times> 'w ep_srv" where
  "epoll_round e listen_fd trigger_type s =
     (let s = log (L_text ''Epoll...'') s;
          (a, s) = ext e (C_epoll_wait (epfd s) (int EPOLL_FDS_LEN) 5000) s
      in if ret a = 0 then (Ret (), log (L_text ''Timeout.'') s)
         else if ret a = -1 then (Exit 1, log (L_wait_failed (errno s)) s)
         else (Ret (), fold (epoll_event e listen_fd trigger_type)
                         (take (nat (ret a)) (events_of (payload a))) s))"

text \<open>
  After the loop: every descriptor of \<open>ep_fds\<close> is closed, in whatever order the
  \<open>unordered_set\<close> enumerates them (\<open>order\<close>), then the write end of the signal pipe.
\<close>

definition epoll_stop :: "'w env \<Rightarrow> (fd fset \<Rightarrow> fd list) \<Rightarrow> 'w ep_srv \<Rightarrow> unit outcome \<times> 'w ep_srv" where
  "epoll_stop e order s =
     (let s = log (L_text ''Multi connection server stopped.'') s;
          s = fold (\<lambda>f s. extu e (C_close f) s) (order (ep_fds s)) s;
          s = extu e (C_close (snd (sig_pipe_fd s))) s
      in (Exit 0, s))"

section \<open>Main thread and pool together\<close>

text \<open>
  The two halves of \<open>epoll_round\<close>: waiting for events, which yields a list of them, and handling
  one.
\<close>

definition epoll_poll :: "'w env \<Rightarrow> 'w ep_srv \<Rightarrow> (fd \<times> evmask) list outcome \<times> 'w ep_srv" where
  "epoll_poll e s =
     (let s = log (L_text ''Epoll...'') s;
          (a, s) = ext e (C_epoll_wait (epfd s) (int EPOLL_FDS_LEN) 5000) s
      in if ret a = 0 then (Ret [], log (L_text ''Timeout.'') s)
         else if ret a = -1 then (Exit 1, log (L_wait_failed (errno s)) s)
         else (Ret (take (nat (ret a)) (events_of (payload a))), s))"

lemma epoll_round_poll:
  "epoll_round e listen_fd trigger_type s =
     then_do (epoll_poll e s) (\<lambda>evs s. (Ret (), fold (epoll_event e listen_fd trigger_type) evs s))"
  by (simp add: epoll_round_def epoll_poll_def Let_def split_beta)

text \<open>
  \<open>ep_msg_worker_read\<close> without its \<open>close\<close>: the flag says that it is to follow.
\<close>

definition ep_drain_read :: "'w env \<Rightarrow> fd \<Rightarrow> ('w, 'x) proc_scheme \<Rightarrow>
  ('w, 'x) proc_scheme + bool \<times> ('w, 'x) proc_scheme" where
  "ep_drain_read e cli_fd s =
     (let (r, s) = serv_read e cli_fd s
      in if 0 < r then Inl s
         else if r = 0 then Inr (True, s)
         else if would_block (errno s)
              then Inr (False, log (L_text ''Edge trigger, wait next EPOLL_IN.'') s)
         else Inr (True, s))"

definition ep_msg_worker_test :: "'w env \<Rightarrow> fd \<Rightarrow> EpollTriggerType \<Rightarrow> 'w ep_srv \<Rightarrow>
  (bool \<times> 'w ep_srv) option" where
  "ep_msg_worker_test e cli_fd trigger_type s =
     (if trigger_type = EP_ET then loop_until (ep_drain_read e cli_fd) s
      else
        let (r, s) = serv_read e cli_fd s
        in if r = 0 then Some (True, s)
           else if r < 0 then
             if would_block (errno s)
             then Some (False, log (L_text ''Level trigger, wait next EPOLL_IN.'') s)
             else Some (True, s)
           else Some (False, s))"

lemma ep_msg_worker_read_test:
  "ep_msg_worker_read e f tr s =
     map_option (\<lambda>(b, t). (b, if b then extu e (C_close f) t else t)) (ep_msg_worker_test e f tr s)"
proof -
  define g :: "bool \<times> 'a ep_srv \<Rightarrow> bool \<times> 'a ep_srv"
    where "g = (\<lambda>(b, t). (b, if b then extu e (C_close f) t else t))"
  have body: "ep_drain_body e f = (\<lambda>s. case ep_drain_read e f s of Inl t \<Rightarrow> Inl t | Inr r \<Rightarrow> Inr (g r))"
    by (rule HOL.ext) (simp add: ep_drain_body_def ep_drain_read_def Let_def split_beta g_def)
  have "ep_msg_worker_read e f tr s = map_option g (ep_msg_worker_test e f tr s)"
  proof (cases tr)
    case EP_ET
    then show ?thesis unfolding ep_msg_worker_read_def ep_msg_worker_test_def body loop_until_map by simp
  next
    case EP_LT
    then show ?thesis by (simp add: ep_msg_worker_read_def ep_msg_worker_test_def Let_def split_beta g_def)
  qed
  then show ?thesis by (simp add: g_def)
qed

text \<open>
  \<open>todo\<close> are the events the main thread has still to handle in this round. \<open>hanging\<close> lists the
  workers about to call \<open>close\<close>, \<open>closing\<close> those that have closed a connection and wait for the lock at
  \<open>CLOSE_FD\<close>. The pool may run its tasks in any order, and each of these steps may fall between
  any two others.
\<close>

record 'w ep_sys =
  srv :: "'w ep_srv"
  todo :: "(fd \<times> evmask) list"
  hanging :: "fd list"
  closing :: "fd list"

inductive ep_step :: "'w env \<Rightarrow> fd \<Rightarrow> EpollTriggerType \<Rightarrow> 'w ep_sys \<Rightarrow> 'w ep_sys \<Rightarrow> bool"
  for e :: "'w env" and listen_fd :: fd and trigger_type :: EpollTriggerType where
  main_wait: "running (srv s) \<Longrightarrow> todo s = [] \<Longrightarrow> epoll_poll e (srv s) = (Ret evs, t) \<Longrightarrow>
    ep_step e listen_fd trigger_type s (s\<lparr>srv := t, todo := evs\<rparr>)"
| main_event: "todo s = ev # evs \<Longrightarrow>
    ep_step e listen_fd trigger_type s (s\<lparr>srv := epoll_event e listen_fd trigger_type ev (srv s), todo := evs\<rparr>)"
| run_sig: "pool (srv s) = us @ Sig_task # vs \<Longrightarrow>
    ep_sig_worker_func e ((srv s)\<lparr>pool := us @ vs\<rparr>) = Some t \<Longrightarrow>
    ep_step e listen_fd trigger_type s (s\<lparr>srv := t\<rparr>)"
| run_msg: "pool (srv s) = us @ Msg_task f tr # vs \<Longrightarrow>
    ep_msg_worker_test e f tr ((srv s)\<lparr>pool := us @ vs\<rparr>) = Some (close_it, t) \<Longrightarrow>
    ep_step e listen_fd trigger_type s
      (s\<lparr>srv := t, hanging := (if close_it then hanging s @ [f] else hanging s)\<rparr>)"
| hang_up: "hanging s = us @ f # vs \<Longrightarrow>
    ep_step e listen_fd trigger_type s
      (s\<lparr>srv := extu e (C_close f) (srv s), hanging := us @ vs, closing := closing s @ [f]\<rparr>)"
| run_close: "closing s = us @ f # vs \<Longrightarrow>
    ep_step e listen_fd trigger_type s (s\<lparr>srv := ep_close_fd e f (srv s), closing := us @ vs\<rparr>)"

inductive_cases ep_step_elim: "ep_step e listen_fd trigger_type s t"

text \<open>The server at the start of its loop, before anything was dispatched.\<close>

definition ep_boot :: "'w ep_srv \<Rightarrow> 'w ep_sys" where
  "ep_boot s = \<lparr>srv = s, todo = [], hanging = [], closing = []\<rparr>"

section \<open>Frames\<close>

lemma ep_srv_frame [simp]:
  fixes s :: "'w ep_srv"
  shows "running (extu e c s) = running s" "sig_pipe_fd (extu e c s) = sig_pipe_fd s"
    "epfd (extu e c s) = epfd s" "ep_fds (extu e c s) = ep_fds s" "pool (extu e c s) = pool s"
    "running (log l s) = running s" "sig_pipe_fd (log l s) = sig_pipe_fd s"
    "epfd (log l s) = epfd s" "ep_fds (log l s) = ep_fds s" "pool (log l s) = pool s"
  by (simp_all add: ext_def log_def Let_def)

lemma serv_read_ep [simp]:
  fixes s :: "'w ep_srv"
  shows "running (snd (serv_read e f s)) = running s"
    "sig_pipe_fd (snd (serv_read e f s)) = sig_pipe_fd s" "epfd (snd (serv_read e f s)) = epfd s"
    "ep_fds (snd (serv_read e f s)) = ep_fds s" "pool (snd (serv_read e f s)) = pool s"
  by (simp_all add: serv_read_def Let_def split_beta)

lemma serv_accept_ep [simp]:
  fixes s :: "'w ep_srv"
  shows "running (snd (serv_accept e f s)) = running s"
    "sig_pipe_fd (snd (serv_accept e f s)) = sig_pipe_fd s"
    "epfd (snd (serv_accept e f s)) = epfd s"
    "ep_fds (snd (serv_accept e f s)) = ep_fds s" "pool (snd (serv_accept e f s)) = pool s"
  by (simp_all add: serv_accept_def set_no_blocking_def Let_def split_beta)

section \<open>The read loops end\<close>

interpretation drain: recv_loop e "\<lambda>_. cli_fd" "BUF_SIZE - 1" world "ep_drain_body e cli_fd"
  for e :: "'w env" and cli_fd :: fd
  by unfold_locales
     (auto simp: ep_drain_body_def serv_read_def Let_def split_beta split: if_splits)

interpretation sigs: recv_loop e "\<lambda>s. fst (sig_pipe_fd s)" 1 world "ep_sig_body e"
  for e :: "'w env"
  by unfold_locales (auto simp: ep_sig_body_def Let_def split_beta split: if_splits)

section \<open>What the edge-triggered loop leaves behind\<close>

lemma ep_drain_body_Inl:
  assumes "recv_law e" and "drained f s as t" and "ep_drain_body e f t = Inl u"
  shows "\<exists>a. drained f s (as @ [a]) u"
proof -
  let ?a = "fst (e (world t) (C_recv f (BUF_SIZE - 1)))"
  have "length (bytes_of (payload ?a)) < BUF_SIZE"
    using recv_law_length(1) [OF assms(1), of "world t" f "BUF_SIZE - 1"] by (simp add: BUF_SIZE_def)
  then have "drained f s (as @ [?a]) u"
    using assms(2,3)
    by (auto simp: drained_def ep_drain_body_def serv_read_def Let_def split_beta
        cstr_fill_zeroed split: if_splits)
  then show ?thesis by blast
qed

text \<open>How the loop can end: the last answer and, when it gives up, the \<open>close\<close>.\<close>

definition drain_end :: "fd \<Rightarrow> ('w, 'x) proc_scheme \<Rightarrow> bool \<times> ('w, 'x) proc_scheme \<Rightarrow> bool" where
  "drain_end f s r \<longleftrightarrow>
     (\<exists>as u a rest. drained f s as u \<and>
        trace (snd r) = trace u @ (C_recv f (BUF_SIZE - 1), a) # rest \<and>
        (if fst r then ret a = 0 \<or> (ret a < 0 \<and> \<not> would_block (eno a))
         else ret a < 0 \<and> would_block (eno a)) \<and>
        map fst rest = (if fst r then [C_close f] else []))"

lemma ep_drain_body_Inr:
  assumes "drained f s as t" and "ep_drain_body e f t = Inr r"
  shows "drain_end f s r"
  unfolding drain_end_def
  by (rule exI [of _ "as"], rule exI [of _ t],
      rule exI [of _ "fst (e (world t) (C_recv f (BUF_SIZE - 1)))"])
     (use assms in \<open>auto simp: ep_drain_body_def serv_read_def Let_def split_beta
       split: if_splits\<close>)

lemma ep_drain_end:
  assumes "recv_law e" and "loop_until (ep_drain_body e f) s = Some r"
  shows "drain_end f s r"
  by (rule loop_until_invariant [OF assms(2), where P = "\<lambda>t. \<exists>as. drained f s as t"])
     (use drained_Nil ep_drain_body_Inl [OF assms(1)] ep_drain_body_Inr in blast)+

section \<open>The books of the server\<close>

text \<open>
  \<open>B\<close> are the descriptors open before the first connection, \<open>C\<close> the ones that have been closed and not yet
  erased. The invariant: the open descriptors are \<open>B\<close> and those of \<open>ep_fds\<close> but \<open>C\<close>, \<open>ep_fds\<close> stays within its
  bound, of \<open>B\<close> exactly the listening socket and the signal pipe are in it and only these are watched, and
  neither a message task nor \<open>C\<close> is about \<open>B\<close>.
\<close>

definition ep_ok :: "('w \<Rightarrow> fd set) \<Rightarrow> ('w \<Rightarrow> fd set) \<Rightarrow> fd set \<Rightarrow> fd set \<Rightarrow> fd \<Rightarrow> 'w ep_srv \<Rightarrow> bool" where
  "ep_ok tab reg B C listen_fd s \<longleftrightarrow>
     tab (world s) = B \<union> (fset (ep_fds s) - C) \<and> fcard (ep_fds s) \<le> EPOLL_FDS_LEN \<and>
     fset (ep_fds s) \<inter> B = {listen_fd, fst (sig_pipe_fd s)} \<and> B \<inter> C = {} \<and>
     reg (world s) \<inter> B \<subseteq> {listen_fd, fst (sig_pipe_fd s)} \<and>
     (\<forall>f tr. Msg_task f tr \<in> set (pool s) \<longrightarrow> f \<notin> B)"

lemma epoll_law_reg: "epoll_law reg e \<Longrightarrow> reg (snd (e w c)) \<subseteq> reg w \<union> watched c"
  by (simp add: epoll_law_def)

lemma epoll_law_quiet: "epoll_law reg e \<Longrightarrow> watched c = {} \<Longrightarrow> reg (snd (e w c)) \<subseteq> reg w"
  using epoll_law_reg [of reg e w c] by simp

lemma serv_read_reg: "epoll_law reg e \<Longrightarrow> reg (world (snd (serv_read e f s))) \<subseteq> reg (world s)"
  using epoll_law_quiet [of reg e "C_recv f (BUF_SIZE - 1)" "world s"]
  by (simp add: serv_read_def Let_def split_beta)

lemma serv_accept_reg: "epoll_law reg e \<Longrightarrow> reg (world (snd (serv_accept e f s))) \<subseteq> reg (world s)"
  unfolding serv_accept_def set_no_blocking_def Let_def split_beta
  using epoll_law_quiet [of reg e]
  by (simp, intro conjI impI) (meson epoll_law_quiet order_trans watched.simps)+

lemma ep_accept_ok:
  fixes tr :: EpollTriggerType
  assumes law: "fd_law tab e" "epoll_law reg e" and ok: "ep_ok tab reg B C lf s"
  defines "t \<equiv> ep_accept_worker_func e lf tr s"
  assumes calm: "(tab (world t) - tab (world s)) \<inter> C = {}"
  shows "ep_ok tab reg B C lf t"
proof -
  obtain c u where cu: "serv_accept e lf s = (c, u)" by fastforce
  note cases = serv_accept_cases [OF law(1) cu]
  have frame: "ep_fds u = ep_fds s" "pool u = pool s" "sig_pipe_fd u = sig_pipe_fd s"
    and reg: "reg (world u) \<subseteq> reg (world s)"
    using cu serv_accept_ep [of e lf s] serv_accept_reg [OF law(2), of lf s] by simp_all
  consider "c = -1" | "c \<noteq> -1" "fcard (ep_fds s) < EPOLL_FDS_LEN" | "c \<noteq> -1" "\<not> fcard (ep_fds s) < EPOLL_FDS_LEN"
    by blast
  then show ?thesis
  proof cases
    case 1
    then show ?thesis
      using ok cases frame reg cu by (auto simp: t_def ep_ok_def ep_accept_worker_func_def)
  next
    case 2
    let ?add = "C_epoll_add (epfd u) c (if tr = EP_ET then EPOLLIN OR EPOLLET else EPOLLIN)"
    have new: "c \<notin> tab (world s)" "tab (world u) = insert c (tab (world s))" using 2 cases by auto
    have t: "ep_fds t = finsert c (ep_fds s)" "tab (world t) = insert c (tab (world s))" "pool t = pool s"
      "sig_pipe_fd t = sig_pipe_fd s" "reg (world t) = reg (snd (e (world u) ?add))"
      using 2 cu frame new(2) by (simp_all add: t_def ep_accept_worker_func_def Let_def fd_law_tab [OF law(1)])
    have "reg (world t) \<subseteq> insert c (reg (world s))" using reg epoll_law_reg [OF law(2), of "world u" ?add] t(5) by auto
    moreover have "c \<notin> B" "c \<notin> C" using new calm t(2) ok by (auto simp: ep_ok_def)
    ultimately show ?thesis
      using 2 ok t unfolding ep_ok_def by (auto simp: fcard_finsert_if)
  next
    case 3
    have "reg (snd (e (world u) (C_close c))) \<subseteq> reg (world s)"
      using reg epoll_law_reg [OF law(2), of "world u" "C_close c"] by auto
    moreover have "tab (snd (e (world u) (C_close c))) = tab (world s)"
      using 3 cases by (auto simp: fd_law_tab [OF law(1)])
    ultimately show ?thesis
      using 3 ok frame cu by (auto simp: t_def ep_ok_def ep_accept_worker_func_def Let_def)
  qed
qed

lemma ep_accept_sig_pipe [simp]:
  "sig_pipe_fd (ep_accept_worker_func e lf tr s) = sig_pipe_fd s"
  by (simp add: ep_accept_worker_func_def Let_def split_beta)

lemma epoll_event_ok:
  assumes "fd_law tab e" "epoll_law reg e" and "ep_ok tab reg B C lf s"
    and "fst ev \<in> B \<longrightarrow> fst ev \<in> {lf, fst (sig_pipe_fd s)}"
    and "(tab (world (epoll_event e lf tr ev s)) - tab (world s)) \<inter> C = {}"
  shows "ep_ok tab reg B C lf (epoll_event e lf tr ev s)"
proof (cases "fst ev = lf \<and> snd ev AND EPOLLIN \<noteq> 0")
  case True
  then have "epoll_event e lf tr ev s = ep_accept_worker_func e lf tr s" by (simp add: epoll_event_def)
  then show ?thesis using ep_accept_ok [OF assms(1-3), of tr] assms(5) by simp
next
  case False
  have "ep_ok tab reg B C lf (s\<lparr>pool := pool s @ [Sig_task]\<rparr>)" using assms(3) by (simp add: ep_ok_def)
  moreover have "ep_ok tab reg B C lf (s\<lparr>pool := pool s @ [Msg_task (fst ev) tr]\<rparr>)" if "fst ev \<notin> B"
    using assms(3) that by (simp add: ep_ok_def)
  ultimately show ?thesis using assms(3,4) False unfolding epoll_event_def by (auto split: if_splits)
qed

lemma epoll_event_sig_pipe [simp]: "sig_pipe_fd (epoll_event e lf tr ev s) = sig_pipe_fd s"
  by (simp add: epoll_event_def)

lemma epoll_poll_ok:
  assumes law: "fd_law tab e" "epoll_law reg e" and ok: "ep_ok tab reg B C lf s" and poll: "epoll_poll e s = (Ret evs, t)"
  shows "ep_ok tab reg B C lf t" and "\<forall>ev \<in> set evs. fst ev \<in> B \<longrightarrow> fst ev \<in> {lf, fst (sig_pipe_fd t)}"
    and "sig_pipe_fd t = sig_pipe_fd s"
proof -
  let ?w = "C_epoll_wait (epfd s) (int EPOLL_FDS_LEN) 5000"
  have t: "world t = snd (e (world s) ?w)" "ep_fds t = ep_fds s" "pool t = pool s" "sig_pipe_fd t = sig_pipe_fd s"
    and evs: "set evs \<subseteq> set (events_of (payload (fst (e (world s) ?w))))"
    using poll by (auto simp: epoll_poll_def Let_def split_beta dest: in_set_takeD split: if_splits)
  show "ep_ok tab reg B C lf t"
    using ok epoll_law_reg [OF law(2), of "world s" ?w] t by (auto simp: ep_ok_def fd_law_frame [OF law(1)])
  show "\<forall>ev \<in> set evs. fst ev \<in> B \<longrightarrow> fst ev \<in> {lf, fst (sig_pipe_fd t)}"
    using ok law(2) evs t by (fastforce simp: ep_ok_def epoll_law_def)
  show "sig_pipe_fd t = sig_pipe_fd s" by (rule t(4))
qed

text \<open>
  A worker that reads a connection changes nothing of the server's state and leaves the descriptors alone.
\<close>

definition read_effect :: "('w \<Rightarrow> fd set) \<Rightarrow> ('w \<Rightarrow> fd set) \<Rightarrow> 'w ep_srv \<Rightarrow> 'w ep_srv \<Rightarrow> bool" where
  "read_effect tab reg s t \<longleftrightarrow>
     tab (world t) = tab (world s) \<and> reg (world t) \<subseteq> reg (world s) \<and>
     ep_fds t = ep_fds s \<and> pool t = pool s \<and> sig_pipe_fd t = sig_pipe_fd s"

lemma read_effect_serv_read:
  assumes "fd_law tab e" and "epoll_law reg e"
  shows "read_effect tab reg s (snd (serv_read e f s))"
    and "read_effect tab reg s (log l (snd (serv_read e f s)))"
  using serv_read_tab [OF assms(1), of f s] serv_read_reg [OF assms(2), of f s]
  by (auto simp: read_effect_def)

lemma read_effect_trans: "read_effect tab reg s t \<Longrightarrow> read_effect tab reg t u \<Longrightarrow> read_effect tab reg s u"
  by (auto simp: read_effect_def)

lemma ep_msg_worker_test_effect:
  assumes law: "fd_law tab e" "epoll_law reg e" and "ep_msg_worker_test e f tr s = Some (b, t)"
  shows "read_effect tab reg s t"
proof (cases tr)
  case EP_ET
  then have loop: "loop_until (ep_drain_read e f) s = Some (b, t)" using assms(3) by (simp add: ep_msg_worker_test_def)
  have "read_effect tab reg s (snd (b, t))"
    by (rule loop_until_invariant [OF loop, where P = "read_effect tab reg s" and Q = "\<lambda>r. read_effect tab reg s (snd r)"])
       (use read_effect_serv_read [OF law] in
         \<open>auto simp: ep_drain_read_def split_beta Let_def read_effect_def [of _ _ s s] split: if_splits intro: read_effect_trans\<close>)
  then show ?thesis by simp
next
  case EP_LT
  then show ?thesis
    using assms(3) read_effect_serv_read [OF law, of s] by (auto simp: ep_msg_worker_test_def split_beta Let_def split: if_splits)
qed

lemma ep_ok_read: "ep_ok tab reg B C lf s \<Longrightarrow> read_effect tab reg s t \<Longrightarrow> ep_ok tab reg B C lf t"
  unfolding ep_ok_def read_effect_def by auto

text \<open>Hanging up moves a descriptor to the ones to be erased, \<open>CLOSE_FD\<close> erases it.\<close>

lemma ep_hang_up_ok:
  assumes law: "fd_law tab e" "epoll_law reg e" and "ep_ok tab reg B C lf s" and "f \<notin> B"
  shows "ep_ok tab reg B (insert f C) lf (extu e (C_close f) s)"
  using assms(3,4) epoll_law_quiet [OF law(2), of "C_close f" "world s"]
  by (auto simp: ep_ok_def fd_law_tab [OF law(1)])

lemma ep_close_fd_ok:
  assumes law: "fd_law tab e" "epoll_law reg e" and ok: "ep_ok tab reg B C lf s"
    and "f \<in> C" and "C - {f} \<subseteq> C'" and "C' \<subseteq> C"
  shows "ep_ok tab reg B C' lf (ep_close_fd e f s)"
proof -
  have "reg (snd (e (world s) (C_epoll_del (epfd s) f))) \<subseteq> reg (world s)"
    using epoll_law_quiet [OF law(2), of "C_epoll_del (epfd s) f" "world s"] by simp
  moreover have "fcard (ep_fds s |-| {|f|}) \<le> fcard (ep_fds s)" by (rule fcard_mono) auto
  ultimately show ?thesis
    using ok assms(4-6) by (auto simp: ep_ok_def ep_close_fd_def Let_def fd_law_frame [OF law(1)])
qed

lemma ep_ok_recv:
  assumes "fd_law tab e" "epoll_law reg e" and "ep_ok tab reg B C lf s"
  shows "ep_ok tab reg B C lf (extu e (C_recv f n) s)"
  using assms(3) epoll_law_quiet [OF assms(2), of "C_recv f n" "world s"]
  unfolding ep_ok_def by (simp add: fd_law_frame [OF assms(1)]) blast

lemma ep_ok_simps [simp]:
  "ep_ok tab reg B C lf (log l s) = ep_ok tab reg B C lf s"
  "ep_ok tab reg B C lf (s\<lparr>running := b\<rparr>) = ep_ok tab reg B C lf s"
  by (simp_all add: ep_ok_def)

lemma ep_sig_worker_ok:
  assumes law: "fd_law tab e" "epoll_law reg e" and "ep_ok tab reg B C lf s"
    and "ep_sig_worker_func e s = Some t"
  shows "ep_ok tab reg B C lf t \<and> sig_pipe_fd t = sig_pipe_fd s"
  by (rule loop_until_invariant [where P = "\<lambda>u. ep_ok tab reg B C lf u \<and> sig_pipe_fd u = sig_pipe_fd s"
        and Q = "\<lambda>u. ep_ok tab reg B C lf u \<and> sig_pipe_fd u = sig_pipe_fd s",
        OF assms(4) [unfolded ep_sig_worker_func_def]])
     (use assms(3) ep_ok_recv [OF law] in
       \<open>auto simp: ep_sig_body_def split_beta Let_def split: if_splits\<close>)

lemma ep_ok_pool: "ep_ok tab reg B C lf s \<Longrightarrow> set ts \<subseteq> set (pool s) \<Longrightarrow> ep_ok tab reg B C lf (s\<lparr>pool := ts\<rparr>)"
  unfolding ep_ok_def by (simp, blast)

section \<open>The books under every interleaving\<close>

definition ep_book :: "('w \<Rightarrow> fd set) \<Rightarrow> ('w \<Rightarrow> fd set) \<Rightarrow> fd set \<Rightarrow> fd \<Rightarrow> fd \<times> fd \<Rightarrow> 'w ep_sys \<Rightarrow> bool" where
  "ep_book tab reg B listen_fd p x \<longleftrightarrow>
     ep_ok tab reg B (set (closing x)) listen_fd (srv x) \<and> sig_pipe_fd (srv x) = p \<and> set (hanging x) \<inter> B = {} \<and>
     (\<forall>ev \<in> set (todo x). fst ev \<in> B \<longrightarrow> fst ev \<in> {listen_fd, fst p})"

text \<open>
  The accident: a descriptor opened in this step has a number that a worker at \<open>CLOSE_FD\<close> is still to erase. A
  calm step is one without it.
\<close>

definition reused :: "('w \<Rightarrow> fd set) \<Rightarrow> 'w ep_sys \<Rightarrow> 'w ep_sys \<Rightarrow> bool" where
  "reused tab x y \<longleftrightarrow> (tab (world (srv y)) - tab (world (srv x))) \<inter> set (closing x) \<noteq> {}"

definition ep_calm :: "('w \<Rightarrow> fd set) \<Rightarrow> 'w env \<Rightarrow> fd \<Rightarrow> EpollTriggerType \<Rightarrow> 'w ep_sys \<Rightarrow> 'w ep_sys \<Rightarrow> bool" where
  "ep_calm tab e listen_fd trigger_type x y \<longleftrightarrow> ep_step e listen_fd trigger_type x y \<and> \<not> reused tab x y"

lemma ep_calm_book:
  fixes x :: "'w ep_sys"
  assumes law: "fd_law tab e" "epoll_law reg e" and step: "ep_calm tab e lf tr x y" and book: "ep_book tab reg B lf p x"
  shows "ep_book tab reg B lf p y"
proof -
  have ok: "ep_ok tab reg B (set (closing x)) lf (srv x)" and pipe: "sig_pipe_fd (srv x) = p" and hang: "set (hanging x) \<inter> B = {}"
    and todo: "\<forall>ev \<in> set (todo x). fst ev \<in> B \<longrightarrow> fst ev \<in> {lf, fst p}"
    using book by (simp_all add: ep_book_def)
  from step have "ep_step e lf tr x y" and calm: "\<not> reused tab x y" by (simp_all add: ep_calm_def)
  then show ?thesis
  proof cases
    case (main_wait evs t)
    then show ?thesis using epoll_poll_ok [OF law ok main_wait(4)] hang pipe by (simp add: ep_book_def)
  next
    case (main_event ev evs)
    have "ep_ok tab reg B (set (closing x)) lf (epoll_event e lf tr ev (srv x))"
      by (rule epoll_event_ok [OF law ok]) (use main_event calm todo pipe in \<open>auto simp: reused_def\<close>)
    then show ?thesis using main_event todo hang pipe by (simp add: ep_book_def)
  next
    case (run_sig us vs t)
    then show ?thesis
      using ep_sig_worker_ok [OF law ep_ok_pool [OF ok, of "us @ vs"]] hang pipe todo by (auto simp: ep_book_def)
  next
    case (run_msg us f tr' vs close_it t)
    have "f \<notin> B" using ok run_msg(2) by (auto simp: ep_ok_def)
    moreover have "read_effect tab reg ((srv x)\<lparr>pool := us @ vs\<rparr>) t" by (rule ep_msg_worker_test_effect [OF law run_msg(3)])
    moreover from this have "ep_ok tab reg B (set (closing x)) lf t"
      using ep_ok_pool [OF ok, of "us @ vs"] run_msg(2) ep_ok_read by fastforce
    ultimately show ?thesis using run_msg hang pipe todo by (auto simp: ep_book_def read_effect_def)
  next
    case (hang_up us f vs)
    have "f \<notin> B" using hang hang_up(2) by auto
    then show ?thesis using ep_hang_up_ok [OF law ok, of f] hang_up hang pipe todo by (auto simp: ep_book_def)
  next
    case (run_close us f vs)
    have "ep_ok tab reg B (set (us @ vs)) lf (ep_close_fd e f (srv x))"
      by (rule ep_close_fd_ok [OF law ok]) (use run_close(2) in auto)
    moreover have "sig_pipe_fd (ep_close_fd e f (srv x)) = sig_pipe_fd (srv x)" by (simp add: ep_close_fd_def Let_def)
    ultimately show ?thesis using run_close hang pipe todo by (simp add: ep_book_def)
  qed
qed

interpretation ep_runs: step_invariant "ep_calm tab e lf tr"
    "\<lambda>x. fd_law tab e \<and> epoll_law reg e \<and> ep_book tab reg B lf p x"
  for e :: "'w env" and lf :: fd and tr :: EpollTriggerType and tab reg :: "'w \<Rightarrow> fd set" and B :: "fd set" and p
  by unfold_locales (use ep_calm_book in blast)

text \<open>Every run is calm, or calm up to a first accident.\<close>

lemma ep_run_cases:
  assumes "(ep_step e lf tr)\<^sup>*\<^sup>* x y"
  shows "(ep_calm tab e lf tr)\<^sup>*\<^sup>* x y \<or>
    (\<exists>u v. (ep_calm tab e lf tr)\<^sup>*\<^sup>* x u \<and> ep_step e lf tr u v \<and> reused tab u v \<and> (ep_step e lf tr)\<^sup>*\<^sup>* v y)"
  using assms
proof (induction rule: rtranclp_induct)
  case (step y z)
  from step.IH show ?case
  proof (elim disjE exE conjE)
    assume y: "(ep_calm tab e lf tr)\<^sup>*\<^sup>* x y"
    show ?thesis
    proof (cases "reused tab y z")
      case True
      then show ?thesis using y step.hyps(2) by blast
    next
      case False
      then have "ep_calm tab e lf tr y z" using step.hyps(2) by (simp add: ep_calm_def)
      then show ?thesis using y by (simp add: rtranclp.rtrancl_into_rtrancl)
    qed
  next
    fix u v assume u: "(ep_calm tab e lf tr)\<^sup>*\<^sup>* x u" "ep_step e lf tr u v" "reused tab u v" and "(ep_step e lf tr)\<^sup>*\<^sup>* v y"
    then have "(ep_step e lf tr)\<^sup>*\<^sup>* v z" using step.hyps(2) by (simp add: rtranclp.rtrancl_into_rtrancl)
    then show ?thesis using u by blast
  qed
qed simp

section \<open>Start, signals and shutdown\<close>

lemma epoll_init_ok:
  assumes law: "fd_law tab e" "epoll_law reg e"
    and s: "ep_fds s = {||}" "reg (world s) = {}" "{listen_fd, fst (sig_pipe_fd s)} \<subseteq> tab (world s)"
  defines "t \<equiv> epoll_init e listen_fd s"
  shows "ep_ok tab reg (tab (world t)) {} listen_fd t"
proof -
  have "reg (world t) \<subseteq> {listen_fd, fst (sig_pipe_fd t)}"
    using s(2) epoll_law_reg [OF law(2)] unfolding t_def
    by (fastforce simp: epoll_init_def Let_def split_beta dest!: subsetD [OF epoll_law_reg [OF law(2)]])
  moreover have "fset (ep_fds t) \<subseteq> tab (world t)" "fcard (ep_fds t) \<le> 2" "pool t = []"
    "fset (ep_fds t) = {listen_fd, fst (sig_pipe_fd t)}"
    using s(1,3) unfolding t_def
    by (auto simp: epoll_init_def Let_def split_beta fd_law_tab [OF law(1)] fcard_finsert_if fcard_fempty)
  ultimately show ?thesis by (auto simp: ep_ok_def EPOLL_FDS_LEN_def)
qed

definition sigs_seen :: "'w ep_srv \<Rightarrow> int list \<Rightarrow> 'w ep_srv \<Rightarrow> bool" where
  "sigs_seen s sg t \<longleftrightarrow> out t = out s @ map L_signal sg \<and>
     (running t \<longleftrightarrow> running s \<and> SIGTERM \<notin> set sg \<and> SIGINT \<notin> set sg)"

lemma ep_sig_body_Inl:
  assumes "sigs_seen s sg u" and "ep_sig_body e u = Inl v"
  shows "\<exists>sg. sigs_seen s sg v"
proof -
  let ?g = "sint (hd (bytes_of (payload (fst (e (world u) (C_recv (fst (sig_pipe_fd u)) 1)))) @ [0]))"
  have "sigs_seen s (sg @ [?g]) v"
    using assms by (auto simp: ep_sig_body_def sigs_seen_def split_beta Let_def split: if_splits)
  then show ?thesis by blast
qed

lemma ep_sig_worker_seen:
  assumes "ep_sig_worker_func e s = Some t"
  shows "\<exists>sg. sigs_seen s sg t"
proof (rule loop_until_invariant [where P = "\<lambda>u. \<exists>sg. sigs_seen s sg u" and
      Q = "\<lambda>u. \<exists>sg. sigs_seen s sg u", OF assms [unfolded ep_sig_worker_func_def]])
  show "\<exists>sg. sigs_seen s sg s" by (intro exI [of _ "[]"]) (simp add: sigs_seen_def)
next
  fix u v
  assume "\<exists>sg. sigs_seen s sg u" "ep_sig_body e u = Inr v"
  then show "\<exists>sg. sigs_seen s sg v"
    by (auto simp: ep_sig_body_def sigs_seen_def split_beta Let_def split: if_splits)
qed (use ep_sig_body_Inl in blast)

lemma fold_close_tab:
  assumes "fd_law tab e"
  shows "tab (world (fold (\<lambda>f s. extu e (C_close f) s) fs s)) = tab (world s) - set fs"
  by (induction fs arbitrary: s) (auto simp: fd_law_tab [OF assms])

lemma fold_close_sig_pipe [simp]:
  fixes s :: "'w ep_srv"
  shows "sig_pipe_fd (fold (\<lambda>f s. extu e (C_close f) s) fs s) = sig_pipe_fd s"
  by (induction fs arbitrary: s) auto

section \<open>Properties\<close>

text \<open>
  C27. The edge-triggered worker reads its connection to the end: with finite pending input it
  returns, having logged every chunk that arrived, and it stops only at an answer that is not
  positive; it leaves the connection open exactly when that answer was "would block", so the edge
  that the kernel reports next is not missed.
\<close>

theorem ep_et_reads_to_the_end:
  assumes "recv_law e" and "recv_finite pend e"
  shows "\<exists>r. ep_msg_worker_read e cli_fd EP_ET s = Some r \<and> drain_end cli_fd s r"
proof -
  obtain r where r: "loop_until (ep_drain_body e cli_fd) s = Some r"
    using drain.terminates [OF assms(2)] by blast
  show ?thesis
    using r ep_drain_end [OF assms(1) r] by (intro exI [of _ r]) (simp add: ep_msg_worker_read_def)
qed

text \<open>
  The signal worker drains the pipe and stops the server exactly on \<open>SIGTERM\<close> or
  \<open>SIGINT\<close>: it returns, it logs the signals in the order they were written, and
  \<open>running\<close> is cleared if and only if one of these two was among them.
\<close>

theorem ep_sig_worker_stops_on_term:
  assumes "recv_finite pend e"
  shows "\<exists>t sg. ep_sig_worker_func e s = Some t \<and> out t = out s @ map L_signal sg \<and>
    (running t \<longleftrightarrow> running s \<and> SIGTERM \<notin> set sg \<and> SIGINT \<notin> set sg)"
proof -
  obtain t where t: "ep_sig_worker_func e s = Some t"
    using sigs.terminates [OF assms] by (auto simp: ep_sig_worker_func_def)
  then show ?thesis using ep_sig_worker_seen [OF t] by (auto simp: sigs_seen_def)
qed

text \<open>
  A signal survives the trip through the pipe: for signal numbers that fit in an
  \<open>int8_t\<close>, the byte the handler writes reads back as the same signal, and the handler leaves
  \<open>errno\<close> as it was.
\<close>

theorem sig_handler_roundtrip:
  assumes "-128 \<le> sig" and "sig < 128" and "pipe1 \<noteq> -1"
  shows "\<exists>b. calls (sig_handler e pipe1 sig s) = calls s @ [C_send pipe1 [b]] \<and> sint b = sig \<and>
    errno (sig_handler e pipe1 sig s) = errno s"
  using assms
  by (intro exI [of _ "word_of_int sig"])
     (simp add: sig_handler_def Let_def sint_sbintrunc' signed_take_bit_int_eq_self)

text \<open>
  Shutdown closes every descriptor of \<open>ep_fds\<close> and the write end of the signal pipe,
  whatever order the hash set is enumerated in, and exits with status 0.
\<close>

theorem epoll_stop_closes_all:
  assumes "fd_law tab e" and "set (order (ep_fds s)) = fset (ep_fds s)"
    and "epoll_stop e order s = (r, t)"
  shows "r = Exit 0 \<and> tab (world t) = tab (world s) - fset (ep_fds s) - {snd (sig_pipe_fd s)}"
proof -
  have "r = fst (epoll_stop e order s)" "t = snd (epoll_stop e order s)"
    using assms(3) by simp_all
  then show ?thesis
    using assms(2)
    by (simp add: epoll_stop_def Let_def fd_law_tab [OF assms(1)] fold_close_tab [OF assms(1)])
qed

section \<open>The race at CLOSE_FD\<close>

text \<open>
  A concrete run: descriptor 7 connects, sends end of stream and is closed by a pool worker; a
  second client connects before that worker gets the lock and is given the number 7 again.
\<close>

definition race_start :: "script ep_sys" where
  "race_start =
     \<lparr>srv = proc.extend (proc0 \<lparr>s_open = {3, 4, 5, 6}, s_reg = {3, 4}, s_answers =
         [ok_with 1 (P_events [(3, EPOLLIN)]), ok 7, ok 2, ok 0, ok 0,
          ok_with 1 (P_events [(7, EPOLLIN)]),
          ok 0, ok 0,
          ok_with 1 (P_events [(3, EPOLLIN)]), ok 7, ok 2, ok 0, ok 0,
          ok 0]\<rparr>)
        \<lparr>running = True, sig_pipe_fd = (4, 5), epfd = 6, ep_fds = {|3, 4|}, pool = []\<rparr>,
      todo = [], hanging = [], closing = []\<rparr>"

definition race_round :: "script ep_sys \<Rightarrow> script ep_sys" where
  "race_round s = s\<lparr>srv := snd (epoll_round script_env 3 EP_ET (srv s))\<rparr>"

definition race_worker :: "script ep_sys \<Rightarrow> script ep_sys" where
  "race_worker s =
     (case ep_msg_worker_read script_env 7 EP_ET ((srv s)\<lparr>pool := []\<rparr>) of
        Some (b, t) \<Rightarrow> s\<lparr>srv := t, closing := (if b then closing s @ [7] else closing s)\<rparr>
      | None \<Rightarrow> s)"

definition race_close :: "script ep_sys \<Rightarrow> script ep_sys" where
  "race_close s = s\<lparr>srv := ep_close_fd script_env 7 (srv s), closing := []\<rparr>"

text \<open>The part of the state that decides how the run goes on.\<close>

definition core :: "script ep_sys \<Rightarrow> script \<times> bool \<times> (fd \<times> fd) \<times> fd fset \<times> task list \<times> fd list" where
  "core s = (world (srv s), running (srv s), sig_pipe_fd (srv s), ep_fds (srv s), pool (srv s), closing s)"

definition between_rounds :: "'w ep_sys \<Rightarrow> bool" where
  "between_rounds s \<longleftrightarrow> todo s = [] \<and> hanging s = []"

lemma script_accept:
  assumes "world s = \<lparr>s_open = T, s_reg = R, s_answers = ok c # ok x # ok y # as\<rparr>"
    and "0 \<le> c" and "c \<notin> T"
  shows "fst (serv_accept script_env lf s) = c"
    and "world (snd (serv_accept script_env lf s)) = \<lparr>s_open = insert c T, s_reg = R, s_answers = as\<rparr>"
  using assms by (simp_all add: serv_accept_def set_no_blocking_def Let_def split_beta script_step legal_def)

lemma script_ep_accept:
  fixes lf :: fd and tr :: EpollTriggerType
  assumes "world s = \<lparr>s_open = T, s_reg = R, s_answers = ok c # ok x # ok y # ok z # as\<rparr>"
    and "0 \<le> c" and "c \<notin> T" and "fcard (ep_fds s) < EPOLL_FDS_LEN"
  defines "t \<equiv> ep_accept_worker_func script_env lf tr s"
  shows "world t = \<lparr>s_open = insert c T, s_reg = insert c R, s_answers = as\<rparr>"
    and "ep_fds t = finsert c (ep_fds s)" and "pool t = pool s" and "running t = running s"
    and "sig_pipe_fd t = sig_pipe_fd s"
  using assms(2,4) script_accept [OF assms(1-3)]
  unfolding t_def ep_accept_worker_func_def
  by (simp_all add: Let_def split_beta script_step legal_def)

lemma script_epoll_poll:
  assumes "world s = \<lparr>s_open = T, s_reg = R, s_answers = ok_with 1 (P_events [(f, EPOLLIN)]) # as\<rparr>"
    and "f \<in> R"
  shows "\<exists>u. world u = \<lparr>s_open = T, s_reg = R, s_answers = as\<rparr> \<and> ep_fds u = ep_fds s \<and>
    pool u = pool s \<and> running u = running s \<and> sig_pipe_fd u = sig_pipe_fd s \<and>
    epoll_poll script_env s = (Ret [(f, EPOLLIN)], u)"
proof (intro exI conjI)
  let ?c = "C_epoll_wait (epfd s) (int EPOLL_FDS_LEN) 5000"
  let ?u = "extu script_env ?c (log (L_text ''Epoll...'') s)"
  have ans: "script_env (world s) ?c = (ok_with 1 (P_events [(f, EPOLLIN)]), \<lparr>s_open = T, s_reg = R, s_answers = as\<rparr>)"
    using assms by (simp add: script_step legal_def)
  show "world ?u = \<lparr>s_open = T, s_reg = R, s_answers = as\<rparr>" using ans by simp
  show "epoll_poll script_env s = (Ret [(f, EPOLLIN)], ?u)"
    using ans by (simp add: epoll_poll_def Let_def split_beta)
qed simp_all

text \<open>A round with one event is two steps: waiting, and handling the event.\<close>

lemma race_round_steps:
  assumes "epoll_poll script_env (srv s) = (Ret [ev], u)" and "running (srv s)" and "between_rounds s"
  shows "(ep_step script_env 3 EP_ET)\<^sup>*\<^sup>* s (race_round s)" and "between_rounds (race_round s)"
    and "srv (race_round s) = epoll_event script_env 3 EP_ET ev u" and "closing (race_round s) = closing s"
proof -
  let ?v = "s\<lparr>srv := u, todo := [ev]\<rparr>" and ?t = "s\<lparr>srv := epoll_event script_env 3 EP_ET ev u, todo := []\<rparr>"
  have "ep_step script_env 3 EP_ET s ?v" using main_wait [OF assms(2) _ assms(1)] assms(3) by (simp add: between_rounds_def)
  moreover have "ep_step script_env 3 EP_ET ?v ?t" using main_event [of ?v ev "[]" script_env 3 EP_ET] by simp
  moreover have t: "?t = race_round s"
    using assms(1,3) by (simp add: race_round_def epoll_round_poll between_rounds_def)
  ultimately show "(ep_step script_env 3 EP_ET)\<^sup>*\<^sup>* s (race_round s)" using rtranclp.rtrancl_into_rtrancl by fastforce
  show "between_rounds (race_round s)" "srv (race_round s) = epoll_event script_env 3 EP_ET ev u"
    "closing (race_round s) = closing s"
    using assms(3) by (simp_all add: t [symmetric] between_rounds_def)
qed

lemma race_accept:
  assumes "core s = (\<lparr>s_open = T, s_reg = R, s_answers =
      ok_with 1 (P_events [(3, EPOLLIN)]) # ok 7 # ok 2 # ok 0 # ok 0 # as\<rparr>, True, (4, 5), F, ts, cl)"
    and "between_rounds s" and "3 \<in> R" and "7 \<notin> T" and "fcard F < EPOLL_FDS_LEN"
  shows "core (race_round s) = (\<lparr>s_open = insert 7 T, s_reg = insert 7 R, s_answers = as\<rparr>,
    True, (4, 5), finsert 7 F, ts, cl)"
    and "(ep_step script_env 3 EP_ET)\<^sup>*\<^sup>* s (race_round s)" and "between_rounds (race_round s)"
proof -
  have s: "world (srv s) = \<lparr>s_open = T, s_reg = R, s_answers =
      ok_with 1 (P_events [(3, EPOLLIN)]) # ok 7 # ok 2 # ok 0 # ok 0 # as\<rparr>" "running (srv s)"
    "sig_pipe_fd (srv s) = (4, 5)" "ep_fds (srv s) = F" "pool (srv s) = ts" "closing s = cl"
    using assms(1) by (simp_all add: core_def)
  obtain u where u: "world u = \<lparr>s_open = T, s_reg = R, s_answers = ok 7 # ok 2 # ok 0 # ok 0 # as\<rparr>"
    "ep_fds u = F" "pool u = ts" "running u" "sig_pipe_fd u = (4, 5)"
    and poll: "epoll_poll script_env (srv s) = (Ret [(3, EPOLLIN)], u)"
    using script_epoll_poll [OF s(1) assms(3)] s by auto
  note steps = race_round_steps [OF poll s(2) assms(2)]
  have ev: "epoll_event script_env 3 EP_ET (3, EPOLLIN) u = ep_accept_worker_func script_env 3 EP_ET u"
    by (simp add: epoll_event_def EPOLLIN_def)
  show "core (race_round s) = (\<lparr>s_open = insert 7 T, s_reg = insert 7 R, s_answers = as\<rparr>,
    True, (4, 5), finsert 7 F, ts, cl)"
    using script_ep_accept [OF u(1), of 3 EP_ET] u s assms(4,5) steps(3,4) ev by (simp add: core_def)
  show "(ep_step script_env 3 EP_ET)\<^sup>*\<^sup>* s (race_round s)" "between_rounds (race_round s)" by (rule steps)+
qed

lemma race_message:
  assumes "core s = (\<lparr>s_open = T, s_reg = R, s_answers = ok_with 1 (P_events [(7, EPOLLIN)]) # as\<rparr>,
      True, (4, 5), F, ts, cl)"
    and "between_rounds s" and "7 \<in> R"
  shows "core (race_round s) = (\<lparr>s_open = T, s_reg = R, s_answers = as\<rparr>,
    True, (4, 5), F, ts @ [Msg_task 7 EP_ET], cl)"
    and "(ep_step script_env 3 EP_ET)\<^sup>*\<^sup>* s (race_round s)" and "between_rounds (race_round s)"
proof -
  have s: "world (srv s) = \<lparr>s_open = T, s_reg = R, s_answers = ok_with 1 (P_events [(7, EPOLLIN)]) # as\<rparr>"
    "running (srv s)" "sig_pipe_fd (srv s) = (4, 5)" "ep_fds (srv s) = F" "pool (srv s) = ts" "closing s = cl"
    using assms(1) by (simp_all add: core_def)
  obtain u where u: "world u = \<lparr>s_open = T, s_reg = R, s_answers = as\<rparr>"
    "ep_fds u = F" "pool u = ts" "running u" "sig_pipe_fd u = (4, 5)"
    and poll: "epoll_poll script_env (srv s) = (Ret [(7, EPOLLIN)], u)"
    using script_epoll_poll [OF s(1) assms(3)] s by auto
  note steps = race_round_steps [OF poll s(2) assms(2)]
  show "core (race_round s) = (\<lparr>s_open = T, s_reg = R, s_answers = as\<rparr>,
    True, (4, 5), F, ts @ [Msg_task 7 EP_ET], cl)"
    using u s steps(3,4) by (simp add: core_def epoll_event_def EPOLLIN_def)
  show "(ep_step script_env 3 EP_ET)\<^sup>*\<^sup>* s (race_round s)" "between_rounds (race_round s)" by (rule steps)+
qed

lemma race_worker_step:
  assumes "core s = (\<lparr>s_open = T, s_reg = R, s_answers = ok 0 # ok 0 # as\<rparr>,
      True, (4, 5), F, [Msg_task 7 EP_ET], cl)" and "between_rounds s"
  shows "core (race_worker s) = (\<lparr>s_open = T - {7}, s_reg = R - {7}, s_answers = as\<rparr>,
    True, (4, 5), F, [], cl @ [7])"
    and "(ep_step script_env 3 EP_ET)\<^sup>*\<^sup>* s (race_worker s)" and "between_rounds (race_worker s)"
proof -
  let ?u = "(srv s)\<lparr>pool := []\<rparr>"
  have s: "world (srv s) = \<lparr>s_open = T, s_reg = R, s_answers = ok 0 # ok 0 # as\<rparr>"
    "running (srv s)" "sig_pipe_fd (srv s) = (4, 5)" "ep_fds (srv s) = F"
    "pool (srv s) = [] @ Msg_task 7 EP_ET # []" "closing s = cl"
    using assms(1) by (simp_all add: core_def)
  have "script_env (world ?u) (C_recv 7 (BUF_SIZE - 1)) =
      (ok 0, \<lparr>s_open = T, s_reg = R, s_answers = ok 0 # as\<rparr>)"
    using s(1) by (simp add: script_step legal_def)
  then have r: "fst (serv_read script_env 7 ?u) = 0"
    "world (snd (serv_read script_env 7 ?u)) = \<lparr>s_open = T, s_reg = R, s_answers = ok 0 # as\<rparr>"
    by (simp_all add: serv_read_def Let_def split_beta)
  define v where "v = snd (serv_read script_env 7 ?u)"
  have test: "ep_msg_worker_test script_env 7 EP_ET ?u = Some (True, v)"
    using r by (simp add: ep_msg_worker_test_def ep_drain_read_def Let_def split_beta v_def)
  let ?h = "s\<lparr>srv := v, hanging := [7]\<rparr>"
  let ?t = "s\<lparr>srv := extu script_env (C_close 7) v, hanging := [], closing := closing s @ [7]\<rparr>"
  have "ep_step script_env 3 EP_ET s ?h"
    using run_msg [OF s(5), of script_env True v 3 EP_ET] test assms(2) by (simp add: between_rounds_def)
  moreover have "ep_step script_env 3 EP_ET ?h ?t" using hang_up [of ?h "[]" 7 "[]" script_env 3 EP_ET] by simp
  moreover have t: "?t = race_worker s"
    using test assms(2) by (simp add: race_worker_def ep_msg_worker_read_test between_rounds_def)
  ultimately show "(ep_step script_env 3 EP_ET)\<^sup>*\<^sup>* s (race_worker s)" using rtranclp.rtrancl_into_rtrancl by fastforce
  show "between_rounds (race_worker s)" using assms(2) by (simp add: t [symmetric] between_rounds_def)
  show "core (race_worker s) = (\<lparr>s_open = T - {7}, s_reg = R - {7}, s_answers = as\<rparr>,
    True, (4, 5), F, [], cl @ [7])"
    using r(2) s by (simp add: t [symmetric] core_def script_step legal_def v_def)
qed

lemma race_close_step:
  assumes "core s = (\<lparr>s_open = T, s_reg = R, s_answers = ok 0 # as\<rparr>, True, (4, 5), F, ts, [7])"
  shows "core (race_close s) = (\<lparr>s_open = T, s_reg = R, s_answers = as\<rparr>,
      True, (4, 5), F |-| {|7|}, ts, [])"
    and "(ep_step script_env 3 EP_ET)\<^sup>*\<^sup>* s (race_close s)"
proof -
  have s: "world (srv s) = \<lparr>s_open = T, s_reg = R, s_answers = ok 0 # as\<rparr>" "closing s = [] @ 7 # []"
    "running (srv s)" "sig_pipe_fd (srv s) = (4, 5)" "ep_fds (srv s) = F" "pool (srv s) = ts"
    using assms by (simp_all add: core_def)
  show "core (race_close s) = (\<lparr>s_open = T, s_reg = R, s_answers = as\<rparr>,
      True, (4, 5), F |-| {|7|}, ts, [])"
    using s by (simp add: core_def race_close_def ep_close_fd_def Let_def script_step legal_def)
  have "ep_step script_env 3 EP_ET s (race_close s)"
    unfolding race_close_def using run_close [OF s(2), of script_env 3 EP_ET] by simp
  then show "(ep_step script_env 3 EP_ET)\<^sup>*\<^sup>* s (race_close s)" by (rule r_into_rtranclp)
qed

text \<open>
  C28. Interleaved, the epoll server loses connections: \<open>ep_msg_worker_func\<close> closes the
  descriptor before it takes the lock, so a client accepted in between can be given the same
  number, and the worker then erases that client's number from \<open>ep_fds\<close>. The
  run below starts with an idle server, keeps to the laws of the descriptor table, and ends with
  no task pending and descriptor 7 open but not in \<open>ep_fds\<close>.
\<close>

theorem ep_close_race:
  "\<exists>t. fd_law s_open script_env \<and> epoll_law s_reg script_env \<and>
     (ep_step script_env 3 EP_ET)\<^sup>*\<^sup>* race_start t \<and>
     pool (srv t) = [] \<and> todo t = [] \<and> hanging t = [] \<and> closing t = [] \<and> 7 \<in> s_open (world (srv t)) \<and> 7 |\<notin>| ep_fds (srv t)"
proof -
  let ?as3 = "[ok 0]"
  let ?as2 = "ok_with 1 (P_events [(3, EPOLLIN)]) # ok 7 # ok 2 # ok 0 # ok 0 # ?as3"
  let ?as1 = "ok_with 1 (P_events [(7, EPOLLIN)]) # ok 0 # ok 0 # ?as2"
  have c0: "core race_start = (\<lparr>s_open = {3, 4, 5, 6}, s_reg = {3, 4}, s_answers =
      ok_with 1 (P_events [(3, EPOLLIN)]) # ok 7 # ok 2 # ok 0 # ok 0 # ?as1\<rparr>,
      True, (4, 5), {|3, 4|}, [], [])"
    by (simp add: core_def race_start_def proc.defs proc0_def)
  let ?s1 = "race_round race_start" let ?s2 = "race_round ?s1" let ?s3 = "race_worker ?s2"
  let ?s4 = "race_round ?s3" let ?s5 = "race_close ?s4"
  note small = EPOLL_FDS_LEN_def fcard_finsert_if fcard_fempty
  have b0: "between_rounds race_start" by (simp add: between_rounds_def race_start_def)
  have c1: "core ?s1 = (\<lparr>s_open = {7, 3, 4, 5, 6}, s_reg = {7, 3, 4}, s_answers = ?as1\<rparr>,
      True, (4, 5), {|7, 3, 4|}, [], [])"
    and r1: "(ep_step script_env 3 EP_ET)\<^sup>*\<^sup>* race_start ?s1" and b1: "between_rounds ?s1"
    using race_accept [OF c0 b0] by (simp_all add: small)
  have c2: "core ?s2 = (\<lparr>s_open = {7, 3, 4, 5, 6}, s_reg = {7, 3, 4}, s_answers = ok 0 # ok 0 # ?as2\<rparr>,
      True, (4, 5), {|7, 3, 4|}, [Msg_task 7 EP_ET], [])"
    and r2: "(ep_step script_env 3 EP_ET)\<^sup>*\<^sup>* ?s1 ?s2" and b2: "between_rounds ?s2"
    using race_message [OF c1 b1] by simp_all
  have c3: "core ?s3 = (\<lparr>s_open = {3, 4, 5, 6}, s_reg = {3, 4}, s_answers = ?as2\<rparr>,
      True, (4, 5), {|7, 3, 4|}, [], [7])"
    and r3: "(ep_step script_env 3 EP_ET)\<^sup>*\<^sup>* ?s2 ?s3" and b3: "between_rounds ?s3"
    using race_worker_step [OF c2 b2] by (simp_all add: insert_Diff_if)
  have c4: "core ?s4 = (\<lparr>s_open = {7, 3, 4, 5, 6}, s_reg = {7, 3, 4}, s_answers = ?as3\<rparr>,
      True, (4, 5), {|7, 3, 4|}, [], [7])"
    and r4: "(ep_step script_env 3 EP_ET)\<^sup>*\<^sup>* ?s3 ?s4" and b4: "between_rounds ?s4"
    using race_accept [OF c3 b3] by (simp_all add: small)
  have c5: "core ?s5 = (\<lparr>s_open = {7, 3, 4, 5, 6}, s_reg = {7, 3, 4}, s_answers = []\<rparr>,
      True, (4, 5), {|7, 3, 4|} |-| {|7|}, [], [])"
    and r5: "(ep_step script_env 3 EP_ET)\<^sup>*\<^sup>* ?s4 ?s5"
    using race_close_step [OF c4] by simp_all
  have "(ep_step script_env 3 EP_ET)\<^sup>*\<^sup>* race_start ?s5"
    using r1 r2 r3 r4 r5 by (meson rtranclp_trans)
  moreover have "todo ?s5 = []" "hanging ?s5 = []" using b4 by (simp_all add: between_rounds_def race_close_def)
  ultimately show ?thesis
    using c5 script_fd_law script_epoll_law by (intro exI [of _ ?s5]) (simp add: core_def)
qed

section \<open>Witnesses\<close>

theorem ep_et_reads_to_the_end_witness:
  "\<exists>r. ep_msg_worker_read script_env 7 EP_ET (srv race_start) = Some r \<and> drain_end 7 (srv race_start) r"
  by (rule ep_et_reads_to_the_end [OF script_recv_law script_recv_finite])

definition idle_server :: "script ep_srv" where
  "idle_server = proc.extend (proc0 (script {3, 4, 5} [ok 6, ok 0, ok 0]))
     \<lparr>running = True, sig_pipe_fd = (4, 5), epfd = -1, ep_fds = {||}, pool = []\<rparr>"

lemma idle_server_fields:
  "world idle_server = script {3, 4, 5} [ok 6, ok 0, ok 0]" "ep_fds idle_server = {||}"
  "sig_pipe_fd idle_server = (4, 5)" "running idle_server" "out idle_server = []"
  by (simp_all add: idle_server_def proc.defs proc0_def)

theorem ep_sig_worker_stops_on_term_witness:
  "\<exists>t sg. ep_sig_worker_func script_env idle_server = Some t \<and> out t = map L_signal sg \<and>
    (running t \<longleftrightarrow> SIGTERM \<notin> set sg \<and> SIGINT \<notin> set sg)"
  using ep_sig_worker_stops_on_term [OF script_recv_finite, of idle_server]
  by (simp add: idle_server_fields)

theorem sig_handler_roundtrip_witness:
  "\<exists>b. calls (sig_handler script_env 5 SIGTERM idle_server) = calls idle_server @ [C_send 5 [b]] \<and>
    sint b = SIGTERM \<and> errno (sig_handler script_env 5 SIGTERM idle_server) = errno idle_server"
  by (rule sig_handler_roundtrip) (simp_all add: SIGTERM_def)

theorem epoll_stop_closes_all_witness:
  "s_open (world (snd (epoll_stop script_env (\<lambda>_. [4, 3]) (srv race_start)))) = {6}"
proof -
  have "set [4, 3] = fset (ep_fds (srv race_start))"
    by (auto simp: race_start_def proc.defs)
  then show ?thesis
    using epoll_stop_closes_all [OF script_fd_law _ surjective_pairing, of "\<lambda>_. [4, 3]" "srv race_start"]
    by (auto simp: race_start_def proc.defs proc0_def)
qed

end
