(* ===== verification/ProcPool.thy ===== *)
theory ProcPool
  imports Posix
begin

unbundle bit_operations_syntax

text \<open>
  The process pool server of server/include/epoll_half_sync_reactive_proc_pool_server.hpp: the
  helpers on epoll and signals, the class \<open>SrvProcessPool\<close> with its parent and child loops,
  and the connection class \<open>TestConn\<close> (whose client address, stored and never read, is left out). The model
  follows one process: the answer of
  \<open>fork\<close> decides whether it goes on as the parent or as a child.
\<close>

section \<open>Helpers\<close>

definition setnonblocking :: "'w env \<Rightarrow> fd \<Rightarrow> ('w, 'x) proc_scheme \<Rightarrow> int \<times> ('w, 'x) proc_scheme" where
  "setnonblocking e f s =
     (let (a, s) = ext e (C_getfl f) s;
          old_option = ret a;
          new_option = old_option OR O_NONBLOCK;
          s = extu e (C_setfl f new_option) s
      in (old_option, s))"

definition addfd :: "'w env \<Rightarrow> fd \<Rightarrow> fd \<Rightarrow> bool \<Rightarrow> ('w, 'x) proc_scheme \<Rightarrow> ('w, 'x) proc_scheme" where
  "addfd e ep f edge_trigger s =
     (let mask = (if edge_trigger then EPOLLIN OR EPOLLET else EPOLLIN);
          s = extu e (C_epoll_add ep f mask) s
      in snd (setnonblocking e f s))"

definition removefd :: "'w env \<Rightarrow> fd \<Rightarrow> fd \<Rightarrow> ('w, 'x) proc_scheme \<Rightarrow> ('w, 'x) proc_scheme" where
  "removefd e ep f s = extu e (C_close f) (extu e (C_epoll_del ep f) s)"

text \<open>The handler sends the first byte of an \<open>int\<close>: on this platform its low byte.\<close>

definition pool_sig_handler :: "'w env \<Rightarrow> fd \<Rightarrow> int \<Rightarrow> ('w, 'x) proc_scheme \<Rightarrow> ('w, 'x) proc_scheme" where
  "pool_sig_handler e pipe1 sig s =
     (let save_errno = errno s;
          s = extu e (C_send pipe1 [word_of_int sig]) s
      in s\<lparr>errno := save_errno\<rparr>)"

definition addsig :: "'w env \<Rightarrow> int \<Rightarrow> sig_action \<Rightarrow> bool \<Rightarrow> ('w, 'x) proc_scheme \<Rightarrow>
  unit outcome \<times> ('w, 'x) proc_scheme" where
  "addsig e sig handler restart s =
     (let (a, s) = ext e (C_sigaction sig handler restart) s in assert_that (ret a \<noteq> -1) s)"

section \<open>State\<close>

record Process =
  m_pid :: int
  m_pipefd :: "fd \<times> fd"

definition new_Process :: Process where
  "new_Process = \<lparr>m_pid = -1, m_pipefd = (0, 0)\<rparr>"

record TestConn =
  tc_epollfd :: fd
  tc_cli_fd :: fd

definition new_TestConn :: TestConn where
  "new_TestConn = \<lparr>tc_epollfd = -1, tc_cli_fd = -1\<rparr>"

lemma TestConn_set [simp]:
  "c\<lparr>tc_epollfd := a, tc_cli_fd := b\<rparr> = \<lparr>tc_epollfd = a, tc_cli_fd = b\<rparr>"
  by (cases c) simp

definition MAX_PROCESS_NUMBER :: int where "MAX_PROCESS_NUMBER = 16"
definition USER_PER_PROCESS :: int where "USER_PER_PROCESS = 65536"
definition MAX_EVENT_NUMBER :: int where "MAX_EVENT_NUMBER = 10000"

text \<open>
  The members of \<open>SrvProcessPool\<close>, the signal pipe, the local counter of the parent loop and
  the array of connections of the child loop (indexed by descriptor).
\<close>

record 'w pool_st = "'w proc" +
  process_number :: int
  idx :: int
  epollfd :: fd
  listenfd :: fd
  stop :: bool
  sub_process :: "Process list"
  sig_pipefd :: "fd \<times> fd"
  sub_process_counter :: nat
  users :: "fd \<Rightarrow> TestConn"

text \<open>
  The constructor sets the members it names; \<open>_epollfd\<close>, \<open>_sub_process\<close> and the static
  signal pipe keep what they held.
\<close>

definition new_pool :: "fd \<Rightarrow> int \<Rightarrow> 'w pool_st \<Rightarrow> 'w pool_st" where
  "new_pool lfd n s = s\<lparr>listenfd := lfd, process_number := n, idx := -1, stop := False\<rparr>"

definition setup_sig_pipe :: "'w env \<Rightarrow> 'w pool_st \<Rightarrow> unit outcome \<times> 'w pool_st" where
  "setup_sig_pipe e s =
     (let (a, s) = ext e (C_epoll_create 5) s;
          s = s\<lparr>epollfd := ret a\<rparr>
      in then_do (assert_that (epollfd s \<noteq> -1) s) (\<lambda>_ s.
         let (a, s) = ext e C_socketpair s;
             s = (if ret a = 0 then s\<lparr>sig_pipefd := pair_of (payload a)\<rparr> else s)
         in then_do (assert_that (ret a \<noteq> -1) s) (\<lambda>_ s.
            let s = snd (setnonblocking e (snd (sig_pipefd s)) s);
                s = addfd e (epollfd s) (fst (sig_pipefd s)) False s
            in then_do (addsig e SIGCHLD (Handler ''sig_handler'') True s) (\<lambda>_ s.
               then_do (addsig e SIGTERM (Handler ''sig_handler'') True s) (\<lambda>_ s.
               then_do (addsig e SIGINT (Handler ''sig_handler'') True s) (\<lambda>_ s.
               addsig e SIGPIPE Ignore True s))))))"

section \<open>Creating the children\<close>

text \<open>
  The loop of \<open>run\<close> over the remaining indices: the parent goes on, a child records its
  index and leaves the loop.
\<close>

fun spawn :: "'w env \<Rightarrow> nat list \<Rightarrow> 'w pool_st \<Rightarrow> unit outcome \<times> 'w pool_st" where
  "spawn e [] s = (Ret (), s)"
| "spawn e (i # is) s =
     (let (a, s) = ext e C_socketpair s;
          s = (if ret a = 0
               then s\<lparr>sub_process := (sub_process s)[i := (sub_process s ! i)\<lparr>m_pipefd := pair_of (payload a)\<rparr>]\<rparr>
               else s)
      in if ret a \<noteq> 0 then (Assert_failed, s)
         else
           let (p, s) = ext e C_fork s;
               s = s\<lparr>sub_process := (sub_process s)[i := (sub_process s ! i)\<lparr>m_pid := ret p\<rparr>]\<rparr>;
               pipe = m_pipefd (sub_process s ! i)
           in if \<not> 0 \<le> ret p then (Assert_failed, s)
              else if 0 < ret p then
                spawn e is (snd (setnonblocking e (fst pipe) (extu e (C_close (snd pipe)) s)))
              else
                (Ret (), (snd (setnonblocking e (snd pipe) (extu e (C_close (fst pipe)) s)))
                           \<lparr>idx := int i\<rparr>))"

definition run_setup :: "'w env \<Rightarrow> 'w pool_st \<Rightarrow> unit outcome \<times> 'w pool_st" where
  "run_setup e s =
     then_do (assert_that (0 < process_number s \<and> process_number s \<le> MAX_PROCESS_NUMBER) s) (\<lambda>_ s.
       spawn e [0..<nat (process_number s)]
         (s\<lparr>sub_process := replicate (nat (process_number s)) new_Process\<rparr>))"

section \<open>The parent\<close>

definition next_index :: "nat \<Rightarrow> nat \<Rightarrow> nat" where
  "next_index n j = (j + 1) mod n"

text \<open>\<open>do { if (alive(j)) break; j = (j + 1) % n; } while (j != counter);\<close>\<close>

definition pick_body :: "Process list \<Rightarrow> nat \<Rightarrow> nat \<Rightarrow> nat \<Rightarrow> nat + nat" where
  "pick_body ps n c j =
     (if m_pid (ps ! j) \<noteq> -1 then Inr j
      else let j = next_index n j in if j \<noteq> c then Inl j else Inr j)"

definition pick_child :: "Process list \<Rightarrow> nat \<Rightarrow> nat \<Rightarrow> nat option" where
  "pick_child ps n c = loop_until (pick_body ps n c) c"

text \<open>The four bytes of \<open>int new_conn = 1\<close>.\<close>

definition new_conn_bytes :: bytes where
  "new_conn_bytes = [1, 0, 0, 0]"

definition parent_listen :: "'w env \<Rightarrow> 'w pool_st \<Rightarrow> (bool outcome \<times> 'w pool_st) option" where
  "parent_listen e s =
     (let n = nat (process_number s)
      in case pick_child (sub_process s) n (sub_process_counter s) of
           None \<Rightarrow> None
         | Some j \<Rightarrow>
             if m_pid (sub_process s ! j) = -1 then Some (Ret False, s\<lparr>stop := True\<rparr>)
             else
               let s = s\<lparr>sub_process_counter := next_index n j\<rparr>;
                   s = extu e (C_send (fst (m_pipefd (sub_process s ! j))) new_conn_bytes) s
               in Some (Ret True, s))"

text \<open>The inner loop of the \<open>SIGCHLD\<close> case, for one reaped child.\<close>

definition mark_exit :: "'w env \<Rightarrow> int \<Rightarrow> nat \<Rightarrow> 'w pool_st \<Rightarrow> 'w pool_st" where
  "mark_exit e pid k s =
     (if m_pid (sub_process s ! k) = pid then
        let s = log (L_exited pid) s;
            s = extu e (C_close (fst (m_pipefd (sub_process s ! k)))) s
        in s\<lparr>sub_process := (sub_process s)[k := (sub_process s ! k)\<lparr>m_pid := -1\<rparr>]\<rparr>
      else s)"

definition reap_body :: "'w env \<Rightarrow> 'w pool_st \<Rightarrow> 'w pool_st + 'w pool_st" where
  "reap_body e s =
     (let (a, s) = ext e C_waitpid s
      in if 0 < ret a then Inl (fold (mark_exit e (ret a)) [0..<nat (process_number s)] s)
         else Inr s)"

definition parent_sigchld :: "'w env \<Rightarrow> 'w pool_st \<Rightarrow> 'w pool_st option" where
  "parent_sigchld e s =
     map_option
       (\<lambda>s. fold (\<lambda>k s. if m_pid (sub_process s ! k) \<noteq> -1 then s\<lparr>stop := False\<rparr> else s)
              [0..<nat (process_number s)] (s\<lparr>stop := True\<rparr>))
       (loop_until (reap_body e) s)"

definition kill_child :: "'w env \<Rightarrow> nat \<Rightarrow> 'w pool_st \<Rightarrow> 'w pool_st" where
  "kill_child e k s =
     (let pid = m_pid (sub_process s ! k) in if pid \<noteq> -1 then extu e (C_kill pid SIGTERM) s else s)"

definition parent_kill :: "'w env \<Rightarrow> 'w pool_st \<Rightarrow> 'w pool_st" where
  "parent_kill e s =
     fold (kill_child e) [0..<nat (process_number s)]
       (log (L_text ''Received termination or interrupt signal kill all the clild now.'') s)"

definition parent_signal :: "'w env \<Rightarrow> byte \<Rightarrow> 'w pool_st \<Rightarrow> (bool outcome \<times> 'w pool_st) option" where
  "parent_signal e b s =
     (let sig = sint b
      in if sig = SIGCHLD then map_option (Pair (Ret True)) (parent_sigchld e s)
         else if sig = SIGTERM \<or> sig = SIGINT then Some (Ret True, parent_kill e s)
         else Some (Ret True, s))"

text \<open>What an inner loop leaves behind, for the loop around it: it goes on.\<close>

fun resume :: "(unit outcome \<times> 's) option \<Rightarrow> (bool outcome \<times> 's) option" where
  "resume None = None"
| "resume (Some (Ret _, s)) = Some (Ret True, s)"
| "resume (Some (Exit n, s)) = Some (Exit n, s)"
| "resume (Some (Assert_failed, s)) = Some (Assert_failed, s)"
| "resume (Some (Undefined, s)) = Some (Undefined, s)"

definition parent_event :: "'w env \<Rightarrow> fd \<times> evmask \<Rightarrow> 'w pool_st \<Rightarrow> (bool outcome \<times> 'w pool_st) option" where
  "parent_event e ev s =
     (if fst ev = listenfd s then parent_listen e s
      else if fst ev = fst (sig_pipefd s) \<and> snd ev AND EPOLLIN \<noteq> 0 then
        let (a, s) = ext e (C_recv (fst (sig_pipefd s)) 1024) s
        in if ret a \<le> 0 then Some (Ret True, s)
           else resume (for_each (parent_signal e) (take (nat (ret a)) (bytes_of (payload a))) s)
      else Some (Ret True, s))"

text \<open>
  One round of \<open>while (!_stop)\<close>. The flag is False when the loop is left because
  \<open>epoll_wait\<close> failed.
\<close>

definition parent_round :: "'w env \<Rightarrow> 'w pool_st \<Rightarrow> (bool outcome \<times> 'w pool_st) option" where
  "parent_round e s =
     (let s = log (L_text ''before'') s;
          (a, s) = ext e (C_epoll_wait (epollfd s) MAX_EVENT_NUMBER (-1)) s
      in if ret a < 0 \<and> errno s \<noteq> EINTR
         then Some (Ret False, log (L_wait_failed (errno s)) s)
         else resume (for_each (parent_event e) (take (nat (ret a)) (events_of (payload a))) s))"

text \<open>\<open>run_parent\<close> with \<open>k\<close> rounds of its loop; when it leaves the loop it closes the epoll instance.\<close>

definition run_parent :: "'w env \<Rightarrow> nat \<Rightarrow> 'w pool_st \<Rightarrow> (bool outcome \<times> 'w pool_st) option" where
  "run_parent e k s =
     (case setup_sig_pipe e s of
        (Ret u, s) \<Rightarrow>
          let s = addfd e (epollfd s) (listenfd s) False s
          in (case while_rounds (\<lambda>s. \<not> stop s) (parent_round e) k (s\<lparr>sub_process_counter := 0\<rparr>) of
                Some (Ret False, s) \<Rightarrow> Some (Ret False, extu e (C_close (epollfd s)) s)
              | r \<Rightarrow> r)
      | (Exit n, s) \<Rightarrow> Some (Exit n, s)
      | (Assert_failed, s) \<Rightarrow> Some (Assert_failed, s)
      | (Undefined, s) \<Rightarrow> Some (Undefined, s))"

section \<open>Connections of a child\<close>

definition conn_init :: "'w env \<Rightarrow> fd \<Rightarrow> fd \<Rightarrow> fd \<Rightarrow> 'w pool_st \<Rightarrow> 'w pool_st" where
  "conn_init e slot ep cli_fd s =
     (let s = s\<lparr>users := (users s)(slot := (users s slot)\<lparr>tc_epollfd := ep, tc_cli_fd := cli_fd\<rparr>)\<rparr>
      in snd (setnonblocking e cli_fd s))"

text \<open>One turn of the read loop of \<open>process\<close>; leaving it, the flag says whether it jumps to
  \<open>CLOSE_FD\<close>.\<close>

definition conn_read_body :: "'w env \<Rightarrow> fd \<Rightarrow> ('w, 'x) proc_scheme \<Rightarrow>
  ('w, 'x) proc_scheme + bool \<times> ('w, 'x) proc_scheme" where
  "conn_read_body e cli_fd s =
     (let buf = replicate BUF_SIZE 0;
          (a, s) = ext e (C_recv cli_fd (BUF_SIZE - 1)) s;
          len = ret a;
          buf = fill_buf buf (bytes_of (payload a))
      in if 0 < len then Inl (log (L_recv cli_fd len (cstr buf)) s)
         else if len = 0 then Inr (True, s)
         else if would_block (errno s) then Inr (False, s)
         else Inr (True, s))"

text \<open>The reply \<open>"OK"\<close>.\<close>

definition ok_bytes :: bytes where
  "ok_bytes = [79, 75]"

definition conn_process :: "'w env \<Rightarrow> TestConn \<Rightarrow> ('w, 'x) proc_scheme \<Rightarrow> ('w, 'x) proc_scheme option" where
  "conn_process e c s =
     map_option
       (\<lambda>(close_it, s).
          if close_it then
            log (L_closed_fd (tc_cli_fd c)) (removefd e (tc_epollfd c) (tc_cli_fd c) s)
          else extu e (C_send (tc_cli_fd c) ok_bytes) (extu e (C_sleep_ms 100) s))
       (loop_until (conn_read_body e (tc_cli_fd c)) s)"

section \<open>The child\<close>

text \<open>An index into \<open>users\<close>, an array of \<open>USER_PER_PROCESS\<close> connections.\<close>

definition user_index :: "fd \<Rightarrow> bool" where
  "user_index f \<longleftrightarrow> 0 \<le> f \<and> f < USER_PER_PROCESS"

definition child_connect :: "'w env \<Rightarrow> fd \<Rightarrow> 'w pool_st \<Rightarrow> (bool outcome \<times> 'w pool_st) option" where
  "child_connect e sockfd s =
     (let (a, s) = ext e (C_recv sockfd 4) s
      in if ret a \<le> 0 then Some (Ret True, s)
         else
           let s = log (L_text ''Received connection distribution from main process.'') s;
               (b, s) = ext e (C_accept (listenfd s)) s;
               connfd = ret b
           in if connfd < 0 then Some (Ret False, log (L_accept_failed (errno s)) s)
              else
                let s = log (L_connected connfd) s;
                    s = addfd e (epollfd s) connfd False s
                in if user_index connfd then Some (Ret True, conn_init e connfd (epollfd s) connfd s)
                   else Some (Undefined, s))"

definition child_reap_body :: "'w env \<Rightarrow> 'w pool_st \<Rightarrow> 'w pool_st + 'w pool_st" where
  "child_reap_body e s = (let (a, s) = ext e C_waitpid s in if 0 < ret a then Inl s else Inr s)"

definition child_signal :: "'w env \<Rightarrow> byte \<Rightarrow> 'w pool_st \<Rightarrow> (bool outcome \<times> 'w pool_st) option" where
  "child_signal e b s =
     (let sig = sint b
      in if sig = SIGCHLD then map_option (Pair (Ret True)) (loop_until (child_reap_body e) s)
         else if sig = SIGTERM \<or> sig = SIGINT then Some (Ret True, s\<lparr>stop := True\<rparr>)
         else Some (Ret True, s))"

text \<open>
  One turn of the child's signal loop; an inner loop that never returns ends the turn with
  \<open>None\<close> as result.
\<close>

definition child_sig_body :: "'w env \<Rightarrow> 'w pool_st \<Rightarrow> 'w pool_st + 'w pool_st option" where
  "child_sig_body e s =
     (let (a, s) = ext e (C_recv (fst (sig_pipefd s)) 1024) s
      in if ret a \<le> 0 then Inr (Some s)
         else (case for_each (child_signal e) (take (nat (ret a)) (bytes_of (payload a))) s of
                 None \<Rightarrow> Inr None
               | Some (r, s) \<Rightarrow> Inl s))"

definition child_event :: "'w env \<Rightarrow> fd \<Rightarrow> fd \<times> evmask \<Rightarrow> 'w pool_st \<Rightarrow> (bool outcome \<times> 'w pool_st) option" where
  "child_event e pipefd ev s =
     (if fst ev = pipefd \<and> snd ev AND EPOLLIN \<noteq> 0 then child_connect e (fst ev) s
      else if fst ev = fst (sig_pipefd s) \<and> snd ev AND EPOLLIN \<noteq> 0 then
        (case loop_until (child_sig_body e) s of
           Some (Some s) \<Rightarrow> Some (Ret True, s)
         | _ \<Rightarrow> None)
      else if snd ev AND EPOLLIN \<noteq> 0 then
        if user_index (fst ev)
        then map_option (Pair (Ret True)) (conn_process e (users s (fst ev)) s)
        else Some (Undefined, s)
      else Some (Ret True, s))"

definition child_round :: "'w env \<Rightarrow> fd \<Rightarrow> 'w pool_st \<Rightarrow> (bool outcome \<times> 'w pool_st) option" where
  "child_round e pipefd s =
     (let (a, s) = ext e (C_epoll_wait (epollfd s) MAX_EVENT_NUMBER (-1)) s
      in if ret a < 0 \<and> errno s \<noteq> EINTR
         then Some (Ret False, log (L_wait_failed (errno s)) s)
         else resume (for_each (child_event e pipefd) (take (nat (ret a)) (events_of (payload a))) s))"

definition run_child :: "'w env \<Rightarrow> nat \<Rightarrow> 'w pool_st \<Rightarrow> (bool outcome \<times> 'w pool_st) option" where
  "run_child e k s =
     (case setup_sig_pipe e (log (L_text ''Begin running...'') s) of
        (Ret u, s) \<Rightarrow>
          let pipefd = snd (m_pipefd (sub_process s ! nat (idx s)));
              s = addfd e (epollfd s) pipefd False s;
              s = s\<lparr>users := (\<lambda>_. new_TestConn)\<rparr>
          in (case while_rounds (\<lambda>s. \<not> stop s) (child_round e pipefd) k s of
                Some (Ret False, s) \<Rightarrow>
                  Some (Ret False, extu e (C_close (epollfd s)) (extu e (C_close pipefd) s))
              | r \<Rightarrow> r)
      | (Exit n, s) \<Rightarrow> Some (Exit n, s)
      | (Assert_failed, s) \<Rightarrow> Some (Assert_failed, s)
      | (Undefined, s) \<Rightarrow> Some (Undefined, s))"

definition pool_run :: "'w env \<Rightarrow> nat \<Rightarrow> 'w pool_st \<Rightarrow> (bool outcome \<times> 'w pool_st) option" where
  "pool_run e k s =
     (case run_setup e s of
        (Ret u, s) \<Rightarrow> if idx s \<noteq> -1 then run_child e k s else run_parent e k s
      | (Exit n, s) \<Rightarrow> Some (Exit n, s)
      | (Assert_failed, s) \<Rightarrow> Some (Assert_failed, s)
      | (Undefined, s) \<Rightarrow> Some (Undefined, s))"

section \<open>Frames\<close>

lemma pool_st_frame [simp]:
  fixes s :: "'w pool_st"
  shows "process_number (extu e c s) = process_number s" "idx (extu e c s) = idx s"
    "epollfd (extu e c s) = epollfd s" "listenfd (extu e c s) = listenfd s"
    "stop (extu e c s) = stop s" "sub_process (extu e c s) = sub_process s"
    "sig_pipefd (extu e c s) = sig_pipefd s"
    "sub_process_counter (extu e c s) = sub_process_counter s" "users (extu e c s) = users s"
    "process_number (log l s) = process_number s" "idx (log l s) = idx s"
    "epollfd (log l s) = epollfd s" "listenfd (log l s) = listenfd s"
    "stop (log l s) = stop s" "sub_process (log l s) = sub_process s"
    "sig_pipefd (log l s) = sig_pipefd s"
    "sub_process_counter (log l s) = sub_process_counter s" "users (log l s) = users s"
  by (simp_all add: ext_def log_def Let_def)

lemma setnonblocking_frame [simp]:
  fixes s :: "'w pool_st"
  shows "sub_process (snd (setnonblocking e f s)) = sub_process s"
    "idx (snd (setnonblocking e f s)) = idx s"
  by (simp_all add: setnonblocking_def Let_def split_beta)

lemma setnonblocking_users [simp]:
  fixes s :: "'w pool_st"
  shows "users (snd (setnonblocking e f s)) = users s" "epollfd (snd (setnonblocking e f s)) = epollfd s"
    "listenfd (snd (setnonblocking e f s)) = listenfd s"
    "sig_pipefd (snd (setnonblocking e f s)) = sig_pipefd s"
  by (simp_all add: setnonblocking_def Let_def split_beta)

lemma addfd_frame [simp]:
  fixes s :: "'w pool_st"
  shows "users (addfd e ep f et s) = users s" "epollfd (addfd e ep f et s) = epollfd s"
    "listenfd (addfd e ep f et s) = listenfd s" "sig_pipefd (addfd e ep f et s) = sig_pipefd s"
  by (simp_all add: addfd_def Let_def)

lemma setnonblocking_tab:
  "fd_law tab e \<Longrightarrow> tab (world (snd (setnonblocking e f s))) = tab (world s)"
  by (simp add: setnonblocking_def Let_def split_beta fd_law_frame)

section \<open>Choosing a child\<close>

interpretation rr: round_robin next_index
  by unfold_locales (simp add: next_index_def)

lemma pick_body_dead:
  assumes "c < n" and "Suc d < n" and "m_pid (ps ! ((c + d) mod n)) = -1"
  shows "pick_body ps n c ((c + d) mod n) = Inl ((c + Suc d) mod n)"
proof -
  have "(c + Suc d) mod n \<noteq> c"
  proof (cases "c + Suc d < n")
    case False
    then have "(c + Suc d) mod n = c + Suc d - n" using assms by (simp add: mod_if)
    moreover have "c + Suc d - n < c" using False assms by linarith
    ultimately show ?thesis by linarith
  qed simp
  then show ?thesis using assms(3) by (simp add: pick_body_def next_index_def mod_Suc_eq)
qed

lemma pick_skip_dead:
  assumes "c < n" and "d < n" and "\<forall>i < d. m_pid (ps ! ((c + i) mod n)) = -1"
  shows "loop_until (pick_body ps n c) c = loop_until (pick_body ps n c) ((c + d) mod n)"
  using assms(2,3)
proof (induction d)
  case 0
  then show ?case using assms(1) by simp
next
  case (Suc d)
  then have "pick_body ps n c ((c + d) mod n) = Inl ((c + Suc d) mod n)"
    by (intro pick_body_dead [OF assms(1)]) auto
  then have "loop_until (pick_body ps n c) ((c + d) mod n) =
      loop_until (pick_body ps n c) ((c + Suc d) mod n)"
    by (rule loop_until_Inl)
  then show ?case using Suc by simp
qed

lemma pick_child_alive:
  assumes "c < n" and "d < n" and "\<forall>i < d. m_pid (ps ! ((c + i) mod n)) = -1"
    and "m_pid (ps ! ((c + d) mod n)) \<noteq> -1"
  shows "pick_child ps n c = Some ((c + d) mod n)"
  using assms(4) pick_skip_dead [OF assms(1-3)]
  by (simp add: pick_child_def pick_body_def)

lemma pick_child_none:
  assumes "c < n" and "\<forall>i < n. m_pid (ps ! i) = -1"
  shows "pick_child ps n c = Some c"
proof -
  have last: "next_index n ((c + (n - 1)) mod n) = c"
    using assms(1) by (simp add: next_index_def mod_Suc_eq)
  have "pick_body ps n c ((c + (n - 1)) mod n) = Inr c"
    using assms last by (simp add: pick_body_def)
  then show ?thesis
    using pick_skip_dead [of c n "n - 1" ps] assms by (simp add: pick_child_def)
qed

lemma first_offset:
  assumes "c < n" and "i < n" and "P i"
  obtains d where "d < (n::nat)" and "P ((c + d) mod n)" and "\<forall>k < d. \<not> P ((c + k) mod n)"
proof -
  obtain k where "k < n" "(next_index n ^^ k) c = i" using rr.visits_every_worker assms by blast
  then have ex: "k < n \<and> P ((c + k) mod n)" using rr.advance_iterate [OF assms(1)] assms(3) by auto
  define d where "d = (LEAST k. k < n \<and> P ((c + k) mod n))"
  have "d < n \<and> P ((c + d) mod n)" unfolding d_def using ex by (rule LeastI)
  moreover have "\<forall>k < d. \<not> P ((c + k) mod n)"
    using not_less_Least calculation unfolding d_def by (metis order.strict_trans)
  ultimately show thesis using that by blast
qed

lemma pick_child_total:
  assumes "c < n"
  shows "\<exists>j < n. pick_child ps n c = Some j"
proof (cases "\<forall>i < n. m_pid (ps ! i) = -1")
  case True
  then show ?thesis using assms pick_child_none [OF assms True] by blast
next
  case False
  then obtain i where "i < n" "m_pid (ps ! i) \<noteq> -1" by blast
  then obtain d where "d < n" "m_pid (ps ! ((c + d) mod n)) \<noteq> -1" "\<forall>k < d. \<not> m_pid (ps ! ((c + k) mod n)) \<noteq> -1"
    using first_offset [OF assms, of i "\<lambda>i. m_pid (ps ! i) \<noteq> -1"] by blast
  then have "pick_child ps n c = Some ((c + d) mod n)" by (intro pick_child_alive [OF assms]) auto
  moreover have "(c + d) mod n < n" using assms by simp
  ultimately show ?thesis by blast
qed

section \<open>Well-formed parents\<close>

text \<open>
  What \<open>run\<close> establishes before \<open>run_parent\<close>: one record per child, and the counter of
  the dispatch loop inside the array.
\<close>

definition parent_ok :: "('w, 'x) pool_st_scheme \<Rightarrow> bool" where
  "parent_ok s \<longleftrightarrow>
     0 < process_number s \<and> length (sub_process s) = nat (process_number s) \<and>
     sub_process_counter s < nat (process_number s)"

abbreviation alive :: "'w pool_st \<Rightarrow> nat \<Rightarrow> bool" where
  "alive s k \<equiv> m_pid (sub_process s ! k) \<noteq> -1"

abbreviation children :: "'w pool_st \<Rightarrow> nat" where
  "children s \<equiv> nat (process_number s)"

lemma parent_listen_alive:
  assumes "parent_ok s" and "d < children s" and "j = (sub_process_counter s + d) mod children s"
    and "alive s j" and "\<forall>i < d. \<not> alive s ((sub_process_counter s + i) mod children s)"
  shows "parent_listen e s =
    Some (Ret True, extu e (C_send (fst (m_pipefd (sub_process s ! j))) new_conn_bytes)
                      (s\<lparr>sub_process_counter := next_index (children s) j\<rparr>))"
proof -
  have "pick_child (sub_process s) (children s) (sub_process_counter s) = Some j"
    using assms by (auto simp: parent_ok_def intro: pick_child_alive)
  then show ?thesis using assms(4) by (simp add: parent_listen_def Let_def)
qed

lemma parent_listen_dead:
  assumes "parent_ok s" and "\<forall>i < children s. \<not> alive s i"
  shows "parent_listen e s = Some (Ret False, s\<lparr>stop := True\<rparr>)"
proof -
  have "pick_child (sub_process s) (children s) (sub_process_counter s) = Some (sub_process_counter s)"
    using assms by (auto simp: parent_ok_def intro: pick_child_none)
  then show ?thesis using assms by (simp add: parent_listen_def parent_ok_def)
qed

text \<open>
  Whatever children have exited, a connection event is dispatched without looping forever:
  while some child is alive it goes to the first living one at or after the counter, in cyclic
  order, and the counter moves behind it; when none is alive the parent stops.
\<close>

theorem parent_listen_dispatch:
  assumes "parent_ok s"
  shows "(\<forall>i < children s. \<not> alive s i) \<and> parent_listen e s = Some (Ret False, s\<lparr>stop := True\<rparr>) \<or>
    (\<exists>d j t. d < children s \<and> j = (sub_process_counter s + d) mod children s \<and> alive s j \<and>
       (\<forall>i < d. \<not> alive s ((sub_process_counter s + i) mod children s)) \<and>
       parent_listen e s = Some (Ret True, t) \<and> parent_ok t \<and>
       sub_process_counter t = Suc j mod children s \<and>
       calls t = calls s @ [C_send (fst (m_pipefd (sub_process s ! j))) new_conn_bytes])"
proof (cases "\<forall>i < children s. \<not> alive s i")
  case True
  then show ?thesis using parent_listen_dead [OF assms] by blast
next
  case False
  then obtain i where "i < children s" "alive s i" by blast
  moreover have c: "sub_process_counter s < children s" using assms by (simp add: parent_ok_def)
  ultimately obtain d where d: "d < children s"
    "alive s ((sub_process_counter s + d) mod children s)"
    "\<forall>k < d. \<not> alive s ((sub_process_counter s + k) mod children s)"
    using first_offset [of "sub_process_counter s" "children s" i "alive s"] by blast
  let ?j = "(sub_process_counter s + d) mod children s"
  let ?t = "extu e (C_send (fst (m_pipefd (sub_process s ! ?j))) new_conn_bytes)
              (s\<lparr>sub_process_counter := next_index (children s) ?j\<rparr>)"
  have "parent_listen e s = Some (Ret True, ?t)"
    using parent_listen_alive [OF assms d(1) refl d(2,3)] .
  moreover have "parent_ok ?t" using assms by (simp add: parent_ok_def next_index_def)
  moreover have "sub_process_counter ?t = Suc ?j mod children s" by (simp add: next_index_def)
  ultimately show ?thesis using d by (intro disjI2 exI conjI) auto
qed

text \<open>A pool for the witnesses: listening on 3, epoll instance 4, signal pipe 5 and 6.\<close>

definition pool_of :: "'w \<Rightarrow> Process list \<Rightarrow> nat \<Rightarrow> 'w pool_st" where
  "pool_of w ps c =
     \<lparr>world = w, errno = 0, trace = [], out = [], process_number = int (length ps), idx = -1,
      epollfd = 4, listenfd = 3, stop = False, sub_process = ps, sig_pipefd = (5, 6),
      sub_process_counter = c, users = (\<lambda>_. new_TestConn)\<rparr>"

lemma pool_of_fields [simp]:
  "world (pool_of w ps c) = w" "errno (pool_of w ps c) = 0" "trace (pool_of w ps c) = []"
  "out (pool_of w ps c) = []" "process_number (pool_of w ps c) = int (length ps)"
  "idx (pool_of w ps c) = -1" "epollfd (pool_of w ps c) = 4" "listenfd (pool_of w ps c) = 3"
  "stop (pool_of w ps c) = False" "sub_process (pool_of w ps c) = ps"
  "sig_pipefd (pool_of w ps c) = (5, 6)" "sub_process_counter (pool_of w ps c) = c"
  "users (pool_of w ps c) = (\<lambda>_. new_TestConn)"
  by (simp_all add: pool_of_def)

definition child_at :: "int \<Rightarrow> fd \<Rightarrow> Process" where
  "child_at pid f = \<lparr>m_pid = pid, m_pipefd = (f, f + 1)\<rparr>"

lemma child_at_fields [simp]: "m_pid (child_at p f) = p" "m_pipefd (child_at p f) = (f, f + 1)"
  by (simp_all add: child_at_def)

theorem parent_listen_dispatch_witness:
  "\<exists>t. parent_listen script_env
      (pool_of (script {3, 4, 5, 6, 10, 12, 14} [ok 4]) [child_at 100 10, child_at (-1) 12, child_at 102 14] 1) =
      Some (Ret True, t) \<and> sub_process_counter t = 0 \<and> calls t = [C_send 14 new_conn_bytes]"
proof -
  let ?s = "pool_of (script {3, 4, 5, 6, 10, 12, 14} [ok 4])
              [child_at 100 10, child_at (-1) 12, child_at 102 14] 1"
  have ok: "parent_ok ?s" by (simp add: parent_ok_def)
  have live: "\<not> (\<forall>i < children ?s. \<not> alive ?s i)" by (auto intro: exI [of _ 0])
  then obtain d j t where d: "d < children ?s" "j = (1 + d) mod children ?s" "alive ?s j"
    "\<forall>i < d. \<not> alive ?s ((1 + i) mod children ?s)"
    and t: "parent_listen script_env ?s = Some (Ret True, t)"
    "sub_process_counter t = Suc j mod children ?s"
    "calls t = calls ?s @ [C_send (fst (m_pipefd (sub_process ?s ! j))) new_conn_bytes]"
    using parent_listen_dispatch [OF ok, of script_env] by auto
  have n: "children ?s = 3" by simp
  have "d \<noteq> 0"
  proof
    assume "d = 0"
    then show False using d(2,3) by (simp add: n)
  qed
  moreover have "\<not> 1 < d"
  proof
    assume "1 < d"
    then show False using d(4) [rule_format, of 1] by (simp add: n)
  qed
  ultimately have "d = 1" by simp
  then have "j = 2" using d(2) by (simp add: n)
  then show ?thesis using t by (simp add: numeral_2_eq_2)
qed

section \<open>Fair dispatch\<close>

text \<open>
  Dealing in laps: \<open>turns i\<close> is how often child \<open>i\<close> had its turn. The children still in the table have all had the
  same number of turns, and those before the counter one more.
\<close>

definition dealt :: "(nat \<Rightarrow> bool) \<Rightarrow> nat \<Rightarrow> nat \<Rightarrow> (nat \<Rightarrow> nat) \<Rightarrow> bool" where
  "dealt known n c turns \<longleftrightarrow> (\<exists>T. \<forall>i < n. known i \<longrightarrow> turns i = T + (if i < c then 1 else 0))"

lemma dealt_mono: "dealt known n c turns \<Longrightarrow> (\<And>i. i < n \<Longrightarrow> known' i \<Longrightarrow> known i) \<Longrightarrow> dealt known' n c turns"
  unfolding dealt_def by blast

lemma dealt_within: "dealt known n c turns \<Longrightarrow> i < n \<Longrightarrow> j < n \<Longrightarrow> known i \<Longrightarrow> known j \<Longrightarrow> turns i \<le> turns j + 1"
  unfolding dealt_def by fastforce

text \<open>The scan passes over no living child.\<close>

lemma pick_child_skips:
  assumes "c < n" and "pick_child ps n c = Some j" and "m_pid (ps ! j) \<noteq> -1"
  shows "j < n" and "\<And>i. i < n \<Longrightarrow> m_pid (ps ! i) \<noteq> -1 \<Longrightarrow> (if c \<le> j then i < c \<or> j \<le> i else j \<le> i \<and> i < c)"
proof -
  show j: "j < n" using pick_child_total [OF assms(1), of ps] assms(2) by auto
  obtain d where d: "d < n" "m_pid (ps ! ((c + d) mod n)) \<noteq> -1" "\<forall>k < d. \<not> m_pid (ps ! ((c + k) mod n)) \<noteq> -1"
    using first_offset [OF assms(1) j, of "\<lambda>i. m_pid (ps ! i) \<noteq> -1"] assms(3) by blast
  then have jd: "j = (c + d) mod n" using pick_child_alive [OF assms(1) d(1)] assms(2) by simp
  show "if c \<le> j then i < c \<or> j \<le> i else j \<le> i \<and> i < c" if i: "i < n" "m_pid (ps ! i) \<noteq> -1" for i
  proof -
    define k where "k = (if c \<le> i then i - c else n - c + i)"
    have "(c + k) mod n = i" using i(1) assms(1) by (auto simp: k_def)
    then have dk: "d \<le> k" using d(3) i(2) not_le by blast
    have "j = (if c + d < n then c + d else c + d - n)" using jd assms(1) d(1) by (simp add: mod_if)
    then show ?thesis using dk i(1) assms(1) d(1) unfolding k_def by (auto split: if_splits)
  qed
qed

text \<open>A turn goes to a child that has had the fewest, and the laps go on.\<close>

lemma dealt_pick:
  fixes ps :: "Process list" and n :: nat
  defines "known \<equiv> \<lambda>i. m_pid (ps ! i) \<noteq> -1"
  assumes c: "c < n" and pick: "pick_child ps n c = Some j" and kj: "known j" and deal: "dealt known n c turns"
  shows "dealt known n (next_index n j) (turns(j := Suc (turns j)))" and "\<And>i. i < n \<Longrightarrow> known i \<Longrightarrow> turns j \<le> turns i"
proof -
  obtain T where T: "\<And>i. i < n \<Longrightarrow> known i \<Longrightarrow> turns i = T + (if i < c then 1 else 0)" using deal unfolding dealt_def by blast
  note j = pick_child_skips(1) [OF c pick kj [unfolded known_def]]
  have skip: "if c \<le> j then i < c \<or> j \<le> i else j \<le> i \<and> i < c" if "i < n" "known i" for i
    using pick_child_skips(2) [OF c pick kj [unfolded known_def], of i] that by (simp add: known_def)
  show "turns j \<le> turns i" if "i < n" "known i" for i
    using T [OF j kj] T [OF that] skip [OF that] by (auto split: if_splits)
  let ?t = "turns(j := Suc (turns j))" and ?c = "next_index n j"
  let ?T = "if c \<le> j \<and> Suc j < n then T else Suc T"
  have "?t i = ?T + (if i < ?c then 1 else 0)" if "i < n" "known i" for i
    using T [OF j kj] T [OF that] skip [OF that] c j that(1) by (auto simp: next_index_def mod_Suc split: if_splits)
  then show "dealt known n ?c ?t" unfolding dealt_def by blast
qed

fun is_send :: "extcall \<Rightarrow> bool" where
  "is_send (C_send _ _) = True"
| "is_send _ = False"

section \<open>Children that exit\<close>

text \<open>The process ids \<open>waitpid\<close> has reported in a list of answered calls.\<close>

definition reaped :: "(extcall \<times> answer) list \<Rightarrow> int set" where
  "reaped l = {ret a | a. (C_waitpid, a) \<in> set l \<and> 0 < ret a}"

lemma reaped_Nil [simp]: "reaped [] = {}"
  by (simp add: reaped_def)

lemma reaped_append [simp]: "reaped (l @ l') = reaped l \<union> reaped l'"
  by (auto simp: reaped_def)

lemma reaped_Cons [simp]:
  "reaped (ca # l) = (if fst ca = C_waitpid \<and> 0 < ret (snd ca) then {ret (snd ca)} else {}) \<union> reaped l"
  by (cases ca) (auto simp: reaped_def)

definition mark :: "int set \<Rightarrow> Process \<Rightarrow> Process" where
  "mark R p = (if m_pid p \<in> R then p\<lparr>m_pid := -1\<rparr> else p)"

lemma mark_mark: "-1 \<notin> R' \<Longrightarrow> mark R' (mark R p) = mark (R \<union> R') p"
  by (simp add: mark_def)

text \<open>
  The loop over the children for one exited process: its entry is cleared and its pipe closed,
  and the outside world sees only closes.
\<close>

lemma mark_exit_step:
  fixes s :: "'w pool_st"
  assumes "k < length (sub_process s)"
  shows "sub_process (mark_exit e pid k s) = (sub_process s)[k := mark {pid} (sub_process s ! k)]"
    and "\<exists>l. trace (mark_exit e pid k s) = trace s @ l \<and> reaped l = {} \<and>
      map fst l = (if m_pid (sub_process s ! k) = pid then [C_close (fst (m_pipefd (sub_process s ! k)))] else [])"
    and "process_number (mark_exit e pid k s) = process_number s"
    and "waitpid_finite kids e \<Longrightarrow> kids (world (mark_exit e pid k s)) \<le> kids (world s)"
  using assms by (simp_all add: mark_exit_def mark_def Let_def waitpid_finite_def)

lemma mark_exit_counter: "sub_process_counter (fold (mark_exit e pid) ks s) = sub_process_counter s"
  by (induction ks arbitrary: s) (simp_all add: mark_exit_def Let_def)

text \<open>The same for the whole loop over the children.\<close>

lemma mark_exit_fold:
  fixes s :: "'w pool_st" and e :: "'w env" and pid :: int
  assumes "\<forall>k \<in> set ks. k < length (sub_process s)" and "distinct ks"
  defines "t \<equiv> fold (mark_exit e pid) ks s"
  shows "length (sub_process t) = length (sub_process s) \<and> process_number t = process_number s \<and>
    (\<forall>k < length (sub_process s). sub_process t ! k =
       (if k \<in> set ks then mark {pid} (sub_process s ! k) else sub_process s ! k)) \<and>
    (\<exists>l. trace t = trace s @ l \<and> reaped l = {} \<and>
       set (map fst l) = {C_close (fst (m_pipefd (sub_process s ! k))) | k. k \<in> set ks \<and> m_pid (sub_process s ! k) = pid})"
  unfolding t_def using assms(1,2)
proof (induction ks arbitrary: s)
  case Nil
  then show ?case by simp
next
  case (Cons k ks)
  let ?u = "mark_exit e pid k s"
  have k: "k < length (sub_process s)" using Cons.prems by simp
  note u = mark_exit_step(1) [OF k, of e pid] mark_exit_step(3) [OF k, of e pid]
  obtain l where l: "trace ?u = trace s @ l" "reaped l = {}"
    "map fst l = (if m_pid (sub_process s ! k) = pid then [C_close (fst (m_pipefd (sub_process s ! k)))] else [])"
    using mark_exit_step(2) [OF k, of e pid] by blast
  have same: "sub_process ?u ! i = sub_process s ! i" if "i \<in> set ks" for i
  proof -
    have "i \<noteq> k" using that Cons.prems(2) by auto
    then show ?thesis by (simp add: u)
  qed
  have IH: "length (sub_process (fold (mark_exit e pid) ks ?u)) = length (sub_process ?u)"
    "process_number (fold (mark_exit e pid) ks ?u) = process_number ?u"
    "\<forall>i < length (sub_process ?u). sub_process (fold (mark_exit e pid) ks ?u) ! i =
       (if i \<in> set ks then mark {pid} (sub_process ?u ! i) else sub_process ?u ! i)"
    and IH': "\<exists>l. trace (fold (mark_exit e pid) ks ?u) = trace ?u @ l \<and> reaped l = {} \<and>
       set (map fst l) = {C_close (fst (m_pipefd (sub_process ?u ! i))) | i. i \<in> set ks \<and> m_pid (sub_process ?u ! i) = pid}"
    using Cons.IH [of ?u] Cons.prems u by auto
  obtain l' where l': "trace (fold (mark_exit e pid) ks ?u) = trace ?u @ l'" "reaped l' = {}"
    "set (map fst l') = {C_close (fst (m_pipefd (sub_process ?u ! i))) | i. i \<in> set ks \<and> m_pid (sub_process ?u ! i) = pid}"
    using IH' by blast
  have closes: "set (map fst (l @ l')) = {C_close (fst (m_pipefd (sub_process s ! i))) | i.
      i \<in> set (k # ks) \<and> m_pid (sub_process s ! i) = pid}"
    unfolding map_append set_append l'(3) l(3) using same by auto
  have "sub_process (fold (mark_exit e pid) ks ?u) ! i =
      (if i \<in> set (k # ks) then mark {pid} (sub_process s ! i) else sub_process s ! i)"
    if "i < length (sub_process s)" for i
    using IH(3) that Cons.prems(2) k by (auto simp: u nth_list_update)
  moreover have "trace (fold (mark_exit e pid) ks ?u) = trace s @ l @ l'" "reaped (l @ l') = {}"
    using l l' by simp_all
  ultimately show ?case using IH(1,2) u closes by (simp only: fold_simps comp_apply length_list_update) blast
qed

text \<open>
  \<open>reaps s t l\<close>: from \<open>s\<close> to \<open>t\<close> the parent has asked \<open>waitpid\<close>, cleared exactly the
  children it reported and closed exactly their pipes.
\<close>

definition pipe_closes :: "int set \<Rightarrow> Process list \<Rightarrow> extcall set" where
  "pipe_closes R ps = (\<lambda>p. C_close (fst (m_pipefd p))) ` {p \<in> set ps. m_pid p \<in> R}"

definition reaps :: "'w pool_st \<Rightarrow> 'w pool_st \<Rightarrow> (extcall \<times> answer) list \<Rightarrow> bool" where
  "reaps s t l \<longleftrightarrow>
     trace t = trace s @ l \<and> process_number t = process_number s \<and>
     sub_process_counter t = sub_process_counter s \<and>
     sub_process t = map (mark (reaped l)) (sub_process s) \<and>
     set (map fst l) - {C_waitpid} = pipe_closes (reaped l) (sub_process s)"

lemma reaped_pos: "x \<in> reaped l \<Longrightarrow> 0 < x"
  by (auto simp: reaped_def)

lemma pipe_closes_empty [simp]: "pipe_closes {} ps = {}"
  by (simp add: pipe_closes_def)

lemma pipe_closes_mark:
  assumes "-1 \<notin> R'"
  shows "pipe_closes R ps \<union> pipe_closes R' (map (mark R) ps) = pipe_closes (R \<union> R') ps"
proof -
  have m: "m_pipefd (mark R p) = m_pipefd p" "m_pid (mark R p) \<in> R' \<longleftrightarrow> m_pid p \<in> R' - R" for p
    using assms by (auto simp: mark_def)
  have "pipe_closes R' (map (mark R) ps) = pipe_closes (R' - R) ps"
    by (simp add: pipe_closes_def Compr_image_eq image_image m)
  then show ?thesis by (auto simp: pipe_closes_def)
qed

lemma reaps_refl: "reaps s s []"
  by (simp add: reaps_def mark_def map_idI)

lemma reaps_trans:
  assumes "reaps s t l" and "reaps t u l'"
  shows "reaps s u (l @ l')"
proof -
  have m1: "-1 \<notin> reaped l'" using reaped_pos by fastforce
  have "set (map fst (l @ l')) - {C_waitpid} =
      pipe_closes (reaped l) (sub_process s) \<union> pipe_closes (reaped l') (map (mark (reaped l)) (sub_process s))"
    using assms unfolding reaps_def map_append set_append Un_Diff by metis
  then show ?thesis
    using assms m1 by (simp add: reaps_def mark_mark pipe_closes_mark)
qed

lemma reap_body_reaps:
  fixes s :: "'w pool_st"
  assumes "length (sub_process s) = children s"
  shows "(reap_body e s = Inl t \<longrightarrow> (\<exists>l. reaps s t l)) \<and> (reap_body e s = Inr t \<longrightarrow> (\<exists>l. reaps s t l))"
proof (cases "0 < ret (fst (e (world s) C_waitpid))")
  case False
  then have "reap_body e s = Inr (extu e C_waitpid s)"
    by (simp add: reap_body_def Let_def split_beta)
  moreover have "reaps s (extu e C_waitpid s) [(C_waitpid, fst (e (world s) C_waitpid))]"
    using False by (simp add: reaps_def mark_def map_idI)
  ultimately show ?thesis by auto
next
  case True
  let ?u = "extu e C_waitpid s"
  let ?pid = "ret (fst (e (world s) C_waitpid))"
  let ?t = "fold (mark_exit e ?pid) [0..<children s] ?u"
  have body: "reap_body e s = Inl ?t"
    using True by (simp add: reap_body_def Let_def split_beta)
  have "\<forall>k \<in> set [0..<children s]. k < length (sub_process ?u)" using assms by simp
  from mark_exit_fold [OF this, of e ?pid] obtain l where
    t: "length (sub_process ?t) = length (sub_process s)" "process_number ?t = process_number s"
      "\<forall>k < length (sub_process s). sub_process ?t ! k = mark {?pid} (sub_process s ! k)"
    and l: "trace ?t = trace ?u @ l" "reaped l = {}"
      "set (map fst l) = {C_close (fst (m_pipefd (sub_process s ! k))) | k. k < children s \<and> m_pid (sub_process s ! k) = ?pid}"
    using assms by auto
  have "sub_process ?t = map (mark {?pid}) (sub_process s)"
    using t by (intro nth_equalityI) simp_all
  moreover have closes: "set (map fst l) = pipe_closes {?pid} (sub_process s)"
    unfolding l(3) using assms by (auto simp: in_set_conv_nth pipe_closes_def image_iff)
  moreover have "C_waitpid \<notin> set (map fst l)"
    unfolding closes by (auto simp: pipe_closes_def)
  ultimately have "reaps s ?t ((C_waitpid, fst (e (world s) C_waitpid)) # l)"
    using True t(2) l(1,2) by (simp add: reaps_def mark_exit_counter)
  then show ?thesis using body by auto
qed

lemma mark_exit_kids:
  fixes s :: "'w pool_st"
  assumes "waitpid_finite kids e"
  shows "kids (world (fold (mark_exit e pid) ks s)) \<le> kids (world s)"
proof (induction ks arbitrary: s)
  case (Cons k ks)
  have "kids (world (mark_exit e pid k s)) \<le> kids (world s)"
    using assms by (simp add: mark_exit_def Let_def waitpid_finite_def)
  then show ?case using Cons.IH [of "mark_exit e pid k s"] by simp
qed simp

lemma reap_body_decreases:
  fixes s :: "'w pool_st"
  assumes "waitpid_finite kids e" and "reap_body e s = Inl t"
  shows "kids (world t) < kids (world s)"
proof -
  have pos: "0 < ret (fst (e (world s) C_waitpid))"
    and t: "t = fold (mark_exit e (ret (fst (e (world s) C_waitpid)))) [0..<children s] (extu e C_waitpid s)"
    using assms(2) by (auto simp: reap_body_def Let_def split_beta split: if_splits)
  have "kids (snd (e (world s) C_waitpid)) < kids (world s)"
    using assms(1) pos by (simp add: waitpid_finite_def)
  then show ?thesis
    using mark_exit_kids [OF assms(1), of _ _ "extu e C_waitpid s"] t by (metis ext_fields(1) order.strict_trans1)
qed

lemma reaps_length: "reaps s t l \<Longrightarrow> length (sub_process s) = children s \<Longrightarrow> length (sub_process t) = children t"
  by (simp add: reaps_def)

lemma reap_loop:
  fixes s :: "'w pool_st"
  assumes "waitpid_finite kids e" and "length (sub_process s) = children s"
  shows "\<exists>t l. loop_until (reap_body e) s = Some t \<and> reaps s t l"
proof -
  have "\<exists>t. loop_until (reap_body e) s = Some t"
    by (rule loop_until_terminates [where m = "\<lambda>s. kids (world s)" and P = "\<lambda>_. True"])
       (use reap_body_decreases [OF assms(1)] in auto)
  then obtain t where t: "loop_until (reap_body e) s = Some t" by blast
  have "\<exists>l. reaps s t l"
  proof (rule loop_until_invariant [OF t, where P = "\<lambda>u. \<exists>l. reaps s u l"])
    show "\<exists>l. reaps s s l" using reaps_refl by blast
    show "\<exists>l. reaps s v l" if "\<exists>l. reaps s u l" "reap_body e u = Inl v" for u v
      using that reap_body_reaps [of u e v] reaps_trans reaps_length [OF _ assms(2)] by blast
    show "\<exists>l. reaps s v l" if "\<exists>l. reaps s u l" "reap_body e u = Inr v" for u v
      using that reap_body_reaps [of u e v] reaps_trans reaps_length [OF _ assms(2)] by blast
  qed
  then show ?thesis using t by blast
qed

lemma stop_fold:
  "fold (\<lambda>k s. if alive s k then s\<lparr>stop := False\<rparr> else s) ks s =
     s\<lparr>stop := stop s \<and> (\<forall>k \<in> set ks. \<not> alive s k)\<rparr>"
  by (induction ks arbitrary: s) auto

lemma parent_sigchld_runs:
  fixes s :: "'w pool_st"
  assumes "waitpid_finite kids e" and "parent_ok s"
  shows "\<exists>t l. parent_sigchld e s = Some t \<and> reaps s t l \<and> parent_ok t \<and>
    (stop t \<longleftrightarrow> (\<forall>p \<in> set (sub_process t). m_pid p = -1))"
proof -
  have len: "length (sub_process s) = children s" using assms(2) by (simp add: parent_ok_def)
  obtain u l where u: "loop_until (reap_body e) s = Some u" "reaps s u l"
    using reap_loop [OF assms(1) len] by blast
  let ?t = "u\<lparr>stop := \<forall>k \<in> set [0..<children u]. \<not> alive u k\<rparr>"
  have "parent_sigchld e s = Some ?t"
    using u(1) by (simp add: parent_sigchld_def stop_fold)
  moreover have "stop ?t \<longleftrightarrow> (\<forall>p \<in> set (sub_process ?t). m_pid p = -1)"
    using reaps_length [OF u(2) len] by (auto simp: all_set_conv_all_nth)
  moreover have "reaps s ?t l" "parent_ok ?t"
    using u(2) assms(2) by (simp_all add: reaps_def parent_ok_def)
  ultimately show ?thesis by blast
qed

text \<open>
  The parent's \<open>SIGCHLD\<close> case returns whenever finitely many children can be reaped. It then
  has marked as exited exactly the children \<open>waitpid\<close> reported, closed exactly their pipes, and
  it stops the server if and only if no child is left.
\<close>

theorem parent_sigchld_reaps:
  fixes s :: "'w pool_st"
  assumes "waitpid_finite kids e" and "parent_ok s"
  shows "\<exists>t l. parent_sigchld e s = Some t \<and> trace t = trace s @ l \<and> parent_ok t \<and>
    sub_process t = map (\<lambda>p. if m_pid p \<in> reaped l then p\<lparr>m_pid := -1\<rparr> else p) (sub_process s) \<and>
    {f. C_close f \<in> set (map fst l)} = {fst (m_pipefd p) | p. p \<in> set (sub_process s) \<and> m_pid p \<in> reaped l} \<and>
    (stop t \<longleftrightarrow> (\<forall>p \<in> set (sub_process t). m_pid p = -1))"
proof -
  obtain t l where t: "parent_sigchld e s = Some t" "reaps s t l" "parent_ok t"
    "stop t \<longleftrightarrow> (\<forall>p \<in> set (sub_process t). m_pid p = -1)"
    using parent_sigchld_runs [OF assms] by blast
  have sub: "sub_process t = map (\<lambda>p. if m_pid p \<in> reaped l then p\<lparr>m_pid := -1\<rparr> else p) (sub_process s)"
    using t(2) by (simp add: reaps_def mark_def [abs_def])
  have "{f. C_close f \<in> set (map fst l)} = {f. C_close f \<in> pipe_closes (reaped l) (sub_process s)}"
    using t(2) unfolding reaps_def by blast
  then have "{f. C_close f \<in> set (map fst l)} =
      {fst (m_pipefd p) | p. p \<in> set (sub_process s) \<and> m_pid p \<in> reaped l}"
    by (auto simp: pipe_closes_def)
  then show ?thesis using t sub by (auto simp: reaps_def)
qed

theorem parent_sigchld_reaps_witness:
  "\<exists>t. parent_sigchld script_env (pool_of (script {} [ok 101, ok 0, ok 0]) [child_at 100 10, child_at 101 12] 0) = Some t \<and>
    parent_ok t \<and> (stop t \<longleftrightarrow> (\<forall>p \<in> set (sub_process t). m_pid p = -1))"
proof -
  have "parent_ok (pool_of (script {} [ok 101, ok 0, ok 0]) [child_at 100 10, child_at 101 12] 0)"
    by (simp add: parent_ok_def)
  from parent_sigchld_reaps [OF script_waitpid_finite this] show ?thesis by blast
qed

text \<open>
  On \<open>SIGTERM\<close> or \<open>SIGINT\<close> the parent sends \<open>SIGTERM\<close> to every child that has not exited,
  once each and in order, and to no other process; it goes on running, to reap them.
\<close>

theorem parent_kill_signals:
  fixes s :: "'w pool_st"
  shows "\<exists>l. trace (parent_kill e s) = trace s @ l \<and>
    map fst l = map (\<lambda>k. C_kill (m_pid (sub_process s ! k)) SIGTERM) (filter (alive s) [0..<children s]) \<and>
    sub_process (parent_kill e s) = sub_process s \<and> stop (parent_kill e s) = stop s"
proof -
  let ?sig = "\<lambda>u. \<lambda>k. C_kill (m_pid (sub_process u ! k)) SIGTERM"
  have "\<exists>l. trace (fold (kill_child e) ks u) = trace u @ l \<and>
      map fst l = map (?sig u) (filter (alive u) ks) \<and>
      sub_process (fold (kill_child e) ks u) = sub_process u \<and>
      stop (fold (kill_child e) ks u) = stop u" for ks and u :: "'w pool_st"
  proof (induction ks arbitrary: u)
    case (Cons k ks)
    let ?u = "kill_child e k u"
    have sub: "sub_process ?u = sub_process u" "stop ?u = stop u" by (simp_all add: kill_child_def Let_def)
    obtain l where l: "trace (fold (kill_child e) ks ?u) = trace ?u @ l"
      "map fst l = map (?sig u) (filter (alive u) ks)"
      "sub_process (fold (kill_child e) ks ?u) = sub_process u" "stop (fold (kill_child e) ks ?u) = stop u"
      using Cons.IH [of ?u] unfolding sub by blast
    obtain l0 where "trace ?u = trace u @ l0" "map fst l0 = map (?sig u) (filter (alive u) [k])"
      by (cases "alive u k") (simp_all add: kill_child_def Let_def)
    then have "trace (fold (kill_child e) (k # ks) u) = trace u @ l0 @ l"
      "map fst (l0 @ l) = map (?sig u) (filter (alive u) (k # ks))"
      using l(1,2) by (auto split: if_splits)
    then show ?case using l(3,4) by (simp only: fold_simps) blast
  qed simp
  from this [of "[0..<children s]" "log (L_text ''Received termination or interrupt signal kill all the clild now.'') s"]
  show ?thesis by (simp add: parent_kill_def)
qed

section \<open>Descriptors after forking\<close>

text \<open>The state after the socket pair and the fork of child \<open>i\<close>, before the test of the process id.\<close>

definition forked :: "'w env \<Rightarrow> nat \<Rightarrow> 'w pool_st \<Rightarrow> 'w pool_st" where
  "forked e i s =
     (let a = fst (e (world s) C_socketpair);
          s = extu e C_socketpair s;
          s = s\<lparr>sub_process := (sub_process s)[i := (sub_process s ! i)\<lparr>m_pipefd := pair_of (payload a)\<rparr>]\<rparr>;
          p = fst (e (world s) C_fork);
          s = extu e C_fork s
      in s\<lparr>sub_process := (sub_process s)[i := (sub_process s ! i)\<lparr>m_pid := ret p\<rparr>]\<rparr>)"

lemma spawn_Cons:
  fixes s :: "'w pool_st"
  assumes "spawn e (i # is) s = (Ret u, t)" and "i < length (sub_process s)"
  defines "v \<equiv> forked e i s"
  shows "ret (fst (e (world s) C_socketpair)) = 0"
    and "m_pipefd (sub_process v ! i) = pair_of (payload (fst (e (world s) C_socketpair)))"
    and "0 < m_pid (sub_process v ! i) \<and>
         spawn e is (snd (setnonblocking e (fst (m_pipefd (sub_process v ! i)))
           (extu e (C_close (snd (m_pipefd (sub_process v ! i)))) v))) = (Ret u, t) \<or>
       m_pid (sub_process v ! i) = 0 \<and>
         t = (snd (setnonblocking e (snd (m_pipefd (sub_process v ! i)))
           (extu e (C_close (fst (m_pipefd (sub_process v ! i)))) v)))\<lparr>idx := int i\<rparr>"
proof -
  show ok: "ret (fst (e (world s) C_socketpair)) = 0"
    using assms(1) by (auto simp: Let_def split_beta split: if_splits)
  show "m_pipefd (sub_process v ! i) = pair_of (payload (fst (e (world s) C_socketpair)))"
    using assms(2) by (simp add: v_def forked_def Let_def)
  have pid: "m_pid (sub_process v ! i) = ret (fst (e (snd (e (world s) C_socketpair)) C_fork))"
    using assms(2) by (simp add: v_def forked_def Let_def)
  show "0 < m_pid (sub_process v ! i) \<and>
         spawn e is (snd (setnonblocking e (fst (m_pipefd (sub_process v ! i)))
           (extu e (C_close (snd (m_pipefd (sub_process v ! i)))) v))) = (Ret u, t) \<or>
       m_pid (sub_process v ! i) = 0 \<and>
         t = (snd (setnonblocking e (snd (m_pipefd (sub_process v ! i)))
           (extu e (C_close (fst (m_pipefd (sub_process v ! i)))) v)))\<lparr>idx := int i\<rparr>"
    using assms(1) ok unfolding pid unfolding v_def forked_def
    by (simp add: Let_def split_beta split: if_splits)
qed

lemma forked_fields:
  fixes s :: "'w pool_st"
  shows "length (sub_process (forked e i s)) = length (sub_process s)"
    and "j \<noteq> i \<Longrightarrow> sub_process (forked e i s) ! j = sub_process s ! j"
    and "idx (forked e i s) = idx s"
  by (simp_all add: forked_def Let_def)

lemma forked_tab:
  assumes "fd_law tab e" and "ret (fst (e (world s) C_socketpair)) = 0"
    and "pair_of (payload (fst (e (world s) C_socketpair))) = (a, b)"
  shows "tab (world (forked e i s)) = tab (world s) \<union> {a, b}" and "{a, b} \<inter> tab (world s) = {}"
proof -
  show "tab (world (forked e i s)) = tab (world s) \<union> {a, b}"
    using assms by (simp add: forked_def Let_def fd_law_tab)
  show "{a, b} \<inter> tab (world s) = {}"
    using fd_law_fresh [OF assms(1), of _ C_socketpair "world s"] assms(2,3) by auto
qed

text \<open>The parent's and the child's ends of the pipes of a range of children.\<close>

abbreviation parent_ends :: "'w pool_st \<Rightarrow> nat set \<Rightarrow> fd set" where
  "parent_ends s I \<equiv> (\<lambda>i. fst (m_pipefd (sub_process s ! i))) ` I"

lemma spawn_list:
  fixes s :: "'w pool_st"
  assumes "fd_law tab e" and "pair_law e" and "spawn e is s = (Ret u, t)"
    and "distinct is" and "\<forall>i \<in> set is. i < length (sub_process s)"
  shows "(\<forall>j. j \<notin> set is \<longrightarrow> sub_process t ! j = sub_process s ! j) \<and>
    (idx t = idx s \<and> (\<forall>i \<in> set is. 0 < m_pid (sub_process t ! i)) \<and>
       tab (world t) = tab (world s) \<union> parent_ends t (set is) \<or>
     (\<exists>pre i post. is = pre @ i # post \<and> idx t = int i \<and> m_pid (sub_process t ! i) = 0 \<and>
       tab (world t) = tab (world s) \<union> parent_ends t (set pre) \<union> {snd (m_pipefd (sub_process t ! i))}))"
  using assms(3-5)
proof (induction "is" arbitrary: s)
  case Nil
  then show ?case by simp
next
  case (Cons i "is")
  let ?v = "forked e i s"
  have i: "i < length (sub_process s)" using Cons.prems(3) by simp
  note sp = spawn_Cons [OF Cons.prems(1) i]
  obtain a b where ab: "pair_of (payload (fst (e (world s) C_socketpair))) = (a, b)" by fastforce
  have "a \<noteq> b" using assms(2) sp(1) ab by (metis pair_law_def fst_conv snd_conv)
  note tab = forked_tab [OF assms(1) sp(1) ab]
  have pipe: "m_pipefd (sub_process ?v ! i) = (a, b)" using sp(2) ab by simp
  let ?p = "snd (setnonblocking e a (extu e (C_close b) ?v))"
  let ?c = "(snd (setnonblocking e b (extu e (C_close a) ?v)))\<lparr>idx := int i\<rparr>"
  have tabs: "tab (world ?p) = tab (world s) \<union> {a}" "tab (world ?c) = tab (world s) \<union> {b}"
    using tab \<open>a \<noteq> b\<close> by (auto simp: setnonblocking_tab [OF assms(1)] fd_law_tab [OF assms(1)])
  from sp(3) consider
      (parent) "0 < m_pid (sub_process ?v ! i)" "spawn e is ?p = (Ret u, t)"
    | (child) "m_pid (sub_process ?v ! i) = 0" "t = ?c"
    unfolding pipe fst_conv snd_conv by blast
  then show ?case
  proof cases
    case child
    then have "i # is = [] @ i # is \<and> idx t = int i \<and> m_pid (sub_process t ! i) = 0 \<and>
      tab (world t) = tab (world s) \<union> parent_ends t (set []) \<union> {snd (m_pipefd (sub_process t ! i))}"
      using tabs pipe by simp
    moreover have "\<forall>j. j \<notin> set (i # is) \<longrightarrow> sub_process t ! j = sub_process s ! j"
      using child(2) by (simp add: forked_fields)
    ultimately show ?thesis by blast
  next
    case parent
    have IH: "(\<forall>j. j \<notin> set is \<longrightarrow> sub_process t ! j = sub_process ?p ! j)"
      "idx t = idx ?p \<and> (\<forall>i \<in> set is. 0 < m_pid (sub_process t ! i)) \<and>
         tab (world t) = tab (world ?p) \<union> parent_ends t (set is) \<or>
       (\<exists>pre i post. is = pre @ i # post \<and> idx t = int i \<and> m_pid (sub_process t ! i) = 0 \<and>
         tab (world t) = tab (world ?p) \<union> parent_ends t (set pre) \<union> {snd (m_pipefd (sub_process t ! i))})"
      using Cons.IH [OF parent(2)] Cons.prems by (auto simp: forked_fields)
    have ti: "sub_process t ! i = sub_process ?v ! i" using IH(1) Cons.prems(2) by simp
    then have a: "fst (m_pipefd (sub_process t ! i)) = a" "0 < m_pid (sub_process t ! i)"
      using pipe parent(1) by simp_all
    have frame: "\<forall>j. j \<notin> set (i # is) \<longrightarrow> sub_process t ! j = sub_process s ! j"
      using IH(1) by (simp add: forked_fields)
    from IH(2) show ?thesis
    proof (elim disjE exE conjE)
      assume h: "idx t = idx ?p" "\<forall>i \<in> set is. 0 < m_pid (sub_process t ! i)"
        "tab (world t) = tab (world ?p) \<union> parent_ends t (set is)"
      then have "tab (world t) = tab (world s) \<union> parent_ends t (set (i # is))"
        using a tabs by auto
      then show ?thesis using frame h(1,2) a by (simp add: forked_fields)
    next
      fix pre k post
      assume h: "is = pre @ k # post" "idx t = int k" "m_pid (sub_process t ! k) = 0"
        "tab (world t) = tab (world ?p) \<union> parent_ends t (set pre) \<union> {snd (m_pipefd (sub_process t ! k))}"
      then have "i # is = (i # pre) @ k # post"
        "tab (world t) = tab (world s) \<union> parent_ends t (set (i # pre)) \<union> {snd (m_pipefd (sub_process t ! k))}"
        using a tabs by auto
      then show ?thesis using frame h(2,3) by blast
    qed
  qed
qed

text \<open>
  C25. What every process of the pool holds after the fork loop: the parent one end of each child's
  pipe and no more; child \<open>i\<close> its own end, and also the parent's ends of the children forked
  before it, which the loop never closes.
\<close>

theorem spawn_descriptors:
  fixes s :: "'w pool_st"
  assumes "fd_law tab e" and "pair_law e" and "idx s = -1"
    and "length (sub_process s) = n" and "spawn e [0..<n] s = (Ret (), t)"
  shows "idx t = -1 \<and> (\<forall>i < n. 0 < m_pid (sub_process t ! i)) \<and>
      tab (world t) = tab (world s) \<union> parent_ends t {..<n} \<or>
    (\<exists>i < n. idx t = int i \<and> m_pid (sub_process t ! i) = 0 \<and>
      tab (world t) = tab (world s) \<union> parent_ends t {..<i} \<union> {snd (m_pipefd (sub_process t ! i))})"
proof -
  have pre: "i < n \<and> set pre = {..<i}" if "[0..<n] = pre @ i # post" for pre i post
  proof -
    have len: "length pre < n" using arg_cong [OF that, of length] by simp
    then have "[0..<n] ! length pre = length pre" by simp
    then have "i = length pre" using that by simp
    moreover have "pre = take (length pre) [0..<n]" using that by simp
    ultimately show ?thesis using len by (metis atLeast_upt set_upt take_upt add_0 less_imp_le lessThan_atLeast0)
  qed
  have "(idx t = idx s \<and> (\<forall>i \<in> set [0..<n]. 0 < m_pid (sub_process t ! i)) \<and>
       tab (world t) = tab (world s) \<union> parent_ends t (set [0..<n])) \<or>
     (\<exists>pre i post. [0..<n] = pre @ i # post \<and> idx t = int i \<and> m_pid (sub_process t ! i) = 0 \<and>
       tab (world t) = tab (world s) \<union> parent_ends t (set pre) \<union> {snd (m_pipefd (sub_process t ! i))})"
    using spawn_list [OF assms(1,2,5)] assms(4) by simp
  then show ?thesis
  proof (elim disjE exE conjE)
    fix pre i post
    assume h: "[0..<n] = pre @ i # post" "idx t = int i" "m_pid (sub_process t ! i) = 0"
      "tab (world t) = tab (world s) \<union> parent_ends t (set pre) \<union> {snd (m_pipefd (sub_process t ! i))}"
    then show ?thesis using pre [OF h(1)] by auto
  qed (use assms(3) in \<open>simp add: lessThan_atLeast0\<close>)
qed

theorem spawn_descriptors_witness:
  "\<exists>t. spawn script_env [0..<2] (pool_of (script {0, 1, 2, 3}
       [ok_with 0 (P_pair 4 5), ok 100, ok 0, ok 0, ok 0, ok_with 0 (P_pair 5 6), ok 0, ok 0, ok 0, ok 0])
       [new_Process, new_Process] 0) = (Ret (), t) \<and>
     idx t = 1 \<and> s_open (world t) = {0, 1, 2, 3, 4, 6}"
proof -
  let ?s = "pool_of (script {0, 1, 2, 3}
       [ok_with 0 (P_pair 4 5), ok 100, ok 0, ok 0, ok 0, ok_with 0 (P_pair 5 6), ok 0, ok 0, ok 0, ok 0])
       [new_Process, new_Process] 0"
  define t where "t = snd (spawn script_env [0..<2] ?s)"
  have "fst (spawn script_env [0..<2] ?s) = Ret ()" by code_simp
  then have t: "spawn script_env [0..<2] ?s = (Ret (), t)" by (simp add: t_def prod_eq_iff)
  have "idx t = 1" unfolding t_def by code_simp
  have "m_pipefd (sub_process t ! 0) = (4, 5)" unfolding t_def by code_simp
  moreover have "m_pipefd (sub_process t ! 1) = (5, 6)" unfolding t_def by code_simp
  moreover note t \<open>idx t = 1\<close>
  ultimately have "s_open (world t) = {0, 1, 2, 3, 4, 6}"
    using spawn_descriptors [OF script_fd_law script_pair_law, of ?s 2 t]
    by (auto simp: script_def less_Suc_eq numeral_2_eq_2)
  then show ?thesis using t \<open>idx t = 1\<close> by blast
qed

end
