(* ===== verification/ProcPoolChild.thy ===== *)
theory ProcPoolChild
  imports ProcPool
begin

unbundle bit_operations_syntax

text \<open>
  The life of a child of the process pool: serving one request (\<open>TestConn::process\<close>), taking a
  connection over, and whole rounds of \<open>run_child\<close>. The definitions are those of ProcPool.
\<close>

section \<open>Requests\<close>

interpretation conn: recv_loop e "\<lambda>_. f" "BUF_SIZE - 1" world "conn_read_body e f"
  for e :: "'w env" and f :: fd
  by unfold_locales (auto simp: conn_read_body_def Let_def split_beta split: if_splits)

lemma conn_read_Inl:
  assumes "recv_law e" and "drained f s as t" and "conn_read_body e f t = Inl u"
  shows "\<exists>a. drained f s (as @ [a]) u"
proof -
  let ?a = "fst (e (world t) (C_recv f (BUF_SIZE - 1)))"
  have "length (bytes_of (payload ?a)) < BUF_SIZE"
    using recv_law_length(1) [OF assms(1), of "world t" f "BUF_SIZE - 1"] by (simp add: BUF_SIZE_def)
  then have "drained f s (as @ [?a]) u"
    using assms(2,3)
    by (auto simp: drained_def conn_read_body_def Let_def split_beta cstr_fill_zeroed split: if_splits)
  then show ?thesis by blast
qed

text \<open>How the read loop ends: the answers it consumed, the last one, and whether it gives up.\<close>

definition read_end :: "fd \<Rightarrow> ('w, 'x) proc_scheme \<Rightarrow> bool \<times> ('w, 'x) proc_scheme \<Rightarrow> bool" where
  "read_end f s r \<longleftrightarrow>
     (\<exists>as a u. drained f s as u \<and> ret a \<le> 0 \<and> fst r = gives_up a \<and> out (snd r) = out u \<and>
        trace (snd r) = trace u @ [(C_recv f (BUF_SIZE - 1), a)])"

lemma conn_read_Inr:
  assumes "drained f s as t" and "conn_read_body e f t = Inr r"
  shows "read_end f s r"
  unfolding read_end_def
  by (rule exI [of _ "as"], rule exI [of _ "fst (e (world t) (C_recv f (BUF_SIZE - 1)))"],
      rule exI [of _ t])
     (use assms in \<open>auto simp: conn_read_body_def gives_up_def Let_def split_beta split: if_splits\<close>)

lemma conn_read_end:
  assumes "recv_law e" and "loop_until (conn_read_body e f) s = Some r"
  shows "read_end f s r"
  by (rule loop_until_invariant [OF assms(2), where P = "\<lambda>t. \<exists>as. drained f s as t"])
     (use drained_Nil conn_read_Inl [OF assms(1)] conn_read_Inr in blast)+

text \<open>
  C24. Serving a request in a child always returns when the pending input is finite. It reads all of
  it and logs each message; then either the connection is still open, and it is answered with
  one \<open>"OK"\<close>, or it ended (end of stream or an error), and it is taken out of the epoll instance
  and closed, in that order, without an answer.
\<close>

theorem conn_process_serves:
  assumes "recv_law e" and "recv_finite pend e"
  shows "\<exists>t as a l. conn_process e c s = Some t \<and> (\<forall>x \<in> set as. 0 < ret x) \<and> ret a \<le> 0 \<and>
    trace t = trace s @ map (Pair (C_recv (tc_cli_fd c) (BUF_SIZE - 1))) (as @ [a]) @ l \<and>
    map fst l = (if gives_up a then [C_epoll_del (tc_epollfd c) (tc_cli_fd c), C_close (tc_cli_fd c)]
                 else [C_sleep_ms 100, C_send (tc_cli_fd c) ok_bytes]) \<and>
    out t = out s @ map (\<lambda>x. L_recv (tc_cli_fd c) (ret x) (cstr (bytes_of (payload x)))) as @
      (if gives_up a then [L_closed_fd (tc_cli_fd c)] else [])"
proof -
  obtain r where r: "loop_until (conn_read_body e (tc_cli_fd c)) s = Some r"
    using conn.terminates [OF assms(2)] by blast
  obtain up u where ru: "r = (up, u)" by fastforce
  from conn_read_end [OF assms(1) r] obtain "as" a v
    where v: "drained (tc_cli_fd c) s as v" "ret a \<le> 0" "up = gives_up a" "out u = out v"
      "trace u = trace v @ [(C_recv (tc_cli_fd c) (BUF_SIZE - 1), a)]"
    by (auto simp: read_end_def ru)
  show ?thesis
  proof (cases "gives_up a")
    case True
    then have "conn_process e c s =
        Some (log (L_closed_fd (tc_cli_fd c)) (removefd e (tc_epollfd c) (tc_cli_fd c) u))"
      using r v(3) by (simp add: conn_process_def ru)
    then show ?thesis using v True
      by (intro exI [of _ "log (L_closed_fd (tc_cli_fd c)) (removefd e (tc_epollfd c) (tc_cli_fd c) u)"]
            exI [of _ "as"] exI [of _ a]) (simp add: drained_def removefd_def)
  next
    case False
    then have "conn_process e c s =
        Some (extu e (C_send (tc_cli_fd c) ok_bytes) (extu e (C_sleep_ms 100) u))"
      using r v(3) by (simp add: conn_process_def ru)
    then show ?thesis using v False
      by (intro exI [of _ "extu e (C_send (tc_cli_fd c) ok_bytes) (extu e (C_sleep_ms 100) u)"]
            exI [of _ "as"] exI [of _ a]) (simp add: drained_def)
  qed
qed

theorem conn_process_serves_witness:
  "\<exists>t. conn_process script_env \<lparr>tc_epollfd = 4, tc_cli_fd = 7\<rparr>
      (proc0 (script {4, 7} [ok_with 2 (P_bytes [72, 105]), fail EAGAIN, ok 0, ok 2])) = Some t \<and>
    calls t = [C_recv 7 4095, C_recv 7 4095, C_sleep_ms 100, C_send 7 ok_bytes] \<and>
    out t = [L_recv 7 2 [72, 105]]"
proof -
  let ?c = "\<lparr>tc_epollfd = 4, tc_cli_fd = 7\<rparr>"
  let ?s = "proc0 (script {4, 7} [ok_with 2 (P_bytes [72, 105]), fail EAGAIN, ok 0, ok 2])"
  let ?u = "log (L_recv 7 2 [72, 105]) (extu script_env (C_recv 7 4095) ?s)"
  obtain t where t: "conn_process script_env ?c ?s = Some t"
    using conn_process_serves [OF script_recv_law script_recv_finite, of ?c ?s] by blast
  have "cstr (fill_buf (replicate 4096 0) [72, 105]) = [72, 105]"
    using cstr_fill_zeroed [of "[72, 105]" 4096] by (simp add: cstr_no_nul)
  then have "conn_read_body script_env 7 ?s = Inl ?u"
    by (simp add: conn_read_body_def Let_def split_beta proc0_def script_def script_step legal_def BUF_SIZE_def)
  moreover have "conn_read_body script_env 7 ?u = Inr (False, extu script_env (C_recv 7 4095) ?u)"
    by (simp add: conn_read_body_def Let_def split_beta proc0_def script_def script_step legal_def BUF_SIZE_def)
  ultimately have "conn_process script_env ?c ?s =
      Some (extu script_env (C_send 7 ok_bytes) (extu script_env (C_sleep_ms 100) (extu script_env (C_recv 7 4095) ?u)))"
    by (simp add: conn_process_def)
  then show ?thesis using t by (auto simp: proc0_def)
qed

lemma child_connect_total: "\<exists>r t. child_connect e f s = Some (r, t)"
  by (simp add: child_connect_def Let_def split_beta)

text \<open>
  C26. Taking over a connection, case by case. \<open>n\<close> is what reading the announcement returns and \<open>c\<close> what
  \<open>accept\<close> returns. Nothing is accepted when nothing could be read; a failed \<open>accept\<close> ends the round;
  a descriptor below 65536 is registered with the epoll instance, its own slot of \<open>users\<close>, and no other, then holds
  its number and the epoll instance, and an event on it is handed to exactly that connection; with a larger one the
  array is indexed out of range.
\<close>

theorem child_connect_slot:
  fixes s :: "'w pool_st" and e :: "'w env" and f :: fd
  assumes law: "fd_law tab e" and ends: "{f, fst (sig_pipefd s)} \<subseteq> tab (world s)"
  defines "n \<equiv> ret (fst (e (world s) (C_recv f 4)))"
    and "c \<equiv> ret (fst (e (snd (e (world s) (C_recv f 4))) (C_accept (listenfd s))))"
  shows "\<exists>r t l. child_connect e f s = Some (r, t) \<and> calls t = calls s @ C_recv f 4 # l \<and>
    (if n \<le> 0 then r = Ret True \<and> l = [] \<and> users t = users s
     else if c < 0 then r = Ret False \<and> l = [C_accept (listenfd s)] \<and> users t = users s
     else if c < USER_PER_PROCESS then r = Ret True \<and>
       (\<exists>l'. l = C_accept (listenfd s) # C_epoll_add (epollfd s) c EPOLLIN # l') \<and>
       users t = (users s)(c := \<lparr>tc_epollfd = epollfd s, tc_cli_fd = c\<rparr>) \<and>
       (\<forall>ev. ev AND EPOLLIN \<noteq> 0 \<longrightarrow> child_event e f (c, ev) t =
          map_option (Pair (Ret True)) (conn_process e \<lparr>tc_epollfd = epollfd s, tc_cli_fd = c\<rparr> t))
     else r = Undefined \<and> users t = users s)"
proof -
  let ?w = "snd (e (world s) (C_recv f 4))"
  have "tab ?w = tab (world s)" by (simp add: fd_law_tab [OF law])
  then have "c \<noteq> f" "c \<noteq> fst (sig_pipefd s)" if "0 \<le> c"
    using fd_law_fresh [OF law, of c "C_accept (listenfd s)" ?w] that ends unfolding c_def by auto
  then show ?thesis
    by (auto simp: n_def c_def child_connect_def Let_def split_beta user_index_def addfd_def conn_init_def
        setnonblocking_def child_event_def)
qed

theorem child_connect_slot_witness:
  "\<exists>t. child_connect script_env 9 (pool_of (script {3, 4, 5, 9} [ok_with 4 (P_bytes [1, 0, 0, 0]), ok 8]) [] 0) =
      Some (Ret True, t) \<and> users t 8 = \<lparr>tc_epollfd = 4, tc_cli_fd = 8\<rparr>"
proof -
  let ?s = "pool_of (script {3, 4, 5, 9} [ok_with 4 (P_bytes [1, 0, 0, 0]), ok 8]) [] 0"
  have "{9, fst (sig_pipefd ?s)} \<subseteq> s_open (world ?s)" by (simp add: script_def)
  from child_connect_slot [OF script_fd_law this] show ?thesis
    by (auto simp: script_def script_step legal_def USER_PER_PROCESS_def)
qed

section \<open>A child serves its own connections\<close>

text \<open>
  The descriptors whose slot in \<open>users\<close> holds their own number, and the ones a child can be
  notified about: its two pipes and those.
\<close>

definition served :: "'w pool_st \<Rightarrow> fd set" where
  "served s = {f. user_index f \<and> users s f = \<lparr>tc_epollfd = epollfd s, tc_cli_fd = f\<rparr>}"

definition known :: "fd \<Rightarrow> 'w pool_st \<Rightarrow> fd set" where
  "known pipefd s = {pipefd, fst (sig_pipefd s)} \<union> served s"

text \<open>
  The invariant of the child loop, started in \<open>s0\<close>, while it handles events on \<open>E\<close>:
  everything watched is known, and all it has sent is \<open>"OK"\<close> to connections it serves.
\<close>

definition child_inv :: "('w \<Rightarrow> fd set) \<Rightarrow> fd \<Rightarrow> fd set \<Rightarrow> 'w pool_st \<Rightarrow> 'w pool_st \<Rightarrow> bool" where
  "child_inv reg pipefd E s0 s \<longleftrightarrow>
     listenfd s = listenfd s0 \<and> reg (world s) \<union> E \<subseteq> known pipefd s \<and>
     (\<exists>l. trace s = trace s0 @ l \<and>
        (\<forall>f bs. C_send f bs \<in> set (map fst l) \<longrightarrow> bs = ok_bytes \<and> f \<in> served s))"

definition huge_accept :: "'w pool_st \<Rightarrow> 'w pool_st \<Rightarrow> bool" where
  "huge_accept s0 s \<longleftrightarrow>
     (\<exists>a. (C_accept (listenfd s0), a) \<in> set (trace s) \<and> USER_PER_PROCESS \<le> ret a)"

lemma child_inv_ext:
  assumes "epoll_law reg e" and "child_inv reg p E s0 s" and "watched c = {}"
    and "\<And>f bs. c = C_send f bs \<Longrightarrow> bs = ok_bytes \<and> f \<in> served s"
  shows "child_inv reg p E s0 (extu e c s)"
proof -
  have "served (extu e c s) = served s" "known p (extu e c s) = known p s"
    by (simp_all add: served_def known_def)
  moreover have "reg (snd (e (world s) c)) \<subseteq> reg (world s)"
    using assms(1,3) by (auto simp: epoll_law_def)
  moreover obtain l where "trace s = trace s0 @ l"
    "\<forall>f bs. C_send f bs \<in> set (map fst l) \<longrightarrow> bs = ok_bytes \<and> f \<in> served s"
    using assms(2) by (auto simp: child_inv_def)
  ultimately show ?thesis
    using assms(2,4) unfolding child_inv_def by (auto intro!: exI [of _ "l @ [(c, fst (e (world s) c))]"])
qed

lemma child_inv_same:
  assumes "child_inv reg p E s0 s" and "world t = world s" "trace t = trace s" "users t = users s"
    "epollfd t = epollfd s" "listenfd t = listenfd s" "sig_pipefd t = sig_pipefd s"
  shows "child_inv reg p E s0 t"
  using assms by (simp add: child_inv_def known_def served_def)

lemma child_inv_log: "child_inv reg p E s0 s \<Longrightarrow> child_inv reg p E s0 (log l s)"
  by (rule child_inv_same) simp_all

lemma child_inv_nonblocking:
  assumes "epoll_law reg e" and "child_inv reg p E s0 s"
  shows "child_inv reg p E s0 (snd (setnonblocking e f s))"
  unfolding setnonblocking_def Let_def split_beta snd_conv
  by (intro child_inv_ext [OF assms(1)] assms) simp_all

lemmas child_inv_intros = child_inv_ext child_inv_log child_inv_nonblocking

lemma child_reap_inv:
  assumes "epoll_law reg e" and "loop_until (child_reap_body e) s = Some t" and "child_inv reg p E s0 s"
  shows "child_inv reg p E s0 t"
  by (rule loop_until_invariant [OF assms(2), where P = "child_inv reg p E s0"])
     (use assms(1,3) in \<open>auto simp: child_reap_body_def Let_def split_beta split: if_splits intro!: child_inv_ext\<close>)

lemma child_signal_inv:
  assumes "epoll_law reg e" and "child_signal e b s = Some (r, t)" and "child_inv reg p E s0 s"
  shows "child_inv reg p E s0 t"
  using assms(2,3) child_reap_inv [OF assms(1)]
  by (auto simp: child_signal_def Let_def split: if_splits intro: child_inv_same)

lemma child_sig_body_inv:
  assumes "epoll_law reg e" and "child_inv reg p E s0 s"
  shows "child_sig_body e s = Inl t \<Longrightarrow> child_inv reg p E s0 t"
    and "child_sig_body e s = Inr (Some t) \<Longrightarrow> child_inv reg p E s0 t"
proof -
  let ?u = "extu e (C_recv (fst (sig_pipefd s)) 1024) s"
  have u: "child_inv reg p E s0 ?u" using assms by (intro child_inv_ext) auto
  show "child_inv reg p E s0 t" if "child_sig_body e s = Inr (Some t)"
    using that u by (auto simp: child_sig_body_def Let_def split_beta split: if_splits option.splits)
  show "child_inv reg p E s0 t" if "child_sig_body e s = Inl t"
  proof -
    have "\<exists>bs r. for_each (child_signal e) bs ?u = Some (r, t)"
      using that
      by (cases "for_each (child_signal e) (take (nat (ret (fst (e (world s) (C_recv (fst (sig_pipefd s)) 1024)))))
            (bytes_of (payload (fst (e (world s) (C_recv (fst (sig_pipefd s)) 1024)))))) ?u")
         (auto simp: child_sig_body_def Let_def split_beta split: if_splits, blast)
    then obtain r bs where "for_each (child_signal e) bs ?u = Some (r, t)" by blast
    then show ?thesis
      by (rule for_each_invariant) (use u child_signal_inv [OF assms(1)] in blast)+
  qed
qed

lemma conn_process_inv:
  assumes "epoll_law reg e" and "conn_process e c s = Some t" and "child_inv reg p E s0 s"
    and "tc_cli_fd c \<in> served s"
  shows "child_inv reg p E s0 t"
proof -
  let ?P = "\<lambda>u. child_inv reg p E s0 u \<and> tc_cli_fd c \<in> served u"
  have P: "?P (extu e d u)" if "?P u" "watched d = {}" "\<And>f bs. d = C_send f bs \<Longrightarrow> bs = ok_bytes \<and> f = tc_cli_fd c"
    for d u using that child_inv_ext [OF assms(1), of p E s0 u d] by (auto simp: served_def)
  have L: "?P (log l u)" if "?P u" for l u using that child_inv_log by (auto simp: served_def)
  obtain r where r: "loop_until (conn_read_body e (tc_cli_fd c)) s = Some r"
    "t = (if fst r then log (L_closed_fd (tc_cli_fd c)) (removefd e (tc_epollfd c) (tc_cli_fd c) (snd r))
          else extu e (C_send (tc_cli_fd c) ok_bytes) (extu e (C_sleep_ms 100) (snd r)))"
    using assms(2) by (auto simp: conn_process_def split_beta)
  have "?P (snd r)"
    by (rule loop_until_invariant [OF r(1), where P = ?P])
       (use assms(3,4) in \<open>auto simp: conn_read_body_def Let_def split_beta split: if_splits
          intro!: P [THEN conjunct1] P [THEN conjunct2] L [THEN conjunct1] L [THEN conjunct2]\<close>)
  then have "?P (log (L_closed_fd (tc_cli_fd c)) (removefd e (tc_epollfd c) (tc_cli_fd c) (snd r)))"
    "?P (extu e (C_send (tc_cli_fd c) ok_bytes) (extu e (C_sleep_ms 100) (snd r)))"
    unfolding removefd_def by ((intro L P; simp)+)
  then show ?thesis unfolding r(2) by (cases "fst r") simp_all
qed

text \<open>A new connection is registered and at once stored in its own slot.\<close>

lemma child_take_over_inv:
  assumes "epoll_law reg e" and "child_inv reg p E s0 s" and "user_index c"
  shows "child_inv reg p E s0 (conn_init e c (epollfd s) c (addfd e (epollfd s) c False s))"
proof -
  let ?a = "extu e (C_epoll_add (epollfd s) c EPOLLIN) s"
  let ?b = "snd (setnonblocking e c ?a)"
  let ?u = "?b\<lparr>users := (users s)(c := \<lparr>tc_epollfd = epollfd s, tc_cli_fd = c\<rparr>)\<rparr>"
  have more: "served s \<subseteq> served ?u" "c \<in> served ?u" "known p s \<subseteq> known p ?u"
    using assms(3) by (auto simp: served_def known_def)
  have q: "reg (snd (e w d)) \<subseteq> reg w \<union> watched d" for w d using assms(1) by (simp add: epoll_law_def)
  have "reg (world ?b) \<subseteq> insert c (reg (world s))"
    using q [of "world s" "C_epoll_add (epollfd s) c EPOLLIN"] q [of "world ?a" "C_getfl c"]
      q [of "world (extu e (C_getfl c) ?a)" "C_setfl c (ret (fst (e (world ?a) (C_getfl c))) OR O_NONBLOCK)"]
    by (auto simp: setnonblocking_def Let_def split_beta)
  then have regs: "reg (world ?u) \<union> E \<subseteq> known p ?u"
    using assms(2) more by (auto simp: child_inv_def known_def)
  obtain l where l: "trace s = trace s0 @ l"
    "\<forall>f bs. C_send f bs \<in> set (map fst l) \<longrightarrow> bs = ok_bytes \<and> f \<in> served s"
    using assms(2) by (auto simp: child_inv_def)
  obtain l' where l': "trace ?u = trace s @ l'" "\<forall>f bs. C_send f bs \<notin> set (map fst l')"
    by (simp add: setnonblocking_def Let_def split_beta)
  have "bs = ok_bytes \<and> f \<in> served ?u" if "C_send f bs \<in> set (map fst (l @ l'))" for f bs
  proof -
    have "C_send f bs \<in> set (map fst l)" using that l'(2) by (auto simp del: set_map simp: image_Un)
    then show ?thesis using l(2) more(1) by blast
  qed
  moreover have "trace ?u = trace s0 @ l @ l'" using l(1) l'(1) by simp
  ultimately have "trace ?u = trace s0 @ l @ l' \<and>
      (\<forall>f bs. C_send f bs \<in> set (map fst (l @ l')) \<longrightarrow> bs = ok_bytes \<and> f \<in> served ?u)"
    by blast
  then have "child_inv reg p E s0 ?u"
    using assms(2) regs unfolding child_inv_def by simp blast
  then show ?thesis
    using child_inv_nonblocking [OF assms(1), of p E s0 ?u c]
    by (simp add: conn_init_def addfd_def Let_def)
qed

lemma child_connect_inv:
  fixes s :: "'w pool_st"
  assumes "epoll_law reg e" and "child_inv reg p E s0 s" and "child_connect e f s = Some r"
  shows "ends (child_inv reg p E s0) (huge_accept s0) r"
proof -
  let ?t = "log (L_text ''Received connection distribution from main process.'') (extu e (C_recv f 4) s)"
  let ?b = "fst (e (world ?t) (C_accept (listenfd s)))"
  let ?u = "extu e (C_accept (listenfd s)) ?t"
  have recv: "child_inv reg p E s0 (extu e (C_recv f 4) s)" "child_inv reg p E s0 ?t"
    using assms(1,2) by (auto intro!: child_inv_intros)
  then have u: "child_inv reg p E s0 ?u" using assms(1) by (intro child_inv_ext) auto
  have conn: "child_inv reg p E s0 (log (L_connected (ret ?b)) ?u)" using u by (rule child_inv_log)
  have lfd: "listenfd s = listenfd s0" using assms(2) by (simp add: child_inv_def)
  consider "ret (fst (e (world s) (C_recv f 4))) \<le> 0" "r = (Ret True, extu e (C_recv f 4) s)"
    | "ret ?b < 0" "r = (Ret False, log (L_accept_failed (errno ?u)) ?u)"
    | "user_index (ret ?b)" "r = (Ret True, conn_init e (ret ?b) (epollfd s) (ret ?b)
        (addfd e (epollfd s) (ret ?b) False (log (L_connected (ret ?b)) ?u)))"
    | "0 \<le> ret ?b" "\<not> user_index (ret ?b)"
      "r = (Undefined, addfd e (epollfd s) (ret ?b) False (log (L_connected (ret ?b)) ?u))"
    using assms(3) by (fastforce simp: child_connect_def Let_def split_beta split: if_splits)
  then show ?thesis
  proof cases
    case 3
    then show ?thesis using child_take_over_inv [OF assms(1) conn, of "ret ?b"] by simp
  next
    case 4
    have "(C_accept (listenfd s0), ?b) \<in> set (trace (snd r))"
      using 4 by (simp add: addfd_def setnonblocking_def Let_def split_beta lfd)
    moreover have "USER_PER_PROCESS \<le> ret ?b" using 4 by (simp add: user_index_def)
    ultimately have "huge_accept s0 (snd r)" unfolding huge_accept_def by blast
    then show ?thesis using 4 by simp
  qed (use recv u in \<open>simp_all add: child_inv_log\<close>)
qed

lemma child_event_inv:
  assumes "epoll_law reg e" and "child_inv reg p E s0 s" and "fst ev \<in> E"
    and "child_event e p ev s = Some r"
  shows "ends (child_inv reg p E s0) (huge_accept s0) r"
proof -
  have known: "fst ev \<in> known p s" using assms(2,3) by (auto simp: child_inv_def)
  let ?in = "snd ev AND EPOLLIN \<noteq> 0"
  consider "?in" "fst ev = p" | "?in" "fst ev \<noteq> p" "fst ev = fst (sig_pipefd s)"
    | "?in" "fst ev \<noteq> p" "fst ev \<noteq> fst (sig_pipefd s)" "fst ev \<in> served s" | "\<not> ?in"
    using known by (auto simp: known_def)
  then show ?thesis
  proof cases
    case 1
    then have "child_connect e (fst ev) s = Some r" using assms(4) by (simp add: child_event_def)
    then show ?thesis by (rule child_connect_inv [OF assms(1,2)])
  next
    case 2
    then obtain t where t: "loop_until (child_sig_body e) s = Some (Some t)" "r = (Ret True, t)"
      using assms(4) by (auto simp: child_event_def split: option.splits)
    have "\<forall>u. Some t = Some u \<longrightarrow> child_inv reg p E s0 u"
      by (rule loop_until_invariant [OF t(1), where P = "child_inv reg p E s0"
            and Q = "\<lambda>r. \<forall>u. r = Some u \<longrightarrow> child_inv reg p E s0 u"])
         (use assms(2) child_sig_body_inv [OF assms(1)] in blast)+
    then show ?thesis using t(2) by simp
  next
    case 3
    then have own: "user_index (fst ev)" "tc_cli_fd (users s (fst ev)) \<in> served s"
      by (simp_all add: served_def)
    have "map_option (Pair (Ret True)) (conn_process e (users s (fst ev)) s) = Some r"
      using assms(4) 3(1-3) own(1) by (simp add: child_event_def)
    then obtain t where "conn_process e (users s (fst ev)) s = Some t" "r = (Ret True, t)" by blast
    with own(2) show ?thesis using conn_process_inv [OF assms(1) _ assms(2)] by simp
  next
    case 4
    then have "r = (Ret True, s)" using assms(4) by (simp add: child_event_def)
    then show ?thesis using assms(2) by simp
  qed
qed

lemma ends_resume: "resume r = Some q \<Longrightarrow> (\<And>x. r = Some x \<Longrightarrow> ends P B x) \<Longrightarrow> ends P B q"
  by (cases r rule: resume.cases) auto

lemma child_round_inv:
  fixes s :: "'w pool_st"
  assumes "epoll_law reg e" and "child_inv reg p {} s0 s" and "child_round e p s = Some r"
  shows "ends (child_inv reg p {} s0) (huge_accept s0) r"
proof -
  let ?c = "C_epoll_wait (epollfd s) MAX_EVENT_NUMBER (-1)"
  let ?a = "fst (e (world s) ?c)"
  let ?evs = "take (nat (ret ?a)) (events_of (payload ?a))"
  let ?u = "extu e ?c s"
  have u: "child_inv reg p {} s0 ?u" using assms(1,2) by (intro child_inv_ext) auto
  have "fst ` set ?evs \<subseteq> reg (world s)"
    using assms(1) set_take_subset [of "nat (ret ?a)" "events_of (payload ?a)"]
    unfolding epoll_law_def by blast
  then have evs: "child_inv reg p (fst ` set ?evs) s0 ?u"
    using u assms(2) by (auto simp: child_inv_def known_def served_def)
  have weak: "child_inv reg p (fst ` set ?evs) s0 v \<Longrightarrow> child_inv reg p {} s0 v" for v
    by (auto simp: child_inv_def)
  have loop: "ends (child_inv reg p (fst ` set ?evs) s0) (huge_accept s0) x"
    if "for_each (child_event e p) ?evs ?u = Some x" for x
    by (rule for_each_ends [OF that, of "child_inv reg p (fst ` set ?evs) s0", OF evs])
       (use child_event_inv [OF assms(1)] in blast)
  then have loop': "ends (child_inv reg p {} s0) (huge_accept s0) x"
    if "for_each (child_event e p) ?evs ?u = Some x" for x
    using that weak by (cases "fst x"; cases x) fastforce+
  show ?thesis
  proof (cases "ret ?a < 0 \<and> errno ?u \<noteq> EINTR")
    case True
    then have "r = (Ret False, log (L_wait_failed (errno ?u)) ?u)"
      using assms(3) unfolding child_round_def Let_def split_beta fst_ext by (simp only: simp_thms if_True option.inject)
    then show ?thesis using u by (simp add: child_inv_log)
  next
    case False
    then have "resume (for_each (child_event e p) ?evs ?u) = Some r"
      using assms(3) unfolding child_round_def Let_def split_beta fst_ext by (simp only: if_False)
    then show ?thesis using loop' by (rule ends_resume)
  qed
qed

text \<open>
  C23. A child never mixes its connections up: through any number of rounds in which \<open>accept\<close>
  returns descriptors below 65536, everything it is notified about is one of its two pipes or a
  connection stored in the slot of its own number, and all it ever sends is \<open>"OK"\<close> to such a
  connection. The loop leaves the defined behaviour only after a larger descriptor.
\<close>

theorem child_serves_own_connections:
  fixes s :: "'w pool_st"
  assumes "epoll_law reg e" and "reg (world s) \<subseteq> known pipefd s"
    and "while_rounds (\<lambda>s. \<not> stop s) (child_round e pipefd) k s = Some (r, t)"
  shows "(\<exists>b l. r = Ret b \<and> trace t = trace s @ l \<and> reg (world t) \<subseteq> known pipefd t \<and>
      (\<forall>f bs. C_send f bs \<in> set (map fst l) \<longrightarrow> bs = ok_bytes \<and> f \<in> served t)) \<or>
    (\<exists>a. (C_accept (listenfd s), a) \<in> set (trace t) \<and> USER_PER_PROCESS \<le> ret a)"
proof -
  have "child_inv reg pipefd {} s s" using assms(2) by (auto simp: child_inv_def)
  then have "ends (child_inv reg pipefd {} s) (huge_accept s) (r, t)"
    by (rule while_rounds_ends [OF assms(3)]) (use child_round_inv [OF assms(1)] in blast)
  then show ?thesis by (cases r) (auto simp: child_inv_def huge_accept_def)
qed

theorem child_serves_own_connections_witness:
  "\<exists>t. while_rounds (\<lambda>s. \<not> stop s) (child_round script_env 9) 1
      (pool_of \<lparr>s_open = {3, 4, 5, 9}, s_reg = {5, 9}, s_answers =
         [ok_with 1 (P_events [(9, EPOLLIN)]), ok_with 4 (P_bytes [1, 0, 0, 0]), ok 7]\<rparr> [] 0)
      = Some (Ret True, t) \<and> 7 \<in> s_reg (world t) \<and> 7 \<in> served t"
proof -
  let ?s = "pool_of \<lparr>s_open = {3, 4, 5, 9}, s_reg = {5, 9}, s_answers =
         [ok_with 1 (P_events [(9, EPOLLIN)]), ok_with 4 (P_bytes [1, 0, 0, 0]), ok 7]\<rparr> [] 0"
  let ?u = "extu script_env (C_epoll_wait 4 MAX_EVENT_NUMBER (-1)) ?s"
  have "case child_connect script_env 9 ?u of None \<Rightarrow> False
    | Some (r, t) \<Rightarrow> r = Ret True \<and> 7 \<in> s_reg (world t) \<and> fst (sig_pipefd t) = 5 \<and>
        \<not> list_ex (\<lambda>(c, a). c = C_accept 3 \<and> USER_PER_PROCESS \<le> ret a) (trace t)"
    by code_simp
  then obtain t where "child_connect script_env 9 ?u = Some (Ret True, t)"
    and watched: "7 \<in> s_reg (world t)" and sig: "fst (sig_pipefd t) = 5"
    and calls: "\<not> list_ex (\<lambda>(c, a). c = C_accept 3 \<and> USER_PER_PROCESS \<le> ret a) (trace t)"
    by (auto split: option.splits)
  then have "child_event script_env 9 (9, EPOLLIN) ?u = Some (Ret True, t)"
    by (simp add: child_event_def mask_defs)
  then have "child_round script_env 9 ?s = Some (Ret True, t)"
    by (simp add: child_round_def Let_def split_beta script_step legal_def)
  then have run: "while_rounds (\<lambda>s. \<not> stop s) (child_round script_env 9) 1 ?s = Some (Ret True, t)"
    by simp
  have "s_reg (world ?s) \<subseteq> known 9 ?s" by (simp add: known_def)
  from child_serves_own_connections [OF script_epoll_law this run] calls
  have "s_reg (world t) \<subseteq> known 9 t" by (auto simp: list_ex_iff)
  then have "7 \<in> served t" using watched sig by (auto simp: known_def)
  then show ?thesis using run watched by blast
qed

end
