(* ===== verification/ProcPoolParent.thy ===== *)
theory ProcPoolParent
  imports ProcPool
begin

text \<open>
  The whole life of the parent of the process pool (\<open>run\<close> and \<open>run_parent\<close> of
  epoll_half_sync_reactive_proc_pool_server.hpp): the types of its state hold from the fork loop on, every
  round returns, and it never signals anything but a child.
\<close>

section \<open>The type of the parent's state\<close>

text \<open>
  Every index the parent's loops use is inside the array, and an entry holds \<open>-1\<close> or the positive id of a
  process: \<open>kill\<close> with \<open>0\<close> or a negative number would reach other processes.
\<close>

fun kills_one :: "extcall \<Rightarrow> bool" where
  "kills_one (C_kill pid sig) \<longleftrightarrow> 0 < pid"
| "kills_one c \<longleftrightarrow> True"

definition pool_type :: "int \<Rightarrow> 'w pool_st \<Rightarrow> 'w pool_st \<Rightarrow> bool" where
  "pool_type n s0 s \<longleftrightarrow>
     0 < n \<and> process_number s = n \<and> length (sub_process s) = nat n \<and>
     (\<forall>p \<in> set (sub_process s). m_pid p = -1 \<or> 0 < m_pid p) \<and>
     (\<exists>l. trace s = trace s0 @ l \<and> (\<forall>c \<in> fst ` set l. kills_one c))"

definition parent_type :: "int \<Rightarrow> 'w pool_st \<Rightarrow> 'w pool_st \<Rightarrow> bool" where
  "parent_type n s0 s \<longleftrightarrow> pool_type n s0 s \<and> sub_process_counter s < nat n"

lemma parent_type_ok: "parent_type n s0 s \<Longrightarrow> parent_ok s"
  by (auto simp: parent_type_def pool_type_def parent_ok_def)

lemma pool_type_intros:
  assumes "pool_type n s0 s"
  shows "kills_one c \<Longrightarrow> pool_type n s0 (extu e c s)" "pool_type n s0 (log l s)"
    "pool_type n s0 (s\<lparr>epollfd := f\<rparr>)" "pool_type n s0 (s\<lparr>sig_pipefd := q\<rparr>)" "pool_type n s0 (s\<lparr>stop := b\<rparr>)"
    "pool_type n s0 (s\<lparr>sub_process_counter := k\<rparr>)"
  using assms by (auto simp: pool_type_def)

lemma pool_type_nonblocking: "pool_type n s0 s \<Longrightarrow> pool_type n s0 (snd (setnonblocking e f s))"
  by (simp add: setnonblocking_def Let_def split_beta pool_type_intros)

lemma pool_type_addfd: "pool_type n s0 s \<Longrightarrow> pool_type n s0 (addfd e ep f et s)"
  by (simp add: addfd_def Let_def pool_type_nonblocking pool_type_intros)

lemma parent_type_intros:
  assumes "parent_type n s0 s"
  shows "kills_one c \<Longrightarrow> parent_type n s0 (extu e c s)" "parent_type n s0 (log l s)"
    "parent_type n s0 (s\<lparr>stop := b\<rparr>)" "k < nat n \<Longrightarrow> parent_type n s0 (s\<lparr>sub_process_counter := k\<rparr>)"
  using assms by (simp_all add: parent_type_def pool_type_intros)

section \<open>Handlers that return and keep the type\<close>

text \<open>A handler that always returns, and in a state with the property again.\<close>

definition keeps :: "('s \<Rightarrow> bool) \<Rightarrow> ('s \<Rightarrow> (bool outcome \<times> 's) option) \<Rightarrow> bool" where
  "keeps P h \<longleftrightarrow> (\<forall>s. P s \<longrightarrow> (\<exists>b t. h s = Some (Ret b, t) \<and> P t))"

lemma keepsD: "keeps P h \<Longrightarrow> P s \<Longrightarrow> \<exists>b t. h s = Some (Ret b, t) \<and> P t"
  by (simp add: keeps_def)

text \<open>A loop over a list, when what holds depends on what is left of the list; \<open>False\<close> is a \<open>break\<close>.\<close>

lemma for_each_consumes:
  assumes "\<And>x xs s. P (x # xs) s \<Longrightarrow> \<exists>b t. h x s = Some (Ret b, t) \<and> P (if b then xs else []) t" and "P xs s"
  shows "\<exists>t. for_each h xs s = Some (Ret (), t) \<and> P [] t"
  using assms(2)
proof (induction xs arbitrary: s)
  case (Cons x xs)
  then obtain b t where t: "h x s = Some (Ret b, t)" "P (if b then xs else []) t" using assms(1) by blast
  then show ?case using Cons.IH [of t] by (cases b) auto
qed simp

lemma for_each_keeps:
  assumes "\<And>x. keeps P (h x)"
  shows "keeps P (\<lambda>s. resume (for_each h xs s))"
  unfolding keeps_def
proof (intro allI impI)
  fix s assume "P s"
  then obtain t where "for_each h xs s = Some (Ret (), t)" "P t"
    using for_each_consumes [of "\<lambda>_. P" h xs s] keepsD [OF assms] by blast
  then show "\<exists>b t. resume (for_each h xs s) = Some (Ret b, t) \<and> P t" by (intro exI [of _ True] exI [of _ t]) simp
qed

lemma while_rounds_keeps:
  assumes "keeps P body"
  shows "keeps P (while_rounds c body k)"
proof -
  have "\<exists>b t. while_rounds c body k s = Some (Ret b, t) \<and> P t" if "P s" for s
    using that
  proof (induction k arbitrary: s)
    case (Suc k)
    obtain b t where t: "body s = Some (Ret b, t)" "P t" using keepsD [OF assms Suc.prems] by blast
    then show ?case using Suc.IH [OF t(2)] Suc.prems by (cases b) auto
  qed auto
  then show ?thesis by (simp add: keeps_def)
qed

lemma parent_listen_keeps: "keeps (parent_type n s0) (parent_listen e)"
  unfolding keeps_def
proof (intro allI impI)
  fix s assume s: "parent_type n s0 s"
  let ?n = "children s"
  obtain j where j: "j < ?n" "pick_child (sub_process s) ?n (sub_process_counter s) = Some j"
    using pick_child_total [of "sub_process_counter s" ?n "sub_process s"] s by (auto simp: parent_type_def pool_type_def)
  have "next_index ?n j < nat n" using j(1) s by (simp add: parent_type_def pool_type_def next_index_def)
  then show "\<exists>b t. parent_listen e s = Some (Ret b, t) \<and> parent_type n s0 t"
    using s j(2) by (auto simp: parent_listen_def Let_def intro!: parent_type_intros)
qed

lemma reaps_type:
  assumes "reaps s t l" and "parent_type n s0 s"
  shows "parent_type n s0 t"
proof -
  have "\<forall>c \<in> fst ` set l. kills_one c"
  proof
    fix c assume "c \<in> fst ` set l"
    then have "c = C_waitpid \<or> c \<in> pipe_closes (reaped l) (sub_process s)"
      using assms(1) unfolding reaps_def by auto
    then show "kills_one c" by (auto simp: pipe_closes_def)
  qed
  moreover obtain l0 where "trace s = trace s0 @ l0" "\<forall>c \<in> fst ` set l0. kills_one c"
    using assms(2) by (auto simp: parent_type_def pool_type_def)
  ultimately show ?thesis
    using assms by (auto simp: parent_type_def pool_type_def reaps_def mark_def intro!: exI [of _ "l0 @ l"])
qed

lemma parent_kill_type: "parent_type n s0 s \<Longrightarrow> parent_type n s0 (parent_kill e s)"
proof -
  assume s: "parent_type n s0 s"
  have "parent_type n s0 (fold (kill_child e) ks u)" if "parent_type n s0 u" "\<forall>k \<in> set ks. k < children u" for ks u
    using that
  proof (induction ks arbitrary: u)
    case (Cons k ks)
    have "k < length (sub_process u)" using Cons.prems by (simp add: parent_type_def pool_type_def)
    then have "m_pid (sub_process u ! k) = -1 \<or> 0 < m_pid (sub_process u ! k)"
      using Cons.prems(1) unfolding parent_type_def pool_type_def by (meson nth_mem)
    then have "parent_type n s0 (kill_child e k u)"
      using Cons.prems(1) by (auto simp: kill_child_def Let_def intro: parent_type_intros(1))
    moreover have "process_number (kill_child e k u) = process_number u" by (simp add: kill_child_def Let_def)
    ultimately show ?case using Cons by simp
  qed simp
  then show ?thesis using s by (simp add: parent_kill_def parent_type_intros(2))
qed

lemma parent_signal_keeps:
  assumes "waitpid_finite kids e"
  shows "keeps (parent_type n s0) (parent_signal e b)"
  unfolding keeps_def
proof (intro allI impI)
  fix s assume s: "parent_type n s0 s"
  then obtain t l where "parent_sigchld e s = Some t" "reaps s t l"
    using parent_sigchld_runs [OF assms parent_type_ok] by blast
  then show "\<exists>c t. parent_signal e b s = Some (Ret c, t) \<and> parent_type n s0 t"
    using s reaps_type [of s t l n s0] by (auto simp: parent_signal_def Let_def intro: parent_kill_type)
qed

lemma parent_event_keeps:
  assumes "waitpid_finite kids e"
  shows "keeps (parent_type n s0) (parent_event e ev)"
  unfolding keeps_def
proof (intro allI impI)
  fix s assume s: "parent_type n s0 s"
  let ?c = "C_recv (fst (sig_pipefd s)) 1024"
  let ?bs = "take (nat (ret (fst (e (world s) ?c)))) (bytes_of (payload (fst (e (world s) ?c))))"
  have u: "parent_type n s0 (extu e ?c s)" using s by (intro parent_type_intros(1)) simp_all
  from keepsD [OF parent_listen_keeps s] keepsD [OF for_each_keeps [where xs = ?bs, OF parent_signal_keeps [OF assms]] u] u s
  show "\<exists>b t. parent_event e ev s = Some (Ret b, t) \<and> parent_type n s0 t"
    by (auto simp: parent_event_def Let_def split_beta)
qed

lemma parent_round_keeps:
  assumes "waitpid_finite kids e"
  shows "keeps (parent_type n s0) (parent_round e)"
  unfolding keeps_def
proof (intro allI impI)
  fix s assume "parent_type n s0 s"
  then have s: "parent_type n s0 (log (L_text ''before'') s)" by (rule parent_type_intros(2))
  define v where "v = log (L_text ''before'') s"
  let ?c = "C_epoll_wait (epollfd s) MAX_EVENT_NUMBER (-1)"
  let ?evs = "take (nat (ret (fst (e (world v) ?c)))) (events_of (payload (fst (e (world v) ?c))))"
  have u: "parent_type n s0 (extu e ?c v)" using s unfolding v_def by (intro parent_type_intros(1)) simp_all
  have "parent_round e s =
     (if ret (fst (e (world v) ?c)) < 0 \<and> errno (extu e ?c v) \<noteq> EINTR
      then Some (Ret False, log (L_wait_failed (errno (extu e ?c v))) (extu e ?c v))
      else resume (for_each (parent_event e) ?evs (extu e ?c v)))"
    by (simp add: parent_round_def Let_def split_beta v_def)
  then show "\<exists>b t. parent_round e s = Some (Ret b, t) \<and> parent_type n s0 t"
    using keepsD [OF for_each_keeps [where xs = ?evs, OF parent_event_keeps [OF assms]] u] parent_type_intros(2) [OF u] by auto
qed

section \<open>Taking turns\<close>

text \<open>How many events on the listening socket \<open>lf\<close> the calls of a trace reported.\<close>

fun reported :: "fd \<Rightarrow> extcall \<times> answer \<Rightarrow> nat" where
  "reported lf (C_epoll_wait ep n t, a) = count_if (\<lambda>ev. fst ev = lf) (take (nat (ret a)) (events_of (payload a)))"
| "reported lf c = 0"

definition listen_events :: "fd \<Rightarrow> (extcall \<times> answer) list \<Rightarrow> nat" where
  "listen_events lf l = sum_list (map (reported lf) l)"

text \<open>
  \<open>js\<close> are the children told of a connection by the calls \<open>l\<close>, in order. They had their turns in laps. While some
  child is in the table, every event on the listening socket has led to a turn, but for the \<open>pending\<close> ones; and
  while all are, the turns go round from the counter on.
\<close>

definition turns_taken :: "'w pool_st \<Rightarrow> 'w pool_st \<Rightarrow> (extcall \<times> answer) list \<Rightarrow> nat list \<Rightarrow> nat \<Rightarrow> bool" where
  "turns_taken s0 s l js pending \<longleftrightarrow>
     filter is_send (map fst l) = map (\<lambda>j. C_send (fst (m_pipefd (sub_process s0 ! j))) new_conn_bytes) js \<and>
     (\<forall>j \<in> set js. j < children s0 \<and> alive s0 j) \<and>
     dealt (alive s) (children s0) (sub_process_counter s)
       (\<lambda>i. count_list js i + (if i < sub_process_counter s0 then 1 else 0)) \<and>
     ((\<exists>i < children s0. alive s i) \<longrightarrow> length js + pending = listen_events (listenfd s0) l) \<and>
     ((\<forall>i < children s0. alive s i) \<longrightarrow>
        js = map (\<lambda>i. (sub_process_counter s0 + i) mod children s0) [0..<length js] \<and>
        sub_process_counter s = (sub_process_counter s0 + length js) mod children s0)"

definition same_pool :: "'w pool_st \<Rightarrow> 'w pool_st \<Rightarrow> bool" where
  "same_pool s t \<longleftrightarrow> process_number t = process_number s \<and> listenfd t = listenfd s \<and>
     length (sub_process t) = length (sub_process s) \<and>
     (\<forall>i < length (sub_process s). m_pipefd (sub_process t ! i) = m_pipefd (sub_process s ! i) \<and> (alive t i \<longrightarrow> alive s i))"

definition deals :: "'w pool_st \<Rightarrow> nat \<Rightarrow> 'w pool_st \<Rightarrow> bool" where
  "deals s0 pending s \<longleftrightarrow> parent_ok s \<and> same_pool s0 s \<and>
     (\<exists>l js. trace s = trace s0 @ l \<and> turns_taken s0 s l js pending)"

lemma deals_start: "parent_ok s \<Longrightarrow> deals s 0 s"
  unfolding deals_def same_pool_def turns_taken_def
  by (auto simp: dealt_def listen_events_def parent_ok_def intro!: exI [of _ "[]"])

lemma listen_events_append [simp]: "listen_events lf (l @ l') = listen_events lf l + listen_events lf l'"
  by (simp add: listen_events_def)

lemma same_pool_trans: "same_pool r s \<Longrightarrow> same_pool s t \<Longrightarrow> same_pool r t"
  by (simp add: same_pool_def)

text \<open>Everything but \<open>parent_listen\<close> leaves the turns alone.\<close>

lemma deals_frame:
  fixes s :: "'w pool_st"
  assumes "deals s0 m s" and "same_pool s t" and "sub_process_counter t = sub_process_counter s"
    and "trace t = trace s @ l" and "filter is_send (map fst l) = []"
  shows "deals s0 (m + listen_events (listenfd s0) l) t"
proof -
  obtain l0 js where tr: "trace s = trace s0 @ l0" and tk: "turns_taken s0 s l0 js m" using assms(1) by (auto simp: deals_def)
  have ok: "parent_ok s" "same_pool s0 s" using assms(1) by (auto simp: deals_def)
  then have n: "length (sub_process s) = children s0" by (simp add: parent_ok_def same_pool_def)
  have alive: "alive s i" if "i < children s0" "alive t i" for i using assms(2) that n by (simp add: same_pool_def)
  have "parent_ok t" using ok(1) assms(2,3) by (simp add: parent_ok_def same_pool_def)
  moreover have "turns_taken s0 t (l0 @ l) js (m + listen_events (listenfd s0) l)"
    using tk assms(3,5) alive unfolding turns_taken_def
    by (auto intro: dealt_mono)
  ultimately show ?thesis using tr assms(4) same_pool_trans [OF ok(2) assms(2)] unfolding deals_def by auto
qed

lemma pick_child_dead:
  assumes "c < n" and "pick_child ps n c = Some j" and "m_pid (ps ! j) = -1" and "i < n"
  shows "m_pid (ps ! i) = -1"
proof (rule ccontr)
  assume "m_pid (ps ! i) \<noteq> -1"
  then obtain d where d: "d < n" "m_pid (ps ! ((c + d) mod n)) \<noteq> -1" "\<forall>k < d. \<not> m_pid (ps ! ((c + k) mod n)) \<noteq> -1"
    using first_offset [OF assms(1,4), of "\<lambda>i. m_pid (ps ! i) \<noteq> -1"] by blast
  then show False using pick_child_alive [OF assms(1) d(1)] assms(2,3) by simp
qed

lemma deals_listen:
  fixes s :: "'w pool_st"
  assumes "deals s0 (Suc m) s"
  shows "\<exists>b t. parent_listen e s = Some (Ret b, t) \<and> deals s0 (if b then m else 0) t"
proof -
  let ?n = "children s0" and ?c = "sub_process_counter s"
  obtain l js where tr: "trace s = trace s0 @ l" and tk: "turns_taken s0 s l js (Suc m)" using assms by (auto simp: deals_def)
  have ok: "parent_ok s" "same_pool s0 s" using assms by (auto simp: deals_def)
  then have n: "children s = ?n" "length (sub_process s) = ?n" "?c < ?n" by (auto simp: parent_ok_def same_pool_def)
  obtain j where j: "j < ?n" "pick_child (sub_process s) ?n ?c = Some j" using pick_child_total [OF n(3)] by blast
  show ?thesis
  proof (cases "alive s j")
    case False
    let ?t = "s\<lparr>stop := True\<rparr>"
    have dead: "\<not> alive s i" if "i < ?n" for i using pick_child_dead [OF n(3) j(2) _ that] False by simp
    have "parent_listen e s = Some (Ret False, ?t)" using j(2) n(1) False by (simp add: parent_listen_def)
    moreover have "turns_taken s0 ?t l js 0" using tk dead n(3) unfolding turns_taken_def by auto
    then have "deals s0 0 ?t" using ok tr unfolding deals_def by (auto simp: parent_ok_def same_pool_def)
    ultimately show ?thesis by auto
  next
    case True
    let ?f = "fst (m_pipefd (sub_process s0 ! j))"
    define t where "t = extu e (C_send ?f new_conn_bytes) (s\<lparr>sub_process_counter := next_index ?n j\<rparr>)"
    have f: "fst (m_pipefd (sub_process s ! j)) = ?f" "alive s0 j"
      using ok(2) True j(1) n by (simp_all add: same_pool_def)
    have run: "parent_listen e s = Some (Ret True, t)"
      using j(2) n(1) True f by (simp add: parent_listen_def Let_def t_def)
    let ?turns = "\<lambda>js i. count_list js i + (if i < sub_process_counter s0 then 1 else 0)"
    have "?turns (js @ [j]) = (?turns js)(j := Suc (?turns js j))" by (auto simp: fun_eq_iff)
    then have deal: "dealt (alive s) ?n (next_index ?n j) (?turns (js @ [j]))"
      using dealt_pick(1) [OF n(3) j(2) True, of "?turns js"] tk by (simp add: turns_taken_def)
    have all: "js @ [j] = map (\<lambda>i. (sub_process_counter s0 + i) mod ?n) [0..<length (js @ [j])] \<and>
        next_index ?n j = (sub_process_counter s0 + length (js @ [j])) mod ?n" if "\<forall>i < ?n. alive s i"
    proof -
      have js: "js = map (\<lambda>i. (sub_process_counter s0 + i) mod ?n) [0..<length js]" "?c = (sub_process_counter s0 + length js) mod ?n"
        using tk that by (simp_all add: turns_taken_def)
      have "j = ?c" using pick_child_alive [OF n(3), of 0 "sub_process s"] j(2) that n(3) by simp
      then show ?thesis using js by (simp add: next_index_def mod_simps)
    qed
    have t: "sub_process t = sub_process s" "process_number t = process_number s" "listenfd t = listenfd s"
      "sub_process_counter t = next_index ?n j" "trace t = trace s @ [(C_send ?f new_conn_bytes, fst (e (world s) (C_send ?f new_conn_bytes)))]"
      by (simp_all add: t_def)
    have "turns_taken s0 t (l @ [(C_send ?f new_conn_bytes, fst (e (world s) (C_send ?f new_conn_bytes)))]) (js @ [j]) m"
      using tk deal all f(2) j(1) unfolding turns_taken_def t by (auto simp: listen_events_def simp del: upt_Suc)
    moreover have "parent_ok t" using ok(1) n by (simp add: parent_ok_def t next_index_def)
    ultimately have "deals s0 m t" using ok(2) tr unfolding deals_def same_pool_def t by auto
    then show ?thesis using run by auto
  qed
qed

lemma mark_exit_listenfd: "listenfd (fold (mark_exit e pid) ks s) = listenfd s"
  by (induction ks arbitrary: s) (simp_all add: mark_exit_def Let_def)

lemma parent_sigchld_listenfd:
  assumes "parent_sigchld e s = Some t"
  shows "listenfd t = listenfd s"
proof -
  obtain u where u: "loop_until (reap_body e) s = Some u"
    and t: "t = fold (\<lambda>k s. if alive s k then s\<lparr>stop := False\<rparr> else s) [0..<children u] (u\<lparr>stop := True\<rparr>)"
    using assms by (auto simp: parent_sigchld_def)
  have "listenfd u = listenfd s"
    by (rule loop_until_invariant [where P = "\<lambda>v. listenfd v = listenfd s" and Q = "\<lambda>v. listenfd v = listenfd s", OF u])
       (auto simp: reap_body_def Let_def split_beta mark_exit_listenfd split: if_splits)
  moreover have "listenfd (fold (\<lambda>k s. if alive s k then s\<lparr>stop := False\<rparr> else s) ks v) = listenfd v" for ks and v :: "'a pool_st"
    by (induction ks arbitrary: v) auto
  ultimately show ?thesis using t by simp
qed

lemma parent_kill_frame:
  fixes s :: "'w pool_st"
  shows "process_number (parent_kill e s) = process_number s" "listenfd (parent_kill e s) = listenfd s"
    "sub_process_counter (parent_kill e s) = sub_process_counter s"
proof -
  have "process_number (fold (kill_child e) ks u) = process_number u \<and> listenfd (fold (kill_child e) ks u) = listenfd u \<and>
    sub_process_counter (fold (kill_child e) ks u) = sub_process_counter u" for ks and u :: "'w pool_st"
    by (induction ks arbitrary: u) (simp_all add: kill_child_def Let_def)
  then show "process_number (parent_kill e s) = process_number s" "listenfd (parent_kill e s) = listenfd s"
    "sub_process_counter (parent_kill e s) = sub_process_counter s"
    by (simp_all add: parent_kill_def)
qed

lemma same_pool_refl [simp]: "same_pool s s"
  by (simp add: same_pool_def)

lemma listen_events_quiet: "(\<And>c. c \<in> fst ` set l \<Longrightarrow> \<forall>ep n t. c \<noteq> C_epoll_wait ep n t) \<Longrightarrow> listen_events lf l = 0"
proof (induction l)
  case (Cons ca l)
  obtain c a where ca: "ca = (c, a)" by fastforce
  then have "reported lf ca = 0" using Cons.prems [of c] by (cases c) auto
  then show ?case using Cons by (simp add: listen_events_def)
qed (simp add: listen_events_def)

lemma parent_signal_deals:
  fixes s0 :: "'w pool_st"
  assumes "waitpid_finite kids e"
  shows "keeps (deals s0 m) (parent_signal e b)"
  unfolding keeps_def
proof (intro allI impI)
  fix s assume s: "deals s0 m s"
  then have ok: "parent_ok s" by (simp add: deals_def)
  obtain t l where t: "parent_sigchld e s = Some t" "reaps s t l" using parent_sigchld_runs [OF assms ok] by blast
  have only: "c = C_waitpid \<or> (\<exists>f. c = C_close f)" if "c \<in> set (map fst l)" for c
    using t(2) that unfolding reaps_def pipe_closes_def by blast
  have "filter is_send (map fst l) = []" using only by (fastforce simp: filter_empty_conv)
  moreover have "listen_events (listenfd s0) l = 0" using only by (intro listen_events_quiet) fastforce
  moreover have "same_pool s t"
    using t parent_sigchld_listenfd [OF t(1)] by (auto simp: same_pool_def reaps_def mark_def)
  ultimately have chld: "deals s0 m t" using deals_frame [OF s, of t l] t(2) by (simp add: reaps_def)
  obtain l' where l': "trace (parent_kill e s) = trace s @ l'" "sub_process (parent_kill e s) = sub_process s"
    "map fst l' = map (\<lambda>k. C_kill (m_pid (sub_process s ! k)) SIGTERM) (filter (alive s) [0..<children s])"
    using parent_kill_signals [of e s] by blast
  have "filter is_send (map fst l') = []" unfolding l'(3) by (simp add: filter_empty_conv)
  moreover have "listen_events (listenfd s0) l' = 0"
    by (rule listen_events_quiet) (use l'(3) in \<open>metis (no_types, lifting) ex_map_conv extcall.distinct image_set\<close>)
  moreover have "same_pool s (parent_kill e s)" by (simp add: same_pool_def l'(2) parent_kill_frame)
  ultimately have "deals s0 m (parent_kill e s)" using deals_frame [OF s, of "parent_kill e s" l'] l'(1) by (simp add: parent_kill_frame)
  then show "\<exists>c t. parent_signal e b s = Some (Ret c, t) \<and> deals s0 m t"
    using s t(1) chld by (auto simp: parent_signal_def Let_def)
qed

lemma deals_call:
  assumes "deals s0 m s" and "\<not> is_send c"
  shows "deals s0 (m + reported (listenfd s0) (c, fst (e (world s) c))) (extu e c s)"
  using deals_frame [OF assms(1), of "extu e c s" "[(c, fst (e (world s) c))]"] assms(2)
  by (simp add: same_pool_def listen_events_def)

lemma parent_event_deals:
  fixes s :: "'w pool_st"
  assumes "waitpid_finite kids e" and "deals s0 (count_if (\<lambda>ev. fst ev = listenfd s0) (ev # evs)) s"
  shows "\<exists>b t. parent_event e ev s = Some (Ret b, t) \<and>
    deals s0 (count_if (\<lambda>ev. fst ev = listenfd s0) (if b then evs else [])) t"
proof (cases "fst ev = listenfd s0")
  case True
  have "listenfd s = listenfd s0" using assms(2) by (simp add: deals_def same_pool_def)
  moreover obtain b t where "parent_listen e s = Some (Ret b, t)"
    "deals s0 (if b then count_if (\<lambda>ev. fst ev = listenfd s0) evs else 0) t"
    using deals_listen [of s0 "count_if (\<lambda>ev. fst ev = listenfd s0) evs" s e] assms(2) True by auto
  ultimately show ?thesis using True by (intro exI [of _ b] exI [of _ t]) (auto simp: parent_event_def)
next
  case False
  let ?m = "count_if (\<lambda>ev. fst ev = listenfd s0) evs"
  let ?c = "C_recv (fst (sig_pipefd s)) 1024"
  let ?bs = "take (nat (ret (fst (e (world s) ?c)))) (bytes_of (payload (fst (e (world s) ?c))))"
  have s: "deals s0 ?m s" "listenfd s = listenfd s0" using assms(2) False by (simp_all add: deals_def same_pool_def)
  then have u: "deals s0 ?m (extu e ?c s)" using deals_call [OF s(1), of ?c e] by simp
  obtain v where v: "for_each (parent_signal e) ?bs (extu e ?c s) = Some (Ret (), v)" "deals s0 ?m v"
    using for_each_consumes [of "\<lambda>_. deals s0 ?m" "parent_signal e" ?bs "extu e ?c s"]
      keepsD [OF parent_signal_deals [OF assms(1)]] u by blast
  have "parent_event e ev s =
     (if fst ev = fst (sig_pipefd s) \<and> snd ev AND EPOLLIN \<noteq> 0
      then Some (Ret True, if ret (fst (e (world s) ?c)) \<le> 0 then extu e ?c s else v) else Some (Ret True, s))"
    using s(2) False v(1) by (simp add: parent_event_def Let_def split_beta)
  moreover have "deals s0 ?m (if ret (fst (e (world s) ?c)) \<le> 0 then extu e ?c s else v)" using u v(2) by simp
  ultimately show ?thesis using s(1) by (intro exI [of _ True]) (simp split: if_split)
qed

lemma parent_round_deals:
  fixes s0 :: "'w pool_st"
  assumes "waitpid_finite kids e"
  shows "keeps (deals s0 0) (parent_round e)"
  unfolding keeps_def
proof (intro allI impI)
  fix s assume s: "deals s0 0 s"
  define v where "v = log (L_text ''before'') s"
  let ?c = "C_epoll_wait (epollfd s) MAX_EVENT_NUMBER (-1)"
  let ?evs = "take (nat (ret (fst (e (world v) ?c)))) (events_of (payload (fst (e (world v) ?c))))"
  have "deals s0 0 v"
    using deals_frame [OF s, of v "[]"] by (simp add: v_def same_pool_def listen_events_def)
  then have u: "deals s0 (count_if (\<lambda>ev. fst ev = listenfd s0) ?evs) (extu e ?c v)"
    using deals_call [of s0 0 v ?c e] by simp
  obtain t where t: "for_each (parent_event e) ?evs (extu e ?c v) = Some (Ret (), t)" "deals s0 0 t"
    using for_each_consumes [of "\<lambda>evs. deals s0 (count_if (\<lambda>ev. fst ev = listenfd s0) evs)" "parent_event e" ?evs, OF parent_event_deals [OF assms] u]
    by auto
  have "parent_round e s =
     (if ret (fst (e (world v) ?c)) < 0 \<and> errno (extu e ?c v) \<noteq> EINTR
      then Some (Ret False, log (L_wait_failed (errno (extu e ?c v))) (extu e ?c v))
      else Some (Ret True, t))"
    using t(1) by (simp add: parent_round_def Let_def split_beta v_def)
  moreover have "deals s0 0 (log (L_wait_failed (errno (extu e ?c v))) (extu e ?c v))" if "ret (fst (e (world v) ?c)) < 0"
    using deals_frame [OF u, of _ "[]"] that by (simp add: same_pool_def listen_events_def)
  ultimately show "\<exists>b t. parent_round e s = Some (Ret b, t) \<and> deals s0 0 t" using t(2) by auto
qed

text \<open>
  C22. The children take turns, whatever \<open>epoll_wait\<close> reports and whichever children exit meanwhile. After any number
  of rounds, which always return, the parent has sent nothing but the announcements of connections to a sequence
  \<open>js\<close> of children in its table. Of any two children still in the table neither has had more than one turn more
  than the other. While any child is left, every event on the listening socket was a turn; and when none has
  exited, the \<open>i\<close>-th turn went to the child \<open>i\<close> places after the counter, modulo their number.
\<close>

theorem parent_round_robin:
  fixes s :: "'w pool_st"
  assumes "waitpid_finite kids e" and "parent_ok s"
  shows "\<exists>b t l js. while_rounds (\<lambda>s. \<not> stop s) (parent_round e) k s = Some (Ret b, t) \<and> trace t = trace s @ l \<and>
    filter is_send (map fst l) = map (\<lambda>j. C_send (fst (m_pipefd (sub_process s ! j))) new_conn_bytes) js \<and>
    (\<forall>j \<in> set js. j < children s \<and> alive s j) \<and>
    (\<forall>i < children s. \<forall>j < children s. alive t i \<and> alive t j \<longrightarrow> count_list js i \<le> count_list js j + 1) \<and>
    ((\<exists>i < children s. alive t i) \<longrightarrow> length js = listen_events (listenfd s) l) \<and>
    ((\<forall>i < children s. alive t i) \<longrightarrow> js = map (\<lambda>i. (sub_process_counter s + i) mod children s) [0..<length js])"
proof -
  let ?c0 = "sub_process_counter s"
  obtain b t where t: "while_rounds (\<lambda>s. \<not> stop s) (parent_round e) k s = Some (Ret b, t)" "deals s 0 t"
    using keepsD [OF while_rounds_keeps [OF parent_round_deals [OF assms(1)]] deals_start [OF assms(2)]] by blast
  then obtain l js where l: "trace t = trace s @ l" and tk: "turns_taken s t l js 0" by (auto simp: deals_def)
  obtain T where T: "\<And>i. i < children s \<Longrightarrow> alive t i \<Longrightarrow>
      count_list js i + (if i < ?c0 then 1 else 0) = T + (if i < sub_process_counter t then 1 else 0)"
    using tk unfolding turns_taken_def dealt_def by blast
  have "count_list js i \<le> count_list js j + 1" if "i < children s" "j < children s" "alive t i" "alive t j" for i j
    using T [of i] T [of j] that by (auto split: if_splits)
  then show ?thesis using t(1) l tk unfolding turns_taken_def by auto
qed

theorem parent_round_robin_witness:
  "\<exists>t l. while_rounds (\<lambda>s. \<not> stop s)
      (parent_round (\<lambda>w c. (case c of C_epoll_wait _ _ _ \<Rightarrow> ok_with 1 (P_events [(3, EPOLLIN)]) | _ \<Rightarrow> ok 0, w)))
      5 (pool_of () [child_at 100 10, child_at 101 12, child_at 102 14] 1) = Some (Ret True, t) \<and> trace t = l \<and>
    filter is_send (map fst l) = map (\<lambda>f. C_send f new_conn_bytes) [12, 14, 10, 12, 14]"
proof -
  define s where "s = pool_of () [child_at 100 10, child_at 101 12, child_at 102 14] 1"
  define e where "e = (\<lambda>(w :: unit) c. (case c of C_epoll_wait _ _ _ \<Rightarrow> ok_with 1 (P_events [(3, EPOLLIN)]) | _ \<Rightarrow> ok 0, w))"
  have "waitpid_finite (\<lambda>_. 0) e" by (simp add: waitpid_finite_def ok_def e_def)
  moreover have s: "parent_ok s" "trace s = []" "children s = 3" "sub_process_counter s = 1"
    "sub_process s = [child_at 100 10, child_at 101 12, child_at 102 14]"
    by (simp_all add: parent_ok_def s_def)
  ultimately obtain b t l js where t: "while_rounds (\<lambda>s. \<not> stop s) (parent_round e) 5 s = Some (Ret b, t)" "trace t = trace s @ l"
    "filter is_send (map fst l) = map (\<lambda>j. C_send (fst (m_pipefd (sub_process s ! j))) new_conn_bytes) js"
    "(\<forall>i < children s. alive t i) \<longrightarrow> js = map (\<lambda>i. (sub_process_counter s + i) mod children s) [0..<length js]"
    using parent_round_robin [of "\<lambda>_. 0" e s 5] by blast
  have "map_option (\<lambda>(r, t). (r = Ret True, map m_pid (sub_process t), length (filter is_send (map fst (trace t)))))
      (while_rounds (\<lambda>s. \<not> stop s) (parent_round e) 5 s) = Some (True, [100, 101, 102], 5)"
    unfolding s_def e_def by code_simp
  moreover have "length (filter is_send (map fst l)) = length js" unfolding t(3) by simp
  ultimately have u: "b" "map m_pid (sub_process t) = [100, 101, 102]" "length js = 5"
    using t(1,2) s(2) by (simp_all add: filter_map)
  then obtain p0 p1 p2 where "sub_process t = [p0, p1, p2]" "m_pid p0 = 100" "m_pid p1 = 101" "m_pid p2 = 102"
    by (auto simp: map_eq_Cons_conv)
  then have "\<forall>i < children s. alive t i" by (auto simp: s(3) less_Suc_eq numeral_3_eq_3)
  then have "js = [1, 2, 0, 1, 2]" using t(4) u(3) by (simp add: s(3,4) upt_rec)
  then have "filter is_send (map fst l) = map (\<lambda>f. C_send f new_conn_bytes) [12, 14, 10, 12, 14]"
    using t(3) by (simp add: s(5) numeral_2_eq_2)
  then show ?thesis using t(1,2) u(1) s(2) unfolding s_def e_def by (intro exI [of _ t] exI [of _ l]) simp
qed

section \<open>From the fork loop to the end\<close>

text \<open>A step of the set-up: it returns or an assertion fails, and the type holds either way.\<close>

definition step_type :: "int \<Rightarrow> 'w pool_st \<Rightarrow> unit outcome \<times> 'w pool_st \<Rightarrow> bool" where
  "step_type n s0 q \<longleftrightarrow> (fst q = Assert_failed \<or> fst q = Ret ()) \<and> pool_type n s0 (snd q)"

lemma step_type_then:
  assumes "step_type n s0 q" and "\<And>t. pool_type n s0 t \<Longrightarrow> step_type n s0 (f () t)"
  shows "step_type n s0 (then_do q f)"
  using assms(1) assms(2) [of "snd q"] by (cases q) (auto simp: step_type_def)

lemma step_type_assert: "pool_type n s0 s \<Longrightarrow> step_type n s0 (assert_that b s)"
  by (simp add: step_type_def assert_that_def)

lemma step_type_addsig: "pool_type n s0 s \<Longrightarrow> step_type n s0 (addsig e sg h b s)"
  by (simp add: addsig_def Let_def split_beta step_type_assert pool_type_intros)

lemma setup_sig_pipe_type: "pool_type n s0 s \<Longrightarrow> step_type n s0 (setup_sig_pipe e s)"
  unfolding setup_sig_pipe_def Let_def split_beta
  by (intro step_type_then step_type_assert step_type_addsig)
     (auto simp: pool_type_intros pool_type_addfd pool_type_nonblocking)

lemma spawn_parent:
  fixes s :: "'w pool_st"
  assumes "spawn e is s = (Ret u, t)" and "idx s = -1" and "idx t = -1" and "\<forall>i \<in> set is. i < length (sub_process s)"
  shows "process_number t = process_number s \<and> length (sub_process t) = length (sub_process s) \<and>
    (\<forall>i < length (sub_process s). i \<in> set is \<or> 0 < m_pid (sub_process s ! i) \<longrightarrow> 0 < m_pid (sub_process t ! i))"
  using assms
proof (induction "is" arbitrary: s)
  case (Cons i "is")
  let ?v = "forked e i s"
  let ?w = "snd (setnonblocking e (fst (m_pipefd (sub_process ?v ! i))) (extu e (C_close (snd (m_pipefd (sub_process ?v ! i)))) ?v))"
  have i: "i < length (sub_process s)" using Cons.prems(4) by simp
  have v: "0 < m_pid (sub_process ?v ! i)" "spawn e is ?w = (Ret u, t)"
    using spawn_Cons(3) [OF Cons.prems(1) i] Cons.prems(3) by auto
  have w: "sub_process ?w = sub_process ?v" "process_number ?w = process_number s" "idx ?w = -1"
    using Cons.prems(2) by (simp_all add: forked_fields) (simp add: forked_def Let_def setnonblocking_def split_beta)
  have "process_number t = process_number ?w \<and> length (sub_process t) = length (sub_process ?w) \<and>
    (\<forall>i < length (sub_process ?w). i \<in> set is \<or> 0 < m_pid (sub_process ?w ! i) \<longrightarrow> 0 < m_pid (sub_process t ! i))"
    using Cons.IH [OF v(2) w(3) Cons.prems(3)] Cons.prems(4) w(1) by (simp add: forked_fields)
  then show ?case using v(1) w forked_fields(1,2) [where e = e and i = i and s = s] by (metis set_ConsD)
qed simp

lemma run_setup_type:
  assumes "run_setup e (new_pool lfd n s) = (Ret (), t)" and "idx t = -1"
  shows "0 < n \<and> n \<le> MAX_PROCESS_NUMBER \<and> pool_type n t t"
proof -
  let ?s = "(new_pool lfd n s)\<lparr>sub_process := replicate (nat n) new_Process\<rparr>"
  have n: "0 < n" "n \<le> MAX_PROCESS_NUMBER" and sp: "spawn e [0..<nat n] ?s = (Ret (), t)"
    using assms(1) by (auto simp: run_setup_def then_do_Ret_iff new_pool_def)
  from spawn_parent [OF sp _ assms(2)] have "process_number t = n" "length (sub_process t) = nat n"
    "\<forall>i < nat n. 0 < m_pid (sub_process t ! i)"
    by (auto simp: new_pool_def)
  then show ?thesis using n by (auto simp: pool_type_def in_set_conv_nth)
qed

text \<open>
  C12. The type of the parent's state holds for its whole life. After \<open>run\<close> has forked the children,
  \<open>run_parent\<close> never hangs in a handler, for any number of rounds: unless an assertion of the set-up fails it
  is still looping or has been left, the array has one entry per child with the counter inside, every
  entry is \<open>-1\<close> or the id of a process, and whatever it has sent \<open>SIGTERM\<close> to was a single process.
\<close>

theorem pool_parent_well_formed:
  fixes s :: "'w pool_st"
  assumes "waitpid_finite kids e" and "run_setup e (new_pool lfd n s) = (Ret (), t)" and "idx t = -1"
  shows "0 < n \<and> n \<le> MAX_PROCESS_NUMBER \<and>
    (\<exists>r u l. run_parent e k t = Some (r, u) \<and> (r = Assert_failed \<or> (\<exists>b. r = Ret b) \<and> parent_ok u) \<and>
      length (sub_process u) = nat n \<and> (\<forall>p \<in> set (sub_process u). m_pid p = -1 \<or> 0 < m_pid p) \<and>
      trace u = trace t @ l \<and> (\<forall>pid sig. C_kill pid sig \<in> set (map fst l) \<longrightarrow> 0 < pid))"
proof -
  note n = run_setup_type [OF assms(2,3)]
  then have "step_type n t (setup_sig_pipe e t)" by (intro setup_sig_pipe_type) simp
  then consider (failed) v where "setup_sig_pipe e t = (Assert_failed, v)" "pool_type n t v"
    | (ok) v where "setup_sig_pipe e t = (Ret (), v)" "pool_type n t v"
    by (cases "setup_sig_pipe e t") (auto simp: step_type_def)
  then have "\<exists>r u. run_parent e k t = Some (r, u) \<and> (r = Assert_failed \<or> (\<exists>b. r = Ret b) \<and> parent_ok u) \<and> pool_type n t u"
  proof cases
    case ok
    let ?v = "(addfd e (epollfd v) (listenfd v) False v)\<lparr>sub_process_counter := 0\<rparr>"
    have "parent_type n t ?v" using ok(2) n by (simp add: parent_type_def pool_type_addfd pool_type_intros)
    then obtain b u where u: "while_rounds (\<lambda>s. \<not> stop s) (parent_round e) k ?v = Some (Ret b, u)" "parent_type n t u"
      using keepsD [OF while_rounds_keeps [OF parent_round_keeps [OF assms(1)]]] by blast
    moreover have "parent_type n t (extu e (C_close (epollfd u)) u)" using u(2) by (simp add: parent_type_intros)
    ultimately show ?thesis
      using ok(1) parent_type_ok by (cases b) (auto simp: run_parent_def Let_def parent_type_def)
  qed (auto simp: run_parent_def)
  then obtain r u where u: "run_parent e k t = Some (r, u)" "r = Assert_failed \<or> (\<exists>b. r = Ret b) \<and> parent_ok u"
    "pool_type n t u" by blast
  then obtain l where l: "trace u = trace t @ l" "\<forall>c \<in> fst ` set l. kills_one c" by (auto simp: pool_type_def)
  have "0 < pid" if "C_kill pid sig \<in> set (map fst l)" for pid sig
    using l(2) that kills_one.simps(1) [of pid sig] by (metis image_set)
  then show ?thesis using n u l(1) unfolding pool_type_def by metis
qed

theorem pool_parent_well_formed_witness:
  "\<exists>t r u. run_setup script_env (new_pool 3 1 (pool_of (script {0, 1, 2, 3}
       [ok_with 0 (P_pair 4 5), ok 100, ok 0, ok 0, ok 0, ok 6, ok_with 0 (P_pair 7 8)]) [] 9)) = (Ret (), t) \<and>
     run_parent script_env 2 t = Some (r, u) \<and> (r = Assert_failed \<or> (\<exists>b. r = Ret b) \<and> parent_ok u) \<and>
     length (sub_process u) = 1"
proof -
  let ?s = "new_pool 3 1 (pool_of (script {0, 1, 2, 3}
       [ok_with 0 (P_pair 4 5), ok 100, ok 0, ok 0, ok 0, ok 6, ok_with 0 (P_pair 7 8)]) [] 9)"
  define t where "t = snd (run_setup script_env ?s)"
  have "fst (run_setup script_env ?s) = Ret ()" by code_simp
  then have t: "run_setup script_env ?s = (Ret (), t)" by (simp add: t_def prod_eq_iff)
  have "idx t = -1" unfolding t_def by code_simp
  from pool_parent_well_formed [OF script_waitpid_finite t this, of 2] t show ?thesis by auto
qed

end
