(* ===== verification/ProcPoolSys.thy ===== *)
theory ProcPoolSys
  imports ProcPool
begin

text \<open>
  The process pool as a whole: the parent and its children (\<open>run_parent\<close> and \<open>run_child\<close> of
  epoll_half_sync_reactive_proc_pool_server.hpp) running side by side, with what they share: the
  backlog of the listening socket, one pipe per child, and the death of children. The machine refines a
  dealer that always turns to a child with the fewest turns so far, and a connection that waits can always be taken
  over within a bounded number of steps although notifications are lost with the children they were sent to.
\<close>

section \<open>Parent and children together\<close>

text \<open>
  \<open>P_conn\<close>: the parent's \<open>epoll_wait\<close> has reported the listening socket. \<open>K_told\<close>: the child has
  read a notification and is about to call \<open>accept\<close>; \<open>K_gone\<close>: its process has ended.
\<close>

datatype parent_pc = P_wait | P_conn | P_stop

datatype kid_pc = K_wait | K_told | K_gone

text \<open>
  \<open>procs\<close> and \<open>counter\<close> are the parent's array and local variable; \<open>unread\<close> counts the unread
  notifications in each pipe. \<open>backlog\<close> is the kernel's queue of connections not yet accepted. No step reads
  \<open>served\<close> (who took which connection, in order), \<open>turns\<close> (how often the parent called \<open>send\<close> for each child),
  \<open>told\<close> (how often that succeeded) and \<open>arrived\<close>.
\<close>

record pp_sys =
  procs :: "Process list"
  counter :: nat
  parent_at :: parent_pc
  unread :: "nat list"
  kid_at :: "kid_pc list"
  backlog :: "nat list"
  served :: "(nat \<times> nat) list"
  told :: "nat list"
  turns :: "nat list"
  arrived :: "nat list"

datatype actor = Net | Parent | Kid nat | Death nat

definition bump :: "nat \<Rightarrow> nat list \<Rightarrow> nat list" where
  "bump i ns = ns[i := Suc (ns ! i)]"

text \<open>The array after \<open>waitpid\<close> has reported the children in \<open>S\<close>.\<close>

definition reap_set :: "nat set \<Rightarrow> Process list \<Rightarrow> Process list" where
  "reap_set S ps = map (\<lambda>i. if i \<in> S then (ps ! i)\<lparr>m_pid := -1\<rparr> else ps ! i) [0..<length ps]"

text \<open>
  The parent's \<open>send\<close> is non-blocking: it fails when the pipe is full, hence not empty, or when the
  child is gone. \<open>accept\<close> may fail for whatever reason; it does when another child was faster.
  Notifications die with their reader.
\<close>

inductive pp_step :: "actor \<Rightarrow> pp_sys \<Rightarrow> pp_sys \<Rightarrow> bool" where
  arrive: "pp_step Net s (s\<lparr>backlog := backlog s @ [c], arrived := arrived s @ [c]\<rparr>)"
| ready: "parent_at s = P_wait \<Longrightarrow> backlog s \<noteq> [] \<Longrightarrow> pp_step Parent s (s\<lparr>parent_at := P_conn\<rparr>)"
| tell: "parent_at s = P_conn \<Longrightarrow> pick_child (procs s) (length (procs s)) (counter s) = Some j \<Longrightarrow>
    m_pid (procs s ! j) \<noteq> -1 \<Longrightarrow> kid_at s ! j \<noteq> K_gone \<Longrightarrow>
    pp_step Parent s (s\<lparr>counter := next_index (length (procs s)) j, unread := bump j (unread s),
                        told := bump j (told s), turns := bump j (turns s), parent_at := P_wait\<rparr>)"
| tell_fails: "parent_at s = P_conn \<Longrightarrow> pick_child (procs s) (length (procs s)) (counter s) = Some j \<Longrightarrow>
    m_pid (procs s ! j) \<noteq> -1 \<Longrightarrow> kid_at s ! j = K_gone \<or> unread s ! j \<noteq> 0 \<Longrightarrow>
    pp_step Parent s (s\<lparr>counter := next_index (length (procs s)) j, turns := bump j (turns s), parent_at := P_wait\<rparr>)"
| none_left: "parent_at s = P_conn \<Longrightarrow> pick_child (procs s) (length (procs s)) (counter s) = Some j \<Longrightarrow>
    m_pid (procs s ! j) = -1 \<Longrightarrow> pp_step Parent s (s\<lparr>parent_at := P_stop\<rparr>)"
| reap: "parent_at s \<noteq> P_stop \<Longrightarrow> \<forall>i \<in> S. i < length (kid_at s) \<and> kid_at s ! i = K_gone \<Longrightarrow>
    pp_step Parent s (s\<lparr>procs := reap_set S (procs s),
      parent_at := (if \<forall>p \<in> set (reap_set S (procs s)). m_pid p = -1 then P_stop else parent_at s)\<rparr>)"
| hear: "i < length (kid_at s) \<Longrightarrow> kid_at s ! i = K_wait \<Longrightarrow> unread s ! i = Suc k \<Longrightarrow>
    pp_step (Kid i) s (s\<lparr>unread := (unread s)[i := k], kid_at := (kid_at s)[i := K_told]\<rparr>)"
| take_over: "i < length (kid_at s) \<Longrightarrow> kid_at s ! i = K_told \<Longrightarrow> backlog s = c # cs \<Longrightarrow>
    pp_step (Kid i) s (s\<lparr>backlog := cs, served := served s @ [(i, c)], kid_at := (kid_at s)[i := K_wait]\<rparr>)"
| accept_fails: "i < length (kid_at s) \<Longrightarrow> kid_at s ! i = K_told \<Longrightarrow>
    pp_step (Kid i) s (s\<lparr>kid_at := (kid_at s)[i := K_wait]\<rparr>)"
| die: "i < length (kid_at s) \<Longrightarrow> kid_at s ! i \<noteq> K_gone \<Longrightarrow>
    pp_step (Death i) s (s\<lparr>kid_at := (kid_at s)[i := K_gone], unread := (unread s)[i := 0]\<rparr>)"

inductive_cases pp_stepE: "pp_step a s t"

definition pp_any :: "pp_sys \<Rightarrow> pp_sys \<Rightarrow> bool" where
  "pp_any s t \<longleftrightarrow> (\<exists>a. pp_step a s t)"

text \<open>The state in which \<open>run\<close> leaves a pool of the given processes.\<close>

definition pp_init :: "Process list \<Rightarrow> pp_sys" where
  "pp_init ps = \<lparr>procs = ps, counter = 0, parent_at = P_wait, unread = replicate (length ps) 0,
     kid_at = replicate (length ps) K_wait, backlog = [], served = [], told = replicate (length ps) 0,
     turns = replicate (length ps) 0, arrived = []\<rparr>"

section \<open>A fair dealer\<close>

text \<open>
  The specification: a dealer offers a connection only to a member who has been offered the fewest so far;
  members may leave at any time.
\<close>

record dealer =
  members :: "nat set"
  offered :: "nat \<Rightarrow> nat"

inductive dealer_step :: "dealer \<Rightarrow> dealer \<Rightarrow> bool" where
  offer: "i \<in> members d \<Longrightarrow> \<forall>j \<in> members d. offered d i \<le> offered d j \<Longrightarrow>
    dealer_step d (d\<lparr>offered := (offered d)(i := Suc (offered d i))\<rparr>)"
| leave: "dealer_step d (d\<lparr>members := members d - M\<rparr>)"

definition dealer_init :: "nat \<Rightarrow> dealer" where
  "dealer_init n = \<lparr>members = {..<n}, offered = (\<lambda>_. 0)\<rparr>"

definition dealer_of :: "pp_sys \<Rightarrow> dealer" where
  "dealer_of s = \<lparr>members = {i. i < length (procs s) \<and> m_pid (procs s ! i) \<noteq> -1},
     offered = (\<lambda>i. if i < length (turns s) then turns s ! i else 0)\<rparr>"

definition dealer_fair :: "dealer \<Rightarrow> bool" where
  "dealer_fair d \<longleftrightarrow> (\<forall>i \<in> members d. \<forall>j \<in> members d. offered d i \<le> offered d j + 1)"

interpretation dealing: step_invariant dealer_step dealer_fair
proof (unfold_locales, goal_cases)
  case (1 d d')
  then show ?case by (induction rule: dealer_step.induct) (auto simp: dealer_fair_def le_SucI)
qed

section \<open>What always holds\<close>

definition told_of :: "nat \<Rightarrow> pp_sys \<Rightarrow> nat" where
  "told_of i s = count_if (\<lambda>x. fst x = i) (served s) + unread s ! i + (if kid_at s ! i = K_told then 1 else 0)"

text \<open>
  The arrays have one entry per child and the counter is inside; a child the parent has given up is
  gone; a child accepts no more often than it was told to, and is told only in its turn; the turns go in laps.
\<close>

definition pp_good :: "nat \<Rightarrow> pp_sys \<Rightarrow> bool" where
  "pp_good n s \<longleftrightarrow> 0 < n \<and> length (procs s) = n \<and> length (unread s) = n \<and> length (kid_at s) = n \<and>
     length (told s) = n \<and> length (turns s) = n \<and> counter s < n \<and>
     (\<forall>i < n. m_pid (procs s ! i) = -1 \<longrightarrow> kid_at s ! i = K_gone) \<and>
     (\<forall>i < n. told_of i s \<le> told s ! i \<and> told s ! i \<le> turns s ! i) \<and>
     dealt (\<lambda>i. m_pid (procs s ! i) \<noteq> -1) n (counter s) (\<lambda>i. turns s ! i)"

lemma pick_child_less: "c < n \<Longrightarrow> pick_child ps n c = Some j \<Longrightarrow> j < n"
  using pick_child_total [of c n ps] by auto

lemma parent_listen_total: "parent_ok s \<Longrightarrow> \<exists>r t. parent_listen e s = Some (r, t)"
  using pick_child_total [of "sub_process_counter s" "children s" "sub_process s"]
  by (auto simp: parent_listen_def parent_ok_def Let_def)

lemma length_reap_set [simp]: "length (reap_set S ps) = length ps"
  by (simp add: reap_set_def)

lemma nth_reap_set: "i < length ps \<Longrightarrow> reap_set S ps ! i = (if i \<in> S then (ps ! i)\<lparr>m_pid := -1\<rparr> else ps ! i)"
  by (simp add: reap_set_def)

lemma bump_simps [simp]:
  "length (bump i ns) = length ns"
  "j < length ns \<Longrightarrow> bump i ns ! j = (if i = j then Suc (ns ! j) else ns ! j)"
  by (auto simp: bump_def nth_list_update)

lemma count_if_append: "count_if p (xs @ ys) = count_if p xs + count_if p ys"
  by (simp add: count_if_def)

lemma dealt_cong: "(\<And>i. i < n \<Longrightarrow> f i = g i) \<Longrightarrow> dealt known n c f = dealt known n c g"
  by (simp add: dealt_def)

text \<open>A turn, whether the notification gets through or not.\<close>

lemma pp_turn:
  assumes "pp_good n s" and "pick_child (procs s) (length (procs s)) (counter s) = Some j" and "m_pid (procs s ! j) \<noteq> -1"
  shows "j < n" and "dealt (\<lambda>i. m_pid (procs s ! i) \<noteq> -1) n (next_index n j) (\<lambda>i. bump j (turns s) ! i)"
    and "\<And>i. i < n \<Longrightarrow> m_pid (procs s ! i) \<noteq> -1 \<Longrightarrow> turns s ! j \<le> turns s ! i"
proof -
  have n: "counter s < n" "length (procs s) = n" "length (turns s) = n"
    and deal: "dealt (\<lambda>i. m_pid (procs s ! i) \<noteq> -1) n (counter s) (\<lambda>i. turns s ! i)"
    using assms(1) by (auto simp: pp_good_def)
  note pick = assms(2) [unfolded n(2)]
  show "j < n" using pick_child_less [OF n(1) pick] .
  have "dealt (\<lambda>i. m_pid (procs s ! i) \<noteq> -1) n (next_index n j) ((\<lambda>i. turns s ! i)(j := Suc (turns s ! j)))"
    by (rule dealt_pick(1) [OF n(1) pick assms(3) deal])
  then show "dealt (\<lambda>i. m_pid (procs s ! i) \<noteq> -1) n (next_index n j) (\<lambda>i. bump j (turns s) ! i)"
    by (subst dealt_cong [where g = "(\<lambda>i. turns s ! i)(j := Suc (turns s ! j))"]) (auto simp: n(3))
  show "turns s ! j \<le> turns s ! i" if "i < n" "m_pid (procs s ! i) \<noteq> -1" for i
    by (rule dealt_pick(2) [OF n(1) pick assms(3) deal that])
qed

lemma pp_good_step: "pp_step a s t \<Longrightarrow> pp_good n s \<Longrightarrow> pp_good n t"
proof (induction rule: pp_step.induct)
  case (tell s j)
  note turn = pp_turn(1,2) [OF tell.prems tell(2,3)]
  then have "told_of i s \<le> told s ! i" "told s ! i \<le> turns s ! i" if "i < n" for i
    using tell.prems that by (auto simp: pp_good_def)
  then show ?case using tell.prems tell(4) turn by (auto simp: pp_good_def told_of_def next_index_def)
next
  case (tell_fails s j)
  note turn = pp_turn(1,2) [OF tell_fails.prems tell_fails(2,3)]
  have "told_of i s \<le> told s ! i" "told s ! i \<le> turns s ! i" if "i < n" for i
    using tell_fails.prems that by (auto simp: pp_good_def)
  then show ?case using tell_fails.prems turn by (auto simp: pp_good_def told_of_def next_index_def intro: le_SucI)
next
  case (reap s S)
  have "dealt (\<lambda>i. m_pid (reap_set S (procs s) ! i) \<noteq> -1) n (counter s) (\<lambda>i. turns s ! i)"
    by (rule dealt_mono [of "\<lambda>i. m_pid (procs s ! i) \<noteq> -1"]) (use reap in \<open>auto simp: pp_good_def nth_reap_set split: if_splits\<close>)
  then show ?case using reap by (auto simp: pp_good_def told_of_def nth_reap_set)
next
  case (hear i s k)
  then show ?case by (auto simp: pp_good_def told_of_def nth_list_update)
next
  case (take_over i s c cs)
  then show ?case by (auto simp: pp_good_def told_of_def nth_list_update count_if_append)
next
  case (accept_fails i s)
  then show ?case by (auto simp: pp_good_def told_of_def nth_list_update)
next
  case (die i s)
  then show ?case by (auto simp: pp_good_def told_of_def nth_list_update)
qed (auto simp: pp_good_def told_of_def)

lemma dealer_turn:
  assumes "pp_good n s" and "pick_child (procs s) (length (procs s)) (counter s) = Some j" and "m_pid (procs s ! j) \<noteq> -1"
    and "procs t = procs s" and "turns t = bump j (turns s)"
  shows "dealer_step (dealer_of s) (dealer_of t)"
proof -
  note turn = pp_turn(1,3) [OF assms(1-3)]
  have n: "length (procs s) = n" "length (turns s) = n" using assms(1) by (auto simp: pp_good_def)
  have "dealer_of t = (dealer_of s)\<lparr>offered := (offered (dealer_of s))(j := Suc (offered (dealer_of s) j))\<rparr>"
    using turn(1) n assms(4,5) by (auto simp: dealer_of_def fun_eq_iff)
  moreover have "j \<in> members (dealer_of s)" "\<forall>i \<in> members (dealer_of s). offered (dealer_of s) j \<le> offered (dealer_of s) i"
    using turn n assms(3) by (auto simp: dealer_of_def)
  ultimately show ?thesis using dealer_step.offer by metis
qed

lemma dealer_of_same: "procs t = procs s \<Longrightarrow> turns t = turns s \<Longrightarrow> dealer_of t = dealer_of s"
  unfolding dealer_of_def by metis

lemma dealer_of_step:
  "pp_step a s t \<Longrightarrow> pp_good n s \<Longrightarrow> dealer_step (dealer_of s) (dealer_of t) \<or> dealer_of t = dealer_of s"
proof (induction rule: pp_step.induct)
  case (tell s j)
  then show ?case by (intro disjI1 dealer_turn [OF tell.prems tell(2,3)]) simp_all
next
  case (tell_fails s j)
  then show ?case by (intro disjI1 dealer_turn [OF tell_fails.prems tell_fails(2,3)]) simp_all
next
  case (reap s S)
  let ?t = "s\<lparr>procs := reap_set S (procs s),
      parent_at := (if \<forall>p \<in> set (reap_set S (procs s)). m_pid p = -1 then P_stop else parent_at s)\<rparr>"
  have "dealer_of ?t = (dealer_of s)\<lparr>members := members (dealer_of s) - S\<rparr>"
    by (auto simp: dealer_of_def nth_reap_set split: if_splits)
  then show ?case using dealer_step.leave [of "dealer_of s" S] by simp
qed (rule disjI2, rule dealer_of_same, simp, simp)+

interpretation pp_sim: simulation pp_any "pp_good n" dealer_step dealer_of for n
  by unfold_locales (auto simp: pp_any_def intro: pp_good_step dest: dealer_of_step)

lemma pp_init_good: "ps \<noteq> [] \<Longrightarrow> \<forall>p \<in> set ps. m_pid p \<noteq> -1 \<Longrightarrow> pp_good (length ps) (pp_init ps)"
  by (auto simp: pp_good_def pp_init_def told_of_def dealt_def)

text \<open>A pool of two, with which the theorems below are tried.\<close>

definition two_kids :: "Process list" where
  "two_kids = [child_at 100 10, child_at 101 12]"

definition one_waits :: pp_sys where
  "one_waits = (pp_init two_kids)\<lparr>backlog := [7], arrived := [7]\<rparr>"

lemma two_kids_alive: "two_kids \<noteq> []" "\<forall>p \<in> set two_kids. m_pid p \<noteq> -1"
  by (simp_all add: two_kids_def)

lemma one_waits_reached: "pp_any\<^sup>*\<^sup>* (pp_init two_kids) one_waits"
  using pp_step.arrive [of "pp_init two_kids" 7]
  by (intro r_into_rtranclp) (auto simp: pp_any_def one_waits_def pp_init_def)

lemma first_kid_told:
  "pp_any\<^sup>*\<^sup>* (pp_init two_kids) (one_waits\<lparr>counter := 1, unread := [1, 0], told := [1, 0], turns := [1, 0]\<rparr>)"
proof -
  let ?s = "one_waits\<lparr>parent_at := P_conn\<rparr>"
  have "pp_any one_waits ?s"
    using pp_step.ready [of one_waits] by (auto simp: pp_any_def one_waits_def pp_init_def)
  moreover have "pick_child (procs ?s) (length (procs ?s)) (counter ?s) = Some 0"
    using pick_child_alive [of 0 2 0 two_kids] by (simp add: one_waits_def pp_init_def two_kids_def numeral_2_eq_2)
  then have "pp_any ?s (one_waits\<lparr>counter := 1, unread := [1, 0], told := [1, 0], turns := [1, 0]\<rparr>)"
    using pp_step.tell [of ?s 0]
    by (auto simp: pp_any_def one_waits_def pp_init_def two_kids_def next_index_def bump_def)
  ultimately show ?thesis using one_waits_reached by (meson rtranclp.rtrancl_into_rtrancl)
qed

text \<open>
  C6. The pool deals fairly: whatever the interleaving of the parent, the children, new connections and dying
  children, the parent offers every connection to a child of its table that has been offered the fewest so far.
  Hence of two children still in the table neither has had more than one turn more than the other, however many
  others have died; a child is told of a connection at most once per turn and accepts at most as often as it was told.
\<close>

theorem process_pool_deals_fairly:
  assumes "pp_any\<^sup>*\<^sup>* (pp_init ps) s" and "ps \<noteq> []" and "\<forall>p \<in> set ps. m_pid p \<noteq> -1"
  shows "dealer_step\<^sup>*\<^sup>* (dealer_init (length ps)) (dealer_of s) \<and>
    (\<forall>i < length ps. \<forall>j < length ps. m_pid (procs s ! i) \<noteq> -1 \<and> m_pid (procs s ! j) \<noteq> -1 \<longrightarrow>
       turns s ! i \<le> turns s ! j + 1) \<and>
    (\<forall>i < length ps. count_if (\<lambda>x. fst x = i) (served s) \<le> told s ! i \<and> told s ! i \<le> turns s ! i)"
proof -
  note init = pp_init_good [OF assms(2,3)]
  have good: "pp_good (length ps) s" by (rule pp_sim.good_run [OF assms(1) init])
  have "dealer_of (pp_init ps) = dealer_init (length ps)"
    using assms(3) by (auto simp: dealer_of_def pp_init_def dealer_init_def)
  then have run: "dealer_step\<^sup>*\<^sup>* (dealer_init (length ps)) (dealer_of s)"
    using pp_sim.refines_run [OF assms(1) init] by simp
  have "dealer_fair (dealer_of s)"
    by (rule dealing.good_run [OF run]) (simp add: dealer_fair_def dealer_init_def)
  then show ?thesis
    using good run by (fastforce simp: dealer_fair_def dealer_of_def pp_good_def told_of_def)
qed

theorem process_pool_deals_fairly_witness:
  "\<exists>s. pp_any\<^sup>*\<^sup>* (pp_init two_kids) s \<and> served s = [(0, 7)] \<and> turns s = [1, 0] \<and>
    dealer_step\<^sup>*\<^sup>* (dealer_init 2) (dealer_of s) \<and>
    (\<forall>i < 2. count_if (\<lambda>x. fst x = i) (served s) \<le> told s ! i \<and> told s ! i \<le> turns s ! i)"
proof -
  let ?s = "one_waits\<lparr>counter := 1, unread := [1, 0], told := [1, 0], turns := [1, 0]\<rparr>"
  let ?t = "?s\<lparr>unread := [0, 0], kid_at := [K_told, K_wait]\<rparr>"
  let ?u = "?t\<lparr>backlog := [], served := [(0, 7)], kid_at := [K_wait, K_wait]\<rparr>"
  have "pp_any ?s ?t"
    using pp_step.hear [of 0 ?s 0] by (auto simp: pp_any_def one_waits_def pp_init_def two_kids_def)
  moreover have "pp_any ?t ?u"
    using pp_step.take_over [of 0 ?t 7 "[]"] by (auto simp: pp_any_def one_waits_def pp_init_def two_kids_def)
  ultimately have run: "pp_any\<^sup>*\<^sup>* (pp_init two_kids) ?u"
    using first_kid_told by (meson rtranclp.rtrancl_into_rtrancl)
  have "length two_kids = 2" by (simp add: two_kids_def)
  then show ?thesis
    using process_pool_deals_fairly [OF run two_kids_alive] run by (intro exI [of _ ?u]) simp
qed

section \<open>The code takes the steps\<close>

text \<open>The part of the machine's state that is the parent's own, as \<open>run_parent\<close> holds it.\<close>

definition shows_parent :: "'w pool_st \<Rightarrow> pp_sys \<Rightarrow> bool" where
  "shows_parent s p \<longleftrightarrow> procs p = sub_process s \<and> counter p = sub_process_counter s"

text \<open>
  The part that is in the pipes: \<open>q\<close> follows \<open>p\<close> when \<open>turns\<close> has grown by the calls of \<open>send\<close> on the pipe of each
  child in \<open>l\<close>, and \<open>told\<close> and \<open>unread\<close> by the successful ones.
\<close>

definition sends_on :: "fd \<Rightarrow> (extcall \<times> answer) list \<Rightarrow> nat" where
  "sends_on f l = count_if (\<lambda>x. fst x = C_send f new_conn_bytes) l"

definition passed_on :: "fd \<Rightarrow> (extcall \<times> answer) list \<Rightarrow> nat" where
  "passed_on f l = count_if (\<lambda>x. fst x = C_send f new_conn_bytes \<and> 0 < ret (snd x)) l"

definition shows_sends :: "pp_sys \<Rightarrow> (extcall \<times> answer) list \<Rightarrow> pp_sys \<Rightarrow> bool" where
  "shows_sends p l q \<longleftrightarrow> (\<forall>i < length (procs p). let f = fst (m_pipefd (procs p ! i))
     in turns q ! i = turns p ! i + sends_on f l \<and> told q ! i = told p ! i + passed_on f l \<and>
        unread q ! i = unread p ! i + passed_on f l)"

text \<open>
  How \<open>send\<close> answers on a non-blocking socket: it fails exactly when the reader is gone or, perhaps, when something is
  unread.
\<close>

definition send_fits :: "'w env \<Rightarrow> 'w \<Rightarrow> pp_sys \<Rightarrow> bool" where
  "send_fits e w p \<longleftrightarrow> (\<forall>i < length (procs p).
     let a = fst (e w (C_send (fst (m_pipefd (procs p ! i))) new_conn_bytes))
     in if 0 < ret a then kid_at p ! i \<noteq> K_gone else kid_at p ! i = K_gone \<or> unread p ! i \<noteq> 0)"

definition pipes_distinct :: "Process list \<Rightarrow> bool" where
  "pipes_distinct ps \<longleftrightarrow> distinct (map (\<lambda>x. fst (m_pipefd x)) ps)"

lemma parent_listen_steps:
  assumes "parent_ok s" and "shows_parent s p" and "pp_good (length (procs p)) p" and "pipes_distinct (procs p)"
    and "send_fits e (world s) p" and "parent_at p = P_conn"
  shows "\<exists>r t l q. parent_listen e s = Some (r, t) \<and> trace t = trace s @ l \<and> pp_step Parent p q \<and> shows_parent t q \<and>
    shows_sends p l q \<and> parent_at q = (if r = Ret True then P_wait else P_stop)"
proof -
  let ?n = "length (procs p)"
  have n: "children s = ?n" using assms(1,2) by (simp add: parent_ok_def shows_parent_def)
  note sh = assms(2) [unfolded shows_parent_def]
  have len: "length (unread p) = ?n" "length (told p) = ?n" "length (turns p) = ?n" "counter p < ?n"
    using assms(3) by (auto simp: pp_good_def)
  obtain j where j: "j < ?n" "pick_child (procs p) ?n (counter p) = Some j" using pick_child_total [OF len(4)] by blast
  show ?thesis
  proof (cases "m_pid (procs p ! j) = -1")
    case True
    then have "parent_listen e s = Some (Ret False, s\<lparr>stop := True\<rparr>)" using j(2) n sh by (simp add: parent_listen_def)
    then show ?thesis
      using pp_step.none_left [OF assms(6) j(2) True] sh
      by (intro exI [of _ "Ret False"] exI [of _ "s\<lparr>stop := True\<rparr>"] exI [of _ "[]"] exI [of _ "p\<lparr>parent_at := P_stop\<rparr>"])
         (simp add: shows_parent_def shows_sends_def sends_on_def passed_on_def)
  next
    case False
    let ?f = "\<lambda>i. fst (m_pipefd (procs p ! i))" and ?a = "fst (e (world s) (C_send (fst (m_pipefd (procs p ! j))) new_conn_bytes))"
    let ?t = "extu e (C_send (?f j) new_conn_bytes) (s\<lparr>sub_process_counter := next_index ?n j\<rparr>)"
    let ?l = "[(C_send (?f j) new_conn_bytes, ?a)]"
    let ?q = "if 0 < ret ?a
      then p\<lparr>counter := next_index ?n j, unread := bump j (unread p), told := bump j (told p), turns := bump j (turns p), parent_at := P_wait\<rparr>
      else p\<lparr>counter := next_index ?n j, turns := bump j (turns p), parent_at := P_wait\<rparr>"
    have run: "parent_listen e s = Some (Ret True, ?t)" using j(2) n sh False by (simp add: parent_listen_def Let_def)
    have fit: "if 0 < ret ?a then kid_at p ! j \<noteq> K_gone else kid_at p ! j = K_gone \<or> unread p ! j \<noteq> 0"
      using assms(5) j(1) unfolding send_fits_def Let_def by blast
    then have "pp_step Parent p ?q"
      using pp_step.tell [OF assms(6) j(2) False] pp_step.tell_fails [OF assms(6) j(2) False] by (auto split: if_splits)
    moreover have "?f j = ?f i \<longleftrightarrow> j = i" if "i < ?n" for i
      using assms(4) that j(1) unfolding pipes_distinct_def by (metis (no_types, lifting) length_map nth_eq_iff_index_eq nth_map)
    then have "shows_sends p ?l ?q" using len by (auto simp: shows_sends_def sends_on_def passed_on_def Let_def)
    moreover have "shows_parent ?t ?q" "parent_at ?q = P_wait" "trace ?t = trace s @ ?l" using sh by (simp_all add: shows_parent_def)
    ultimately show ?thesis using run by (intro exI [of _ "Ret True"] exI [of _ ?t] exI [of _ ?l] exI [of _ ?q]) simp
  qed
qed

lemma reap_set_mark:
  "reap_set {i. i < length ps \<and> m_pid (ps ! i) \<in> R} ps = map (mark R) ps"
  by (rule nth_equalityI) (auto simp: nth_reap_set mark_def)

lemma reaps_no_sends:
  assumes "reaps s t l"
  shows "sends_on f l = 0" "passed_on f l = 0"
proof -
  have "x \<noteq> C_send f new_conn_bytes" if "x \<in> set (map fst l)" for x
    using assms that unfolding reaps_def pipe_closes_def by blast
  then show "sends_on f l = 0" "passed_on f l = 0"
    by (fastforce simp: sends_on_def passed_on_def count_if_def filter_empty_conv)+
qed

lemma parent_sigchld_steps:
  assumes "shows_parent s p" and "parent_at p \<noteq> P_stop" and "reaps s t l"
    and "stop t \<longleftrightarrow> (\<forall>p \<in> set (sub_process t). m_pid p = -1)" and "length (kid_at p) = length (procs p)"
    and "\<forall>i < length (procs p). m_pid (procs p ! i) \<in> reaped l \<longrightarrow> kid_at p ! i = K_gone"
  shows "\<exists>q. pp_step Parent p q \<and> shows_parent t q \<and> shows_sends p l q \<and> (parent_at q = P_stop \<longleftrightarrow> stop t)"
proof -
  let ?S = "{i. i < length (procs p) \<and> m_pid (procs p ! i) \<in> reaped l}"
  have "\<forall>i \<in> ?S. i < length (kid_at p) \<and> kid_at p ! i = K_gone" using assms(5,6) by simp
  from pp_step.reap [OF assms(2) this] show ?thesis
    using assms(1-4)
    by (intro exI [of _ "p\<lparr>procs := sub_process t, parent_at := if stop t then P_stop else parent_at p\<rparr>"])
       (simp add: reap_set_mark shows_parent_def shows_sends_def reaps_no_sends [OF assms(3)] reaps_def)
qed



text \<open>
  The steps of a child: for a notification it could read the code calls \<open>accept\<close> once (\<open>hear\<close>, then
  \<open>take_over\<close> or \<open>accept_fails\<close>), and not at all otherwise.
\<close>

theorem child_code_steps:
  fixes s :: "'w pool_st" and e :: "'w env" and f :: fd
  defines "n \<equiv> ret (fst (e (world s) (C_recv f 4)))"
    and "c \<equiv> ret (fst (e (snd (e (world s) (C_recv f 4))) (C_accept (listenfd s))))"
  assumes "i < length (kid_at p)" and "kid_at p ! i = K_wait" and "length (unread p) = length (kid_at p)"
    and "0 < n \<longrightarrow> unread p ! i \<noteq> 0" and "0 < n \<and> 0 \<le> c \<longrightarrow> backlog p \<noteq> []"
  shows "\<exists>r t q. child_connect e f s = Some (r, t) \<and> (pp_step (Kid i))\<^sup>*\<^sup>* p q \<and>
    unread q ! i = unread p ! i - (if 0 < n then 1 else 0) \<and>
    served q = served p @ (if C_accept (listenfd s) \<in> set (drop (length (calls s)) (calls t)) \<and> 0 \<le> c then [(i, hd (backlog p))] else [])"
proof -
  obtain r t where run: "child_connect e f s = Some (r, t)"
    by (cases "child_connect e f s") (auto simp: child_connect_def Let_def split_beta split: if_splits)
  then have acc: "C_accept (listenfd s) \<in> set (drop (length (calls s)) (calls t)) \<longleftrightarrow> 0 < n"
    by (auto simp: child_connect_def Let_def split_beta addfd_def conn_init_def setnonblocking_def n_def split: if_splits)
  show ?thesis
  proof (cases "0 < n")
    case True
    then obtain k where k: "unread p ! i = Suc k" using assms(6) by (cases "unread p ! i") auto
    let ?u = "p\<lparr>unread := (unread p)[i := k], kid_at := (kid_at p)[i := K_told]\<rparr>"
    have hear: "pp_step (Kid i) p ?u" using pp_step.hear [OF assms(3,4) k] .
    have "\<exists>q. pp_step (Kid i) ?u q \<and> unread q = unread ?u \<and> served q = served p @ (if 0 \<le> c then [(i, hd (backlog p))] else [])"
    proof (cases "0 \<le> c")
      case True
      then obtain d ds where "backlog p = d # ds" using assms(7) \<open>0 < n\<close> by (cases "backlog p") auto
      then show ?thesis using pp_step.take_over [of i ?u d ds] assms(3) True by fastforce
    next
      case False
      then show ?thesis using pp_step.accept_fails [of i ?u] assms(3) by fastforce
    qed
    then obtain q where q: "pp_step (Kid i) ?u q" "unread q = unread ?u"
      "served q = served p @ (if 0 \<le> c then [(i, hd (backlog p))] else [])" by blast
    have "(pp_step (Kid i))\<^sup>*\<^sup>* p q" using hear q(1) by (meson converse_rtranclp_into_rtranclp r_into_rtranclp)
    then show ?thesis using run acc True q(2,3) k assms(3,5) by (intro exI [of _ r] exI [of _ t] exI [of _ q]) simp
  next
    case False
    then show ?thesis using run acc by (intro exI [of _ r] exI [of _ t] exI [of _ p]) simp
  qed
qed

section \<open>A waiting connection is taken over\<close>

text \<open>Steps of the parent and the children alone: nothing arrives and nobody dies.\<close>

definition pp_work :: "pp_sys \<Rightarrow> pp_sys \<Rightarrow> bool" where
  "pp_work s t \<longleftrightarrow> pp_step Parent s t \<or> (\<exists>i. pp_step (Kid i) s t)"

lemma kid_takes:
  assumes "i < length (kid_at s)" and "kid_at s ! i = K_told \<or> (kid_at s ! i = K_wait \<and> unread s ! i \<noteq> 0)"
    and "backlog s = c # cs"
  shows "\<exists>k t. k \<le> 2 \<and> (pp_work ^^ k) s t \<and> backlog t = cs \<and> served t = served s @ [(i, c)]"
proof -
  have told: "\<exists>t. pp_work u t \<and> backlog t = cs \<and> served t = served s @ [(i, c)]"
    if "i < length (kid_at u)" "kid_at u ! i = K_told" "backlog u = c # cs" "served u = served s" for u
    using pp_step.take_over [OF that(1,2,3)] that(4) by (fastforce simp: pp_work_def)
  from assms(2) show ?thesis
  proof
    assume "kid_at s ! i = K_told"
    then obtain t where "pp_work s t" "backlog t = cs" "served t = served s @ [(i, c)]"
      using told [of s] assms by blast
    then show ?thesis by (intro exI [of _ 1] exI [of _ t]) auto
  next
    assume w: "kid_at s ! i = K_wait \<and> unread s ! i \<noteq> 0"
    then obtain k where k: "unread s ! i = Suc k" by (cases "unread s ! i") auto
    let ?u = "s\<lparr>unread := (unread s)[i := k], kid_at := (kid_at s)[i := K_told]\<rparr>"
    have "pp_work s ?u" using pp_step.hear [OF assms(1) _ k] w by (auto simp: pp_work_def)
    moreover obtain t where "pp_work ?u t" "backlog t = cs" "served t = served s @ [(i, c)]"
      using told [of ?u] assms by auto
    ultimately show ?thesis by (intro exI [of _ 2] exI [of _ t]) (auto simp: numeral_2_eq_2)
  qed
qed

text \<open>
  With living child \<open>i\<close> at distance \<open>d\<close> from the counter, the parent tells it after at most \<open>d\<close>
  notifications to children that are gone but not yet reaped.
\<close>

lemma parent_tells:
  assumes "pp_good n s" and "parent_at s = P_conn" and "backlog s \<noteq> []" and "d < n"
    and "kid_at s ! ((counter s + d) mod n) \<noteq> K_gone"
  shows "\<exists>k t i. k \<le> 2 * d + 1 \<and> (pp_work ^^ k) s t \<and> i < n \<and> kid_at t = kid_at s \<and> backlog t = backlog s \<and>
    served t = served s \<and> kid_at s ! i \<noteq> K_gone \<and> unread t ! i \<noteq> 0"
  using assms
proof (induction d arbitrary: s rule: less_induct)
  case (less d)
  let ?c = "counter s" and ?ps = "procs s"
  have g: "?c < n" "length ?ps = n" "length (unread s) = n" using less.prems(1) by (auto simp: pp_good_def)
  have "(?c + d) mod n < n" using g(1) by simp
  then have "m_pid (?ps ! ((?c + d) mod n)) \<noteq> -1" using less.prems(1,5) unfolding pp_good_def by blast
  then obtain m where m: "m_pid (?ps ! ((?c + m) mod n)) \<noteq> -1" "m \<le> d" "\<forall>k < m. m_pid (?ps ! ((?c + k) mod n)) = -1"
    using ex_least_nat_le [of "\<lambda>k. m_pid (?ps ! ((?c + k) mod n)) \<noteq> -1" d] by blast
  let ?j = "(?c + m) mod n"
  have pick: "pick_child ?ps (length ?ps) ?c = Some ?j"
    using pick_child_alive [OF g(1), of m ?ps] m less.prems(4) g(2) by simp
  show ?case
  proof (cases "kid_at s ! ?j = K_gone")
    case False
    let ?t = "s\<lparr>counter := next_index (length ?ps) ?j, unread := bump ?j (unread s),
      told := bump ?j (told s), turns := bump ?j (turns s), parent_at := P_wait\<rparr>"
    have "pp_work s ?t" using pp_step.tell [OF less.prems(2) pick m(1) False] by (simp add: pp_work_def)
    moreover have "?j < n" using g(1) by simp
    ultimately show ?thesis
      using False g(3) by (intro exI [of _ 1] exI [of _ ?t] exI [of _ ?j]) auto
  next
    case True
    then have "m \<noteq> d" using less.prems(5) by auto
    then have md: "m < d" using m(2) by simp
    let ?u = "s\<lparr>counter := next_index (length ?ps) ?j, turns := bump ?j (turns s), parent_at := P_wait\<rparr>"
    let ?v = "?u\<lparr>parent_at := P_conn\<rparr>"
    have su: "pp_step Parent s ?u" using pp_step.tell_fails [OF less.prems(2) pick m(1)] True by simp
    have uv: "pp_step Parent ?u ?v" using pp_step.ready [of ?u] less.prems(3) by simp
    have "pp_good n ?v" using pp_good_step [OF uv pp_good_step [OF su less.prems(1)]] .
    moreover have "(next_index n ?j + (d - m - 1)) mod n = (?c + d) mod n"
    proof -
      have "(next_index n ?j + (d - m - 1)) mod n = (?c + m + 1 + (d - m - 1)) mod n"
        by (simp add: next_index_def mod_simps)
      also have "?c + m + 1 + (d - m - 1) = ?c + d" using md by simp
      finally show ?thesis .
    qed
    then have "kid_at ?v ! ((counter ?v + (d - m - 1)) mod n) \<noteq> K_gone" using less.prems(5) g(2) by simp
    moreover have "d - m - 1 < n" "d - m - 1 < d" using less.prems(4) md by simp_all
    moreover have "parent_at ?v = P_conn" "backlog ?v = backlog s" "kid_at ?v = kid_at s" "served ?v = served s" by simp_all
    ultimately obtain k t i where t: "k \<le> 2 * (d - m - 1) + 1" "(pp_work ^^ k) ?v t" "i < n" "kid_at t = kid_at s"
      "backlog t = backlog s" "served t = served s" "kid_at s ! i \<noteq> K_gone" "unread t ! i \<noteq> 0"
      using less.IH [of "d - m - 1" ?v] less.prems(3) by metis
    have "pp_work s ?u" "pp_work ?u ?v" using su uv by (simp_all add: pp_work_def)
    then have "(pp_work ^^ Suc (Suc k)) s t" using t(2) relpowp_Suc_I2 by metis
    then show ?thesis
      using t md by (intro exI [of _ "Suc (Suc k)"] exI [of _ t] exI [of _ i]) auto
  qed
qed

text \<open>
  C7. The pool never locks up on a connection: from every state it can be in, while the parent runs and
  some child lives, the parent and the children can go on, within \<open>2n + 2\<close> steps and without anything new
  arriving, to a state in which a living child has taken over the oldest waiting connection. Neither
  notifications lost in full pipes or with dead children, nor children the parent still believes alive,
  can leave it waiting for good.
\<close>

theorem process_pool_progress:
  assumes "pp_any\<^sup>*\<^sup>* (pp_init ps) s" and "ps \<noteq> []" and "\<forall>p \<in> set ps. m_pid p \<noteq> -1"
    and "parent_at s \<noteq> P_stop" and "backlog s = c # cs" and "i < length ps" and "kid_at s ! i \<noteq> K_gone"
  shows "\<exists>k t j. k \<le> 2 * length ps + 2 \<and> (pp_work ^^ k) s t \<and> j < length ps \<and> kid_at s ! j \<noteq> K_gone \<and>
    served t = served s @ [(j, c)] \<and> backlog t = cs"
proof -
  let ?n = "length ps"
  have good: "pp_good ?n s" by (rule pp_sim.good_run [OF assms(1) pp_init_good [OF assms(2,3)]])
  let ?s = "s\<lparr>parent_at := P_conn\<rparr>"
  have first: "\<exists>k \<le> 1. (pp_work ^^ k) s ?s"
  proof (cases "parent_at s")
    case P_wait
    then have "pp_work s ?s" using pp_step.ready [of s] assms(5) by (simp add: pp_work_def)
    then show ?thesis by (intro exI [of _ 1]) auto
  next
    case P_conn
    then have "?s = s" by simp
    then show ?thesis by (intro exI [of _ 0]) auto
  qed (use assms(4) in simp)
  have goods: "pp_good ?n ?s" using good by (simp add: pp_good_def told_of_def)
  have "counter s < ?n" using good by (simp add: pp_good_def)
  then obtain d where d: "d < ?n" "kid_at s ! ((counter s + d) mod ?n) \<noteq> K_gone"
    using first_offset [of "counter s" ?n i "\<lambda>i. kid_at s ! i \<noteq> K_gone"] assms(6,7) by blast
  obtain k t j where t: "k \<le> 2 * d + 1" "(pp_work ^^ k) ?s t" "j < ?n" "kid_at t = kid_at s" "backlog t = c # cs"
    "served t = served s" "kid_at s ! j \<noteq> K_gone" "unread t ! j \<noteq> 0"
    using parent_tells [OF goods _ _ d(1)] d(2) assms(5) by auto
  have "j < length (kid_at t)" using t(3,4) good by (simp add: pp_good_def)
  moreover have "kid_at t ! j = K_told \<or> (kid_at t ! j = K_wait \<and> unread t ! j \<noteq> 0)"
    using t(4,7,8) by (cases "kid_at s ! j") auto
  ultimately obtain k' u where u: "k' \<le> 2" "(pp_work ^^ k') t u" "backlog u = cs" "served u = served s @ [(j, c)]"
    using kid_takes [of j t c cs] t(5,6) by auto
  obtain k0 where k0: "k0 \<le> 1" "(pp_work ^^ k0) s ?s" using first by blast
  have "(pp_work ^^ (k0 + k + k')) s u"
    using k0(2) t(2) u(2) by (auto simp: relpowp_add)
  moreover have "k0 + k + k' \<le> 2 * ?n + 2" using k0(1) t(1) u(1) d(1) by simp
  ultimately show ?thesis using t(3,7) u(3,4) by blast
qed

theorem process_pool_progress_witness:
  "pp_any\<^sup>*\<^sup>* (pp_init two_kids) one_waits \<and>
   (\<exists>k t j. k \<le> 6 \<and> (pp_work ^^ k) one_waits t \<and> j < 2 \<and> served t = [(j, 7)] \<and> backlog t = [])"
proof -
  have "backlog one_waits = [7]" "served one_waits = []" "length two_kids = 2" "kid_at one_waits ! 0 \<noteq> K_gone"
    "parent_at one_waits \<noteq> P_stop"
    by (simp_all add: one_waits_def pp_init_def two_kids_def)
  then show ?thesis
    using process_pool_progress [OF one_waits_reached two_kids_alive, of 7 "[]" 0] one_waits_reached by auto
qed

end
