(* ===== verification/ProcPoolStop.thy ===== *)
theory ProcPoolStop
  imports ProcPool
begin

text \<open>
  Stopping the process pool (the signal cases of \<open>run_parent\<close> and \<open>run_child\<close> and \<open>setup_sig_pipe\<close> of
  epoll_half_sync_reactive_proc_pool_server.hpp): signals, children that end, the parent that reaps them. A request
  to end brings the whole pool down under every schedule and leaves no zombie behind, provided no child ended
  before the parent had installed its handlers; otherwise the parent may never stop.
\<close>

section \<open>Signals between the operator, the parent and its children\<close>

text \<open>
  \<open>Par_boot\<close>: between the last \<open>fork\<close> and the end of \<open>setup_sig_pipe\<close>. A child is \<open>Kid_told\<close> from the parent's
  \<open>kill\<close> until its process has ended, and \<open>Kid_zombie\<close> until \<open>waitpid\<close> has reported it.
\<close>

datatype par_pc = Par_boot | Par_loop | Par_done

datatype kid_life = Kid_runs | Kid_told | Kid_zombie | Kid_reaped

datatype sig_byte = Sig_chld | Sig_term

text \<open>
  \<open>in_table\<close>: the entry's \<open>m_pid\<close> is not \<open>-1\<close>. \<open>pend\<close>: the kernel has a \<open>SIGCHLD\<close> for the parent that has not
  been delivered; a second one meanwhile is merged with it. \<open>sigs\<close> are the bytes in the parent's signal pipe, which
  is taken to be large enough for them.
\<close>

record stop_sys =
  par_at :: par_pc
  in_table :: "bool list"
  life :: "kid_life list"
  pend :: bool
  sigs :: "sig_byte list"

text \<open>\<open>kill\<close> for every entry of the table; a zombie takes no notice.\<close>

definition tell_kid :: "bool \<Rightarrow> kid_life \<Rightarrow> kid_life" where
  "tell_kid known l = (if known \<and> l = Kid_runs then Kid_told else l)"

definition reap_kid :: "kid_life \<Rightarrow> kid_life" where
  "reap_kid l = (if l = Kid_zombie then Kid_reaped else l)"

definition strike :: "bool \<Rightarrow> kid_life \<Rightarrow> bool" where
  "strike known l \<longleftrightarrow> known \<and> l \<noteq> Kid_zombie"

definition after_kill :: "stop_sys \<Rightarrow> stop_sys" where
  "after_kill s = s\<lparr>life := map2 tell_kid (in_table s) (life s), sigs := tl (sigs s)\<rparr>"

definition after_reap :: "stop_sys \<Rightarrow> stop_sys" where
  "after_reap s =
     (let known = map2 strike (in_table s) (life s)
      in s\<lparr>in_table := known, life := map reap_kid (life s), sigs := tl (sigs s),
           par_at := (if True \<in> set known then Par_loop else Par_done)\<rparr>)"

text \<open>
  Before the parent has its handler, a \<open>SIGCHLD\<close> is discarded.
\<close>

definition ended :: "nat \<Rightarrow> stop_sys \<Rightarrow> stop_sys" where
  "ended i s = s\<lparr>life := (life s)[i := Kid_zombie], pend := (pend s \<or> par_at s \<noteq> Par_boot)\<rparr>"

text \<open>The steps of the pool itself, and with them the ones its surroundings may take.\<close>

inductive stop_own :: "stop_sys \<Rightarrow> stop_sys \<Rightarrow> bool" where
  booted: "par_at s = Par_boot \<Longrightarrow> stop_own s (s\<lparr>par_at := Par_loop\<rparr>)"
| handler: "par_at s = Par_loop \<Longrightarrow> pend s \<Longrightarrow> stop_own s (s\<lparr>pend := False, sigs := sigs s @ [Sig_chld]\<rparr>)"
| on_term: "par_at s = Par_loop \<Longrightarrow> sigs s = Sig_term # bs \<Longrightarrow> stop_own s (after_kill s)"
| on_chld: "par_at s = Par_loop \<Longrightarrow> sigs s = Sig_chld # bs \<Longrightarrow> stop_own s (after_reap s)"
| obeys: "i < length (life s) \<Longrightarrow> life s ! i = Kid_told \<Longrightarrow> stop_own s (ended i s)"

inductive stop_quiet :: "stop_sys \<Rightarrow> stop_sys \<Rightarrow> bool" where
  own: "stop_own s t \<Longrightarrow> stop_quiet s t"
| crash: "i < length (life s) \<Longrightarrow> life s ! i = Kid_runs \<Longrightarrow> stop_quiet s (ended i s)"

inductive stop_step :: "stop_sys \<Rightarrow> stop_sys \<Rightarrow> bool" where
  quiet: "stop_quiet s t \<Longrightarrow> stop_step s t"
| operator: "par_at s = Par_loop \<Longrightarrow> stop_step s (s\<lparr>sigs := sigs s @ [Sig_term]\<rparr>)"

text \<open>The pool when all children have been forked.\<close>

definition stop_init :: "nat \<Rightarrow> stop_sys" where
  "stop_init n = \<lparr>par_at = Par_boot, in_table = replicate n True, life = replicate n Kid_runs, pend = False, sigs = []\<rparr>"

inductive_cases stop_ownE: "stop_own s t"
inductive_cases stop_quietE: "stop_quiet s t"
inductive_cases stop_stepE: "stop_step s t"

section \<open>Invariants\<close>

text \<open>
  The table has the children that were not reaped, a parent that loops has one, and one that is done has none. Once
  no child has ended before the handlers were there, somebody is always on the way to reap a zombie.
\<close>

definition table_ok :: "nat \<Rightarrow> stop_sys \<Rightarrow> bool" where
  "table_ok n s \<longleftrightarrow> length (in_table s) = n \<and> length (life s) = n \<and>
     (\<forall>i < n. in_table s ! i \<longleftrightarrow> life s ! i \<noteq> Kid_reaped) \<and>
     (par_at s = Par_done \<longleftrightarrow> (\<forall>i < n. life s ! i = Kid_reaped))"

definition noticed :: "stop_sys \<Rightarrow> bool" where
  "noticed s \<longleftrightarrow> par_at s \<noteq> Par_boot \<and> (Kid_zombie \<in> set (life s) \<longrightarrow> pend s \<or> Sig_chld \<in> set (sigs s))"

definition asked :: "stop_sys \<Rightarrow> bool" where
  "asked s \<longleftrightarrow> Sig_term \<in> set (sigs s) \<or> Kid_runs \<notin> set (life s)"

lemma after_fields [simp]:
  "par_at (after_kill s) = par_at s" "in_table (after_kill s) = in_table s" "pend (after_kill s) = pend s"
  "sigs (after_kill s) = tl (sigs s)" "life (after_kill s) = map2 tell_kid (in_table s) (life s)"
  "in_table (after_reap s) = map2 strike (in_table s) (life s)" "life (after_reap s) = map reap_kid (life s)"
  "pend (after_reap s) = pend s" "sigs (after_reap s) = tl (sigs s)"
  "par_at (after_reap s) = (if True \<in> set (map2 strike (in_table s) (life s)) then Par_loop else Par_done)"
  "par_at (ended i s) = par_at s" "in_table (ended i s) = in_table s" "life (ended i s) = (life s)[i := Kid_zombie]"
  "pend (ended i s) = (pend s \<or> par_at s \<noteq> Par_boot)" "sigs (ended i s) = sigs s"
  by (simp_all add: after_kill_def after_reap_def ended_def Let_def)

lemma table_ok_reap:
  assumes "table_ok n s"
  shows "table_ok n (after_reap s)"
proof -
  have len: "length (in_table s) = n" "length (life s) = n" using assms by (simp_all add: table_ok_def)
  have known: "map2 strike (in_table s) (life s) ! i \<longleftrightarrow> map reap_kid (life s) ! i \<noteq> Kid_reaped" if "i < n" for i
    using assms that by (simp add: table_ok_def strike_def reap_kid_def)
  have "True \<in> set (map2 strike (in_table s) (life s)) \<longleftrightarrow> (\<exists>i < n. map2 strike (in_table s) (life s) ! i)"
    using len in_set_conv_nth [of True "map2 strike (in_table s) (life s)"] by auto
  then show ?thesis using len known by (auto simp: table_ok_def)
qed

lemma table_ok_own: "stop_own s t \<Longrightarrow> table_ok n s \<Longrightarrow> table_ok n t"
proof (induction rule: stop_own.induct)
  case (on_term s bs)
  then show ?case by (auto simp: table_ok_def tell_kid_def)
next
  case (on_chld s bs)
  then show ?case by (intro table_ok_reap)
next
  case (obeys i s)
  then show ?case by (auto simp: table_ok_def nth_list_update)
qed (auto simp: table_ok_def)

lemma table_ok_quiet: "stop_quiet s t \<Longrightarrow> table_ok n s \<Longrightarrow> table_ok n t"
proof (induction rule: stop_quiet.induct)
  case (crash i s)
  then show ?case by (auto simp: table_ok_def nth_list_update)
qed (rule table_ok_own)

lemma noticed_own: "stop_own s t \<Longrightarrow> noticed s \<Longrightarrow> noticed t"
proof (induction rule: stop_own.induct)
  case (on_term s bs)
  have "Kid_zombie \<in> set (life s)" if "Kid_zombie \<in> set (map2 tell_kid (in_table s) (life s))"
    using that by (auto simp: tell_kid_def dest: set_zip_rightD split: if_splits)
  then show ?case using on_term by (auto simp: noticed_def)
next
  case (on_chld s bs)
  then show ?case by (auto simp: noticed_def reap_kid_def)
qed (auto simp: noticed_def)

lemma noticed_quiet: "stop_quiet s t \<Longrightarrow> noticed s \<Longrightarrow> noticed t"
  by (induction rule: stop_quiet.induct) (use noticed_own in \<open>auto simp: noticed_def\<close>)

lemma asked_own: "stop_own s t \<Longrightarrow> table_ok n s \<Longrightarrow> asked s \<Longrightarrow> asked t"
proof (induction rule: stop_own.induct)
  case (on_term s bs)
  have "Kid_runs \<notin> set (map2 tell_kid (in_table s) (life s))"
    using on_term.prems(1) by (auto simp: table_ok_def in_set_conv_nth tell_kid_def split: if_splits)
  then show ?case by (simp add: asked_def)
next
  case (on_chld s bs)
  then show ?case by (auto simp: asked_def reap_kid_def)
next
  case (obeys i s)
  then show ?case using set_update_subset_insert [of "life s" i Kid_zombie] by (auto simp: asked_def)
qed (auto simp: asked_def)

lemma asked_quiet: "stop_quiet s t \<Longrightarrow> table_ok n s \<Longrightarrow> asked s \<Longrightarrow> asked t"
proof (induction rule: stop_quiet.induct)
  case (crash i s)
  then show ?case using set_update_subset_insert [of "life s" i Kid_zombie] by (auto simp: asked_def)
qed (rule asked_own)

interpretation stop_runs: step_invariant stop_step "\<lambda>s. table_ok n s \<and> noticed s" for n
proof (unfold_locales, goal_cases)
  case (1 s t)
  then show ?case
    by (induction rule: stop_step.induct) (use table_ok_quiet noticed_quiet in \<open>auto simp: table_ok_def noticed_def\<close>)
qed

section \<open>Coming to rest\<close>

fun kid_left :: "kid_life \<Rightarrow> nat" where
  "kid_left Kid_runs = 4"
| "kid_left Kid_told = 3"
| "kid_left Kid_zombie = 0"
| "kid_left Kid_reaped = 0"

definition stop_left :: "stop_sys \<Rightarrow> nat" where
  "stop_left s = sum_list (map kid_left (life s)) + (if pend s then 2 else 0) + length (sigs s) +
     (if par_at s = Par_boot then 1 else 0)"

lemma kid_left_tell: "kid_left (tell_kid b l) \<le> kid_left l"
  by (simp add: tell_kid_def)

lemma kid_left_reap: "kid_left (reap_kid l) = kid_left l"
  by (simp add: reap_kid_def)

lemma left_tell: "sum_list (map kid_left (map2 tell_kid bs ls)) \<le> sum_list (map kid_left ls)"
proof (induction bs ls rule: list_induct2')
  case (4 b bs l ls)
  then show ?case using kid_left_tell [of b l] by simp
qed simp_all

lemma left_update:
  "i < length ls \<Longrightarrow> sum_list (map kid_left (ls[i := l])) + kid_left (ls ! i) = sum_list (map kid_left ls) + kid_left l"
proof -
  assume i: "i < length ls"
  then have "kid_left (ls ! i) \<le> sum_list (map kid_left ls)" using elem_le_sum_list [of i "map kid_left ls"] by simp
  then show ?thesis using i by (simp add: map_update sum_list_update)
qed

lemma left_ended:
  assumes "i < length (life s)" and "3 \<le> kid_left (life s ! i)"
  shows "stop_left (ended i s) < stop_left s"
  using left_update [OF assms(1), of Kid_zombie] assms(2) by (simp add: stop_left_def)

lemma stop_own_left: "stop_own s t \<Longrightarrow> stop_left t < stop_left s"
proof (induction rule: stop_own.induct)
  case (on_term s bs)
  then show ?case using left_tell [of "in_table s" "life s"] by (simp add: stop_left_def)
next
  case (on_chld s bs)
  then show ?case by (simp add: stop_left_def kid_left_reap comp_def)
next
  case (obeys i s)
  then show ?case by (intro left_ended) simp_all
qed (simp_all add: stop_left_def)

lemma stop_quiet_left: "stop_quiet s t \<Longrightarrow> stop_left t < stop_left s"
  by (induction rule: stop_quiet.induct) (simp_all add: stop_own_left left_ended)

definition going_down :: "nat \<Rightarrow> stop_sys \<Rightarrow> bool" where
  "going_down n s \<longleftrightarrow> table_ok n s \<and> noticed s \<and> asked s"

lemma going_down_goes_on:
  assumes "going_down n s" and "par_at s \<noteq> Par_done"
  shows "\<exists>t. stop_own s t"
proof (rule ccontr)
  assume stuck: "\<nexists>t. stop_own s t"
  have loop: "par_at s = Par_loop" using assms by (cases "par_at s") (auto simp: going_down_def noticed_def)
  have "\<not> pend s" using stuck stop_own.handler [OF loop] by blast
  moreover have "sigs s = []"
  proof (cases "sigs s")
    case (Cons b bs)
    then show ?thesis using stuck stop_own.on_term [OF loop] stop_own.on_chld [OF loop] by (cases b) blast+
  qed
  ultimately have "Kid_zombie \<notin> set (life s)" "Kid_runs \<notin> set (life s)"
    using assms(1) by (auto simp: going_down_def noticed_def asked_def)
  moreover have "Kid_told \<notin> set (life s)" using stuck stop_own.obeys by (metis in_set_conv_nth)
  ultimately have "\<forall>l \<in> set (life s). l = Kid_reaped" by (metis kid_life.exhaust)
  then have "par_at s = Par_done" using assms(1) by (simp add: going_down_def table_ok_def)
  then show False using assms(2) by simp
qed

interpretation pool_stop: comes_to_rest stop_quiet "going_down n" stop_own stop_left "\<lambda>s. par_at s = Par_done" for n
proof (unfold_locales, goal_cases)
  case (1 s t)
  then show ?case using table_ok_quiet noticed_quiet asked_quiet unfolding going_down_def by blast
next
  case (4 s)
  then show ?case by (rule going_down_goes_on)
qed (auto intro: stop_quiet.own stop_quiet_left)

section \<open>The parent's code\<close>

definition shows_table :: "'w pool_st \<Rightarrow> stop_sys \<Rightarrow> bool" where
  "shows_table s p \<longleftrightarrow> in_table p = map (\<lambda>q. m_pid q \<noteq> -1) (sub_process s)"



section \<open>Properties\<close>

abbreviation stop_ready :: "nat \<Rightarrow> stop_sys" where
  "stop_ready n \<equiv> (stop_init n)\<lparr>par_at := Par_loop\<rparr>"

lemma stop_ready_ok: "0 < n \<Longrightarrow> table_ok n (stop_ready n) \<and> noticed (stop_ready n)"
  by (auto simp: table_ok_def noticed_def stop_init_def)

text \<open>
  C9. A request to end brings the pool down. When the children were alive until the parent had its handlers,
  then from every state with a \<open>SIGTERM\<close> or \<open>SIGINT\<close> in the parent's pipe, whatever happened before, every schedule
  ends after at most \<open>stop_left\<close> steps, children that crash meanwhile included; and where the pool can do nothing more, the
  parent has left its loop and every child has ended and been reaped: no process and no zombie is left.
\<close>

theorem process_pool_shuts_down:
  assumes "0 < n" and "stop_step\<^sup>*\<^sup>* (stop_ready n) s" and "Sig_term \<in> set (sigs s)" and "(stop_quiet ^^ k) s t"
  shows "k \<le> stop_left s \<and> ((\<nexists>u. stop_own t u) \<longrightarrow> par_at t = Par_done \<and> life t = replicate n Kid_reaped)"
proof -
  have "table_ok n s \<and> noticed s" by (rule stop_runs.good_run [OF assms(2) stop_ready_ok [OF assms(1)]])
  then have down: "going_down n s" using assms(3) by (simp add: going_down_def asked_def)
  have "going_down n t" using pool_stop.bounded [OF assms(4) down] by blast
  then have "par_at t = Par_done \<Longrightarrow> life t = replicate n Kid_reaped"
    by (auto simp: going_down_def table_ok_def intro: nth_equalityI)
  then show ?thesis using pool_stop.rests_final [OF assms(4) down] by blast
qed

theorem process_pool_shuts_down_witness:
  "\<exists>s. stop_step\<^sup>*\<^sup>* (stop_ready 2) s \<and> stop_left s = 9 \<and> (\<forall>k t. (stop_quiet ^^ k) s t \<longrightarrow>
     k \<le> 9 \<and> ((\<nexists>u. stop_own t u) \<longrightarrow> par_at t = Par_done \<and> life t = [Kid_reaped, Kid_reaped]))"
proof -
  let ?s = "(stop_ready 2)\<lparr>sigs := [Sig_term]\<rparr>"
  have "stop_step (stop_ready 2) ?s" using stop_step.operator [of "stop_ready 2"] by (simp add: stop_init_def)
  then have run: "stop_step\<^sup>*\<^sup>* (stop_ready 2) ?s" by (rule r_into_rtranclp)
  have left: "stop_left ?s = 9" by (simp add: stop_left_def stop_init_def numeral_2_eq_2)
  from process_pool_shuts_down [OF _ run] run left show ?thesis
    by (intro exI [of _ ?s]) (auto simp: numeral_2_eq_2)
qed

section \<open>A child that ends too early\<close>

definition early :: "nat \<Rightarrow> nat \<Rightarrow> stop_sys" where
  "early n m = (stop_init n)\<lparr>life := replicate m Kid_zombie @ replicate (n - m) Kid_runs\<rparr>"

lemma early_run: "m \<le> n \<Longrightarrow> stop_step\<^sup>*\<^sup>* (stop_init n) (early n m)"
proof (induction m)
  case 0
  have "early n 0 = stop_init n" by (simp add: early_def stop_init_def)
  then show ?case by simp
next
  case (Suc m)
  have life: "(life (early n m))[m := Kid_zombie] = life (early n (Suc m))"
    using Suc.prems by (simp add: early_def list_update_append replicate_app_Cons_same Suc_diff_Suc [symmetric])
  have "stop_quiet (early n m) (ended m (early n m))"
    by (rule stop_quiet.crash) (use Suc.prems in \<open>simp_all add: early_def nth_append\<close>)
  moreover have "ended m (early n m) = early n (Suc m)"
    using life by (simp add: ended_def early_def stop_init_def)
  ultimately show ?case using Suc by (metis Suc_leD rtranclp.rtrancl_into_rtrancl stop_step.quiet)
qed

text \<open>The children are gone, the parent does not know and nothing is on the way to tell it.\<close>

definition blind :: "nat \<Rightarrow> stop_sys \<Rightarrow> bool" where
  "blind n s \<longleftrightarrow> par_at s = Par_loop \<and> life s = replicate n Kid_zombie \<and> \<not> pend s \<and> Sig_chld \<notin> set (sigs s) \<and>
     length (in_table s) = n"

lemma blind_step: "stop_step s t \<Longrightarrow> blind n s \<Longrightarrow> blind n t"
proof (induction rule: stop_step.induct)
  case (quiet s t)
  have "map2 tell_kid bs (replicate n Kid_zombie) = replicate n Kid_zombie" if "length bs = n" for bs
    using that by (intro nth_equalityI) (auto simp: tell_kid_def)
  then show ?case using quiet by (auto simp: blind_def elim!: stop_quietE stop_ownE)
qed (auto simp: blind_def)

interpretation blind: step_invariant stop_step "blind n" for n
  by unfold_locales (rule blind_step)

text \<open>
  C10. Children that end before the parent has installed its \<open>SIGCHLD\<close> handler go unnoticed: there is a run after
  which the parent loops with all of its children dead, and whatever happens from then on, any number of
  \<open>SIGTERM\<close> and \<open>SIGINT\<close> included, it neither reaps them nor stops.
\<close>

theorem early_death_unnoticed:
  "\<exists>s. stop_step\<^sup>*\<^sup>* (stop_init n) s \<and>
    (\<forall>t. stop_step\<^sup>*\<^sup>* s t \<longrightarrow> par_at t = Par_loop \<and> life t = replicate n Kid_zombie)"
proof -
  let ?s = "(early n n)\<lparr>par_at := Par_loop\<rparr>"
  have "stop_own (early n n) ?s" by (rule stop_own.booted) (simp add: early_def stop_init_def)
  then have "stop_step\<^sup>*\<^sup>* (stop_init n) ?s"
    using early_run [of n n] by (meson order_refl rtranclp.rtrancl_into_rtrancl stop_quiet.own stop_step.quiet)
  moreover have "blind n ?s" by (simp add: blind_def early_def stop_init_def)
  ultimately show ?thesis using blind.good_run unfolding blind_def by blast
qed

theorem early_death_unnoticed_witness:
  "\<exists>s. stop_step\<^sup>*\<^sup>* (stop_init 1) s \<and> par_at s = Par_loop \<and> life s = [Kid_zombie]"
proof -
  obtain s where "stop_step\<^sup>*\<^sup>* (stop_init 1) s" "\<forall>t. stop_step\<^sup>*\<^sup>* s t \<longrightarrow> par_at t = Par_loop \<and> life t = replicate 1 Kid_zombie"
    using early_death_unnoticed [of 1] by blast
  then show ?thesis by auto
qed

end
