(* ===== verification/Net.thy ===== *)
theory Net
  imports Posix
begin

unbundle bit_operations_syntax

text \<open>
  What the servers and the client share when they talk to the network: the address structure they
  build from the command line, and the loops that empty a libevent buffer.
\<close>

section \<open>Addresses\<close>

record sockaddr_in =
  sin_addr :: "32 word"
  sin_port :: "16 word"

text \<open>\<open>htons\<close> on a little-endian host swaps the two bytes.\<close>

definition htons :: "16 word \<Rightarrow> 16 word" where
  "htons x = push_bit 8 x OR drop_bit 8 x"

definition ntohs :: "16 word \<Rightarrow> 16 word" where
  "ntohs = htons"

text \<open>
  The lines every server repeats: clear the structure, let \<open>inet_pton\<close> (the parameter
  \<open>pton\<close>) fill in the address, whose result the code ignores, and convert the port, an
  \<open>int\<close> that the call of \<open>htons\<close> cuts to 16 bits.
\<close>

definition make_addr :: "(string \<Rightarrow> (32 word) option) \<Rightarrow> string \<Rightarrow> int \<Rightarrow> sockaddr_in" where
  "make_addr pton ip port =
     (let srv_addr = \<lparr>sin_addr = 0, sin_port = 0\<rparr>;
          srv_addr = (case pton ip of Some a \<Rightarrow> srv_addr\<lparr>sin_addr := a\<rparr> | None \<Rightarrow> srv_addr)
      in srv_addr\<lparr>sin_port := htons (word_of_int port)\<rparr>)"

lemma htons_htons [simp]: "htons (htons x) = x"
proof (rule bit_word_eqI)
  fix n
  assume "n < LENGTH(16)"
  then show "bit (htons (htons x)) n \<longleftrightarrow> bit x n"
    by (auto simp: htons_def bit_simps not_less le_less_trans dest: bit_imp_le_length)
qed

lemma make_addr_port:
  assumes "0 \<le> port" and "port < 2 ^ 16"
  shows "uint (ntohs (sin_port (make_addr pton ip port))) = port"
  using assms by (simp add: make_addr_def ntohs_def Let_def uint_word_of_int split: option.split)

section \<open>Listening\<close>

text \<open>
  The start of the servers that use plain sockets: create the socket, make the address reusable,
  set further options (\<open>opts\<close>), bind and listen, with an assertion after every step that can
  fail.
\<close>

definition listen_on :: "'w env \<Rightarrow> (string \<Rightarrow> (32 word) option) \<Rightarrow>
  (fd \<Rightarrow> ('w, 'x) proc_scheme \<Rightarrow> ('w, 'x) proc_scheme) \<Rightarrow> string \<Rightarrow> int \<Rightarrow> ('w, 'x) proc_scheme \<Rightarrow>
  fd outcome \<times> ('w, 'x) proc_scheme" where
  "listen_on e pton opts ip port s =
     (let srv_addr = make_addr pton ip port;
          (a, s) = ext e C_socket s;
          srv_fd = ret a
      in then_do (assert_that (0 \<le> srv_fd) s) (\<lambda>_ s.
         let s = extu e (C_setsockopt srv_fd ''SO_REUSEADDR'' 1) s;
             s = opts srv_fd s;
             (b, s) = ext e (C_bind srv_fd (sin_addr srv_addr) (sin_port srv_addr)) s
         in then_do (assert_that (ret b \<noteq> -1) s) (\<lambda>_ s.
            let (l, s) = ext e (C_listen srv_fd 1024) s
            in then_do (assert_that (ret l \<noteq> -1) s) (\<lambda>_ s. (Ret srv_fd, s)))))"

lemma listen_on_Ret:
  fixes s :: "('w, 'x) proc_scheme"
  assumes "fd_law tab e" and "listen_on e pton opts ip port s = (Ret f, t)"
    and opts: "\<And>f u. tab (world (opts f u)) = tab (world (u :: ('w, 'x) proc_scheme))"
  shows "0 \<le> f \<and> f \<notin> tab (world s) \<and> tab (world t) = insert f (tab (world s))"
proof -
  let ?f = "ret (fst (e (world s) C_socket))"
  let ?u = "opts ?f (extu e (C_setsockopt ?f ''SO_REUSEADDR'' 1) (extu e C_socket s))"
  let ?a = "make_addr pton ip port"
  have ft: "f = ?f" "0 \<le> ?f" "t = extu e (C_listen ?f 1024) (extu e (C_bind ?f (sin_addr ?a) (sin_port ?a)) ?u)"
    using assms(2) by (auto simp: listen_on_def Let_def split_beta then_do_Ret_iff)
  have "?f \<in> opened C_socket (fst (e (world s) C_socket))" using ft(2) by simp
  then have "?f \<notin> tab (world s)" using fd_law_fresh [OF assms(1)] by blast
  moreover have "tab (world t) = insert ?f (tab (world s))"
    unfolding ft(3) using ft(2) by (simp add: fd_law_tab [OF assms(1)] opts)
  ultimately show ?thesis using ft by simp
qed

lemma listen_on_not_Exit:
  "fst (listen_on e pton opts ip port s) = Assert_failed \<or> (\<exists>f. fst (listen_on e pton opts ip port s) = Ret f)"
  by (simp add: listen_on_def Let_def split_beta assert_that_def)

section \<open>Loops over a libevent buffer\<close>

text \<open>
  \<open>bufferevent_read\<close> never delivers more than it was asked for, and a positive result is the
  number of bytes delivered.
\<close>

definition bev_read_law :: "'w env \<Rightarrow> bool" where
  "bev_read_law e \<longleftrightarrow>
     (\<forall>w b n. let a = fst (e w (C_lev (Bev_read b n))) in
        ret a \<le> int n \<and> length (bytes_of (payload a)) = nat (ret a))"

text \<open>A buffer holds finitely many bytes and every successful read takes some of them.\<close>

definition bev_finite :: "('w \<Rightarrow> int \<Rightarrow> nat) \<Rightarrow> 'w env \<Rightarrow> bool" where
  "bev_finite pend e \<longleftrightarrow>
     (\<forall>w b n. 0 < ret (fst (e w (C_lev (Bev_read b n)))) \<longrightarrow>
        pend (snd (e w (C_lev (Bev_read b n)))) b < pend w b)"

locale bev_loop =
  fixes e :: "'w env"
    and b :: int
    and n :: nat
    and world_of :: "'s \<Rightarrow> 'w"
    and body :: "'s \<Rightarrow> 's + 'r"
  assumes continues: "body s = Inl s' \<Longrightarrow>
     0 < ret (fst (e (world_of s) (C_lev (Bev_read b n)))) \<and>
     world_of s' = snd (e (world_of s) (C_lev (Bev_read b n)))"
begin

lemma terminates: "bev_finite pend e \<Longrightarrow> \<exists>r. loop_until body s = Some r"
  by (rule loop_until_terminates [where m = "\<lambda>s. pend (world_of s) b" and P = "\<lambda>_. True"])
     (use continues in \<open>auto simp: bev_finite_def\<close>)

end

lemma bev_read_lawD:
  assumes "bev_read_law e"
  shows "ret (fst (e w (C_lev (Bev_read b n)))) \<le> int n"
    and "length (bytes_of (payload (fst (e w (C_lev (Bev_read b n)))))) =
      nat (ret (fst (e w (C_lev (Bev_read b n)))))"
  using assms unfolding bev_read_law_def Let_def by blast+

lemma script_bev_read_law: "bev_read_law script_env"
  unfolding bev_read_law_def Let_def
proof (intro allI)
  fix w b n
  show "ret (fst (script_env w (C_lev (Bev_read b n)))) \<le> int n \<and>
    length (bytes_of (payload (fst (script_env w (C_lev (Bev_read b n)))))) =
      nat (ret (fst (script_env w (C_lev (Bev_read b n)))))"
    using next_answer_cases [of "C_lev (Bev_read b n)" w] by (auto simp: script_env_def legal_def)
qed

lemma script_bev_finite: "bev_finite (\<lambda>w b. length (s_answers w)) script_env"
  by (auto simp: bev_finite_def script_env_def next_answer_def split: list.splits)

section \<open>The message loop of the bufferevent callbacks\<close>

text \<open>
  The callbacks of the two libevent servers share a static counter of received messages and the
  loop that reads them; \<open>buf\<close> is the local array, which keeps its content between turns, and
  \<open>line\<close> the line logged for a message.
\<close>

record 'w cnt_st = "'w proc" +
  succ_cli_count :: "32 word"

definition bev_read_body :: "'w env \<Rightarrow> int \<Rightarrow> (32 word \<Rightarrow> int \<Rightarrow> bytes \<Rightarrow> logline) \<Rightarrow>
  bytes \<times> ('w, 'x) cnt_st_scheme \<Rightarrow> bytes \<times> ('w, 'x) cnt_st_scheme + ('w, 'x) cnt_st_scheme" where
  "bev_read_body e be line st =
     (let (buf, s) = st;
          (a, s) = ext e (C_lev (Bev_read be (BUF_SIZE - 1))) s;
          n = ret a
      in if n \<le> 0 then Inr s
         else
           let buf = (fill_buf buf (bytes_of (payload a)))[nat n := 0];
               s = s\<lparr>succ_cli_count := succ_cli_count s + 1\<rparr>;
               s = log (line (succ_cli_count s) n (cstr buf)) s
           in Inl (buf, s))"

lemma cnt_st_frame [simp]:
  fixes s :: "('w, 'x) cnt_st_scheme"
  shows "succ_cli_count (extu e c s) = succ_cli_count s" "succ_cli_count (log l s) = succ_cli_count s"
  by (simp_all add: ext_def log_def Let_def)

interpretation bev_reads: bev_loop e be "BUF_SIZE - 1" "\<lambda>(buf, s). world s" "bev_read_body e be line"
  for e :: "'w env" and be :: int and line
  by unfold_locales (auto simp: bev_read_body_def Let_def split_beta split: if_splits)

text \<open>
  \<open>counted\<close>: \<open>as\<close> are the positive answers read so far; each is one message, logged with the
  running count.
\<close>

definition messages :: "(32 word \<Rightarrow> int \<Rightarrow> bytes \<Rightarrow> logline) \<Rightarrow> 32 word \<Rightarrow> answer list \<Rightarrow> logline list" where
  "messages line n as = map (\<lambda>(k, a). line (n + of_nat (Suc k)) (ret a) (cstr (bytes_of (payload a)))) (enumerate 0 as)"

definition counted :: "int \<Rightarrow> (32 word \<Rightarrow> int \<Rightarrow> bytes \<Rightarrow> logline) \<Rightarrow> ('w, 'x) cnt_st_scheme \<Rightarrow> answer list \<Rightarrow>
  bytes \<times> ('w, 'x) cnt_st_scheme \<Rightarrow> bool" where
  "counted be line s as bt \<longleftrightarrow>
     length (fst bt) = BUF_SIZE \<and> (\<forall>a \<in> set as. 0 < ret a) \<and>
     trace (snd bt) = trace s @ map (Pair (C_lev (Bev_read be (BUF_SIZE - 1)))) as \<and>
     succ_cli_count (snd bt) = succ_cli_count s + of_nat (length as) \<and>
     out (snd bt) = out s @ messages line (succ_cli_count s) as"

lemma messages_snoc:
  "messages line n (as @ [a]) = messages line n as @ [line (n + of_nat (Suc (length as))) (ret a) (cstr (bytes_of (payload a)))]"
  by (simp add: messages_def enumerate_append_eq)

lemma bev_read_Inl:
  assumes "bev_read_law e" and "counted be line s as bt" and "bev_read_body e be line bt = Inl bu"
  shows "\<exists>a. counted be line s (as @ [a]) bu"
proof -
  obtain buf t where bt: "bt = (buf, t)" by fastforce
  let ?a = "fst (e (world t) (C_lev (Bev_read be (BUF_SIZE - 1))))"
  have pos: "0 < ret ?a" using assms(3) by (auto simp: bt bev_read_body_def Let_def split_beta split: if_splits)
  have len: "length (bytes_of (payload ?a)) = nat (ret ?a)" "ret ?a \<le> int (BUF_SIZE - 1)"
    using bev_read_lawD [OF assms(1), of "world t" be "BUF_SIZE - 1"] by simp_all
  have buf: "length buf = BUF_SIZE" using assms(2) by (simp add: counted_def bt)
  have lt: "length (bytes_of (payload ?a)) < length buf" using len buf pos by (simp add: BUF_SIZE_def)
  let ?buf = "(fill_buf buf (bytes_of (payload ?a)))[nat (ret ?a) := 0]"
  have msg: "cstr ?buf = cstr (bytes_of (payload ?a))"
    by (rule cstr_fill_terminated [OF lt, unfolded len(1)])
  have "length ?buf = BUF_SIZE" using length_fill_buf [of "bytes_of (payload ?a)" buf] lt buf by simp
  then have "counted be line s (as @ [?a]) bu"
    using assms(2,3) pos msg
    by (auto simp: counted_def bt bev_read_body_def Let_def split_beta messages_snoc algebra_simps)
  then show ?thesis by blast
qed

text \<open>The loop as a whole: it ends, and \<open>as\<close> are the messages it has read.\<close>

definition read_messages :: "int \<Rightarrow> (32 word \<Rightarrow> int \<Rightarrow> bytes \<Rightarrow> logline) \<Rightarrow> ('w, 'x) cnt_st_scheme \<Rightarrow>
  answer list \<Rightarrow> ('w, 'x) cnt_st_scheme \<Rightarrow> bool" where
  "read_messages be line s as t \<longleftrightarrow>
     (\<forall>a \<in> set as. 0 < ret a) \<and>
     calls t = calls s @ replicate (length as + 1) (C_lev (Bev_read be (BUF_SIZE - 1))) \<and>
     succ_cli_count t = succ_cli_count s + of_nat (length as) \<and>
     out t = out s @ messages line (succ_cli_count s) as"

lemma counted_end:
  fixes bt :: "bytes \<times> ('w, 'x) cnt_st_scheme"
  assumes "counted be line s as bt"
  shows "read_messages be line s as (extu e (C_lev (Bev_read be (BUF_SIZE - 1))) (snd bt))"
proof -
  have "map fst (map (Pair c) xs) = replicate (length xs) c" for c :: extcall and xs :: "answer list"
    by (induction xs) simp_all
  then show ?thesis
    using assms by (simp add: counted_def read_messages_def replicate_append_same del: map_map)
qed

lemma bev_read_all:
  fixes s :: "('w, 'x) cnt_st_scheme"
  assumes "bev_read_law e" and "bev_finite pend e" and "length buf = BUF_SIZE"
  shows "\<exists>t as. loop_until (bev_read_body e be line) (buf, s) = Some t \<and> read_messages be line s as t"
proof -
  obtain t where t: "loop_until (bev_read_body e be line) (buf, s) = Some t"
    using bev_reads.terminates [OF assms(2)] by blast
  have "\<exists>as. read_messages be line s as t"
  proof (rule loop_until_invariant [OF t, where P = "\<lambda>u. \<exists>as. counted be line s as u"])
    show "\<exists>as. counted be line s as (buf, s)"
      using assms(3) by (intro exI [of _ "[]"]) (simp add: counted_def messages_def)
    show "\<exists>as. counted be line s as v" if "\<exists>as. counted be line s as u" "bev_read_body e be line u = Inl v" for u v
      using that bev_read_Inl [OF assms(1)] by blast
    show "\<exists>as. read_messages be line s as t" if "\<exists>as. counted be line s as u" "bev_read_body e be line u = Inr t" for u t
    proof -
      have "t = extu e (C_lev (Bev_read be (BUF_SIZE - 1))) (snd u)"
        using that(2) by (auto simp: bev_read_body_def Let_def split_beta split: if_splits)
      with that(1) show ?thesis using counted_end by blast
    qed
  qed
  with t show ?thesis by blast
qed

end
