(* ===== verification/ThreadPool.thy ===== *)
theory ThreadPool
  imports Net ThreadSafeQueue
begin

unbundle bit_operations_syntax

text \<open>
  The thread pool server of server/include/libev_half_sync_reactive_thread_pool_server.hpp: the
  main thread accepts connections and hands them round robin to worker threads, through one
  \<open>ThreadSafeQueue\<close> and one socket pair per worker; every worker runs a libevent loop. The
  callbacks are modelled one by one, then the main thread and the workers are run against each
  other.
\<close>

section \<open>State\<close>

datatype CommMsgType = COMM_NEW_CONNECTED | COMM_TERMINATE

text \<open>The byte an enumerator becomes when it is stored in a \<open>uint8_t\<close>.\<close>

fun msg_byte :: "CommMsgType \<Rightarrow> byte" where
  "msg_byte COMM_NEW_CONNECTED = 0"
| "msg_byte COMM_TERMINATE = 1"

datatype CommQueueItem = CommQueueItem (item_fd: fd)

record CommContex =
  worker_id :: nat
  ev_base :: int

text \<open>
  The globals of the file; \<open>cur_worker_ind\<close> is the static variable of
  \<open>conn_listener_cb\<close>, \<open>tasks\<close> what has been dispatched to the boost thread pool.
\<close>

record 'w tp_st = "'w cnt_st" +
  comm_pipes :: "fd list"
  comm_queues :: "CommQueueItem ThreadSafeQueue list"
  cur_worker_ind :: nat
  tasks :: "(nat \<times> fd) list"

definition BEV_EVENT_EOF :: "16 word" where "BEV_EVENT_EOF = 16"
definition BEV_EVENT_ERROR :: "16 word" where "BEV_EVENT_ERROR = 32"

section \<open>Callbacks of a worker\<close>

text \<open>The line logged for a message.\<close>

definition client_line :: "nat \<Rightarrow> fd \<Rightarrow> 32 word \<Rightarrow> int \<Rightarrow> bytes \<Rightarrow> logline" where
  "client_line worker_ind cli_fd count n msg =
     L_data ''Recv from fd'' [int worker_ind, cli_fd, sint count, n] msg"

text \<open>The reply \<open>"OK"\<close>.\<close>

definition tp_ok_bytes :: bytes where
  "tp_ok_bytes = [79, 75]"

text \<open>\<open>buf\<close> is what the uninitialised array holds at first.\<close>

definition client_msg_cb :: "'w env \<Rightarrow> bytes \<Rightarrow> int \<Rightarrow> CommContex \<Rightarrow> 'w tp_st \<Rightarrow> 'w tp_st option" where
  "client_msg_cb e buf be ctx s =
     (let worker_ind = worker_id ctx;
          (a, s) = ext e (C_lev (Bev_getfd be)) s;
          cli_fd = ret a
      in map_option
           (\<lambda>s. extu e (C_lev (Bev_write be tp_ok_bytes)) (extu e (C_sleep_ms 100) s))
           (loop_until (bev_read_body e be (client_line worker_ind cli_fd)) (buf, s)))"

definition client_event_cb :: "'w env \<Rightarrow> int \<Rightarrow> 16 word \<Rightarrow> CommContex \<Rightarrow> 'w tp_st \<Rightarrow> 'w tp_st" where
  "client_event_cb e be event ctx s =
     (let worker_ind = int (worker_id ctx);
          (a, s) = ext e (C_lev (Bev_getfd be)) s;
          cli_fd = ret a
      in if event AND BEV_EVENT_EOF \<noteq> 0 then
           extu e (C_lev (Bev_free be)) (log (L_data ''Remote fd disconnect'' [worker_ind, cli_fd] []) s)
         else if event AND BEV_EVENT_ERROR \<noteq> 0 then
           extu e (C_lev (Bev_free be)) (log (L_data ''Remote fd error'' [worker_ind, cli_fd, errno s] []) s)
         else s)"

text \<open>A worker takes a dispatched connection over.\<close>

definition take_conn :: "'w env \<Rightarrow> CommContex \<Rightarrow> fd \<Rightarrow> 'w tp_st \<Rightarrow> 'w tp_st" where
  "take_conn e ctx fd s =
     (let s = log (L_data ''Received new connection distribution fd'' [int (worker_id ctx), fd] []) s;
          (a, s) = ext e (C_lev (Bev_socket_new (ev_base ctx) fd)) s;
          be = ret a;
          s = extu e (C_lev (Bev_setcb be ''client_msg_cb'' ''client_event_cb'')) s
      in extu e (C_lev (Bev_enable be)) s)"

text \<open>
  One turn of \<open>while (comm_queues[worker_ind].try_pop(cq_msg))\<close>, on the local \<open>cq_msg\<close>
  and the state.
\<close>

definition drain_queue_body :: "'w env \<Rightarrow> CommContex \<Rightarrow> CommQueueItem \<times> 'w tp_st \<Rightarrow>
  CommQueueItem \<times> 'w tp_st + 'w tp_st" where
  "drain_queue_body e ctx st =
     (let (cq_msg, s) = st;
          i = worker_id ctx;
          (found, cq_msg, q) = tsq_try_pop (comm_queues s ! i) cq_msg;
          s = s\<lparr>comm_queues := (comm_queues s)[i := q]\<rparr>
      in if found then Inl (cq_msg, take_conn e ctx (item_fd cq_msg) s) else Inr s)"

text \<open>
  One turn of the loop of \<open>main_msg_cb\<close>. An index outside \<open>comm_queues\<close> is undefined; a
  drain that never ends gives \<open>None\<close>.
\<close>

definition main_msg_body :: "'w env \<Rightarrow> CommContex \<Rightarrow> fd \<Rightarrow> 'w tp_st \<Rightarrow>
  'w tp_st + (unit outcome \<times> 'w tp_st) option" where
  "main_msg_body e ctx fd s =
     (let (a, s) = ext e (C_recv fd 1) s;
          len = ret a
      in if 0 < len then
           let msg_type = hd (bytes_of (payload a))
           in if msg_type = msg_byte COMM_NEW_CONNECTED then
                if worker_id ctx < length (comm_queues s) then
                  (case loop_until (drain_queue_body e ctx) (CommQueueItem (-1), s) of
                     None \<Rightarrow> Inr None
                   | Some s \<Rightarrow> Inl s)
                else Inr (Some (Undefined, s))
              else if msg_type = msg_byte COMM_TERMINATE then
                let s = log (L_data ''Received terminate cmd.'' [int (worker_id ctx)] []) s
                in Inr (Some (Ret (), extu e (C_lev (Base_loopexit (ev_base ctx))) s))
              else Inl s
         else if len = 0 \<or> (len < 0 \<and> errno s \<noteq> EAGAIN \<and> errno s \<noteq> EWOULDBLOCK) then
           let s = log (L_data ''Main thread close communication fd.'' [int (worker_id ctx)] []) s
           in Inr (Some (Ret (), extu e (C_lev (Base_loopexit (ev_base ctx))) s))
         else Inr (Some (Ret (), s)))"

definition main_msg_cb :: "'w env \<Rightarrow> fd \<Rightarrow> CommContex \<Rightarrow> 'w tp_st \<Rightarrow> (unit outcome \<times> 'w tp_st) option" where
  "main_msg_cb e fd ctx s =
     (case loop_until (main_msg_body e ctx fd) s of None \<Rightarrow> None | Some r \<Rightarrow> r)"

text \<open>
  \<open>dispatch\<close> stands for \<open>event_base_dispatch\<close>, which runs the callbacks registered with the
  base until somebody asks it to exit.
\<close>

definition worker_func :: "'w env \<Rightarrow> (int \<Rightarrow> CommContex \<Rightarrow> 'w tp_st \<Rightarrow> int \<times> 'w tp_st) \<Rightarrow> nat \<Rightarrow> fd \<Rightarrow>
  'w tp_st \<Rightarrow> 'w tp_st" where
  "worker_func e dispatch worker_ind main_fd s =
     (let s = log (L_data ''begin running...'' [int worker_ind] []) s;
          (b, s) = ext e (C_lev Base_new) s;
          base = ret b;
          (v, s) = ext e (C_lev (Event_new 0 (-1) '''')) s;
          main_ev = ret v;
          args = \<lparr>worker_id = worker_ind, ev_base = base\<rparr>;
          s = extu e (C_lev (Event_assign main_ev base main_fd ''main_msg_cb'')) s;
          s = extu e (C_lev (Event_add main_ev)) s;
          (r, s) = dispatch base args s;
          s = log (L_data ''event base looper end, ret'' [int worker_ind, r, errno s] []) s;
          s = extu e (C_close main_fd) s;
          s = extu e (C_lev (Event_free main_ev)) s
      in extu e (C_lev (Base_free base)) s)"

section \<open>Callbacks of the main thread\<close>

definition next_worker :: "nat \<Rightarrow> nat \<Rightarrow> nat" where
  "next_worker concur c = (let c = c + 1 in if concur \<le> c then 0 else c)"

definition push_conn :: "CommQueueItem ThreadSafeQueue list \<Rightarrow> nat \<Rightarrow> fd \<Rightarrow> CommQueueItem ThreadSafeQueue list" where
  "push_conn qs i fd = qs[i := tsq_push (qs ! i) (CommQueueItem fd)]"

definition conn_listener_cb :: "'w env \<Rightarrow> fd \<Rightarrow> 'w tp_st \<Rightarrow> unit outcome \<times> 'w tp_st" where
  "conn_listener_cb e fd s =
     (let s = log (L_connected fd) s;
          s = extu e (C_nonblocking fd) s;
          concur = length (comm_queues s);
          i = cur_worker_ind s
      in if i < length (comm_queues s) then
           let s = s\<lparr>comm_queues := push_conn (comm_queues s) i fd\<rparr>
           in if i < length (comm_pipes s) then
                let s = extu e (C_send (comm_pipes s ! i) [msg_byte COMM_NEW_CONNECTED]) s
                in (Ret (), s\<lparr>cur_worker_ind := next_worker concur i\<rparr>)
              else (Undefined, s)
         else (Undefined, s))"

definition signal_event_cb :: "'w env \<Rightarrow> int \<Rightarrow> int \<Rightarrow> 'w tp_st \<Rightarrow> 'w tp_st" where
  "signal_event_cb e sig base s =
     (let s = log (L_signal sig) s
      in if sig = SIGINT then
           extu e (C_lev (Base_loopexit base))
             (fold (\<lambda>fd s. extu e (C_send fd [msg_byte COMM_TERMINATE]) s) (comm_pipes s) s)
         else s)"

text \<open>The loop of \<open>start_libev_adv_server\<close> that starts the workers.\<close>

fun start_workers :: "'w env \<Rightarrow> nat list \<Rightarrow> 'w tp_st \<Rightarrow> unit outcome \<times> 'w tp_st" where
  "start_workers e [] s = (Ret (), s)"
| "start_workers e (i # is) s =
     (let (a, s) = ext e C_socketpair s
      in if ret a \<noteq> 0 then (Assert_failed, s)
         else
           let fds = pair_of (payload a);
               s = extu e (C_nonblocking (fst fds)) s;
               s = extu e (C_nonblocking (snd fds)) s;
               s = s\<lparr>comm_pipes := comm_pipes s @ [snd fds],
                     comm_queues := comm_queues s @ [tsq_new],
                     tasks := tasks s @ [(i, fst fds)]\<rparr>
           in start_workers e is s)"

text \<open>
  \<open>main_loop\<close> stands for the main thread's \<open>event_base_dispatch\<close>, \<open>join\<close> for
  \<open>pool.join()\<close>.
\<close>

definition start_libev_adv_server :: "'w env \<Rightarrow> (string \<Rightarrow> (32 word) option) \<Rightarrow>
  (int \<Rightarrow> 'w tp_st \<Rightarrow> int \<times> 'w tp_st) \<Rightarrow> ('w tp_st \<Rightarrow> 'w tp_st) \<Rightarrow> string \<Rightarrow> int \<Rightarrow> int \<Rightarrow>
  'w tp_st \<Rightarrow> unit outcome \<times> 'w tp_st" where
  "start_libev_adv_server e pton main_loop join ip port concur s =
     then_do (start_workers e [0..<nat concur] s) (\<lambda>_ s.
       let srv_addr = make_addr pton ip port;
           (b, s) = ext e (C_lev Base_new) s;
           base = ret b;
           (v, s) = ext e (C_lev (Evsignal_new base SIGINT ''signal_event_cb'')) s;
           sig_listener = ret v;
           s = extu e (C_lev (Event_add sig_listener)) s;
           (l, s) = ext e (C_lev (Evconnlistener_new_bind base ''conn_listener_cb''
                      (sin_addr srv_addr) (sin_port srv_addr))) s;
           con_listener = ret l;
           (r, s) = main_loop base s;
           s = log (L_data ''[Main thread] event base looper end, ret'' [r, errno s] []) s;
           s = extu e (C_lev (Evconnlistener_free con_listener)) s;
           s = extu e (C_lev (Event_free sig_listener)) s;
           s = extu e (C_lev (Base_free base)) s
       in (Ret (), join s))"

section \<open>Frames\<close>

lemma tp_st_frame [simp]:
  fixes s :: "'w tp_st"
  shows "comm_pipes (extu e c s) = comm_pipes s" "comm_queues (extu e c s) = comm_queues s"
    "succ_cli_count (extu e c s) = succ_cli_count s" "cur_worker_ind (extu e c s) = cur_worker_ind s"
    "tasks (extu e c s) = tasks s"
    "comm_pipes (log l s) = comm_pipes s" "comm_queues (log l s) = comm_queues s"
    "succ_cli_count (log l s) = succ_cli_count s" "cur_worker_ind (log l s) = cur_worker_ind s"
    "tasks (log l s) = tasks s"
  by (simp_all add: ext_def log_def Let_def)

lemma take_conn_frame [simp]:
  "comm_pipes (take_conn e ctx f s) = comm_pipes s" "comm_queues (take_conn e ctx f s) = comm_queues s"
  "cur_worker_ind (take_conn e ctx f s) = cur_worker_ind s"
  by (simp_all add: take_conn_def Let_def split_beta)

section \<open>A worker takes over what is in its queue\<close>

text \<open>The connections for which a list of calls creates a libevent buffer, in order.\<close>

fun conn_of :: "extcall \<Rightarrow> fd list" where
  "conn_of (C_lev (Bev_socket_new b f)) = [f]"
| "conn_of _ = []"

definition new_conns :: "extcall list \<Rightarrow> fd list" where
  "new_conns cs = concat (map conn_of cs)"

lemma new_conns_simps [simp]:
  "new_conns [] = []" "new_conns (c # cs) = conn_of c @ new_conns cs"
  "new_conns (cs @ ds) = new_conns cs @ new_conns ds"
  by (simp_all add: new_conns_def)

text \<open>Creating and enabling libevent objects does not make more input pending on a socket.\<close>

definition lev_quiet :: "('w \<Rightarrow> fd \<Rightarrow> nat) \<Rightarrow> 'w env \<Rightarrow> bool" where
  "lev_quiet pend e \<longleftrightarrow> (\<forall>w k f. pend (snd (e w (C_lev k))) f \<le> pend w f)"

lemma take_conn_calls:
  "\<exists>l. trace (take_conn e ctx f s) = trace s @ l \<and> new_conns (map fst l) = [f]"
  by (simp add: take_conn_def Let_def split_beta)

lemma take_conn_pend:
  assumes "lev_quiet pend e"
  shows "pend (world (take_conn e ctx f s)) g \<le> pend (world s) g"
proof -
  have q: "pend (snd (e w (C_lev k))) g \<le> pend w g" for w k using assms by (simp add: lev_quiet_def)
  show ?thesis unfolding take_conn_def Let_def split_beta by (simp, meson q order_trans)
qed

text \<open>
  \<open>handed i s t\<close>: what worker \<open>i\<close> has registered from \<open>s\<close> to \<open>t\<close>, followed by what is
  still in its queue, is what was in its queue; nobody else's queue has changed.
\<close>

definition handed :: "nat \<Rightarrow> 'w tp_st \<Rightarrow> 'w tp_st \<Rightarrow> bool" where
  "handed i s t \<longleftrightarrow>
     length (comm_queues t) = length (comm_queues s) \<and>
     (\<forall>j. j \<noteq> i \<longrightarrow> comm_queues t ! j = comm_queues s ! j) \<and>
     (\<exists>l. trace t = trace s @ l \<and>
        new_conns (map fst l) @ map item_fd (data_queue (comm_queues t ! i)) =
          map item_fd (data_queue (comm_queues s ! i)))"

lemma handed_refl [simp]: "handed i s s"
  by (simp add: handed_def)

lemma handed_trans:
  assumes "handed i s t" and "handed i t u"
  shows "handed i s u"
proof -
  obtain l where l: "trace t = trace s @ l"
    "new_conns (map fst l) @ map item_fd (data_queue (comm_queues t ! i)) = map item_fd (data_queue (comm_queues s ! i))"
    using assms(1) by (auto simp: handed_def)
  obtain l' where l': "trace u = trace t @ l'"
    "new_conns (map fst l') @ map item_fd (data_queue (comm_queues u ! i)) = map item_fd (data_queue (comm_queues t ! i))"
    using assms(2) by (auto simp: handed_def)
  have "trace u = trace s @ (l @ l')" using l(1) l'(1) by simp
  moreover have "new_conns (map fst (l @ l')) @ map item_fd (data_queue (comm_queues u ! i)) =
      map item_fd (data_queue (comm_queues s ! i))"
    using l(2) l'(2) by (metis append_assoc map_append new_conns_simps(3))
  ultimately show ?thesis using assms unfolding handed_def by auto
qed

lemma handed_ext: "conn_of c = [] \<Longrightarrow> handed i s t \<Longrightarrow> handed i s (extu e c t)"
  by (rule handed_trans [of i s t]) (simp_all add: handed_def)

lemma handed_log: "handed i s t \<Longrightarrow> handed i s (log l t)"
  by (simp add: handed_def)

lemma drain_queue:
  fixes s :: "'w tp_st"
  assumes "lev_quiet pend e" and "worker_id ctx < length (comm_queues s)"
  shows "\<exists>t. loop_until (drain_queue_body e ctx) (m, s) = Some t \<and> handed (worker_id ctx) s t \<and>
    data_queue (comm_queues t ! worker_id ctx) = [] \<and> (\<forall>g. pend (world t) g \<le> pend (world s) g)"
  using assms(2)
proof (induction "data_queue (comm_queues s ! worker_id ctx)" arbitrary: m s)
  case Nil
  then have "tsq_try_pop (comm_queues s ! worker_id ctx) m = (False, m, comm_queues s ! worker_id ctx)"
    by (intro tsq.try_pop_empty) simp
  then have "drain_queue_body e ctx (m, s) = Inr s"
    by (simp add: drain_queue_body_def)
  then show ?case using Nil by (intro exI [of _ s]) simp
next
  case (Cons x xs)
  let ?i = "worker_id ctx"
  obtain q where q: "tsq_try_pop (comm_queues s ! ?i) m = (True, x, q)" "data_queue q = xs"
    using tsq.try_pop_cons [of "comm_queues s ! ?i" x xs m] Cons.hyps(2) by auto
  let ?u = "take_conn e ctx (item_fd x) (s\<lparr>comm_queues := (comm_queues s)[?i := q]\<rparr>)"
  have body: "drain_queue_body e ctx (m, s) = Inl (x, ?u)"
    using q(1) by (simp add: drain_queue_body_def)
  have u: "data_queue (comm_queues ?u ! ?i) = xs" "?i < length (comm_queues ?u)"
    using q(2) Cons.prems by simp_all
  obtain l where l: "trace ?u = trace s @ l" "new_conns (map fst l) = [item_fd x]"
    using take_conn_calls [of e ctx "item_fd x" "s\<lparr>comm_queues := (comm_queues s)[?i := q]\<rparr>"] by auto
  have "handed ?i s ?u"
    using l u(1) Cons.hyps(2) [symmetric] by (auto simp: handed_def intro!: exI [of _ l])
  moreover have "\<forall>g. pend (world ?u) g \<le> pend (world s) g"
    using take_conn_pend [OF assms(1), of ctx "item_fd x" "s\<lparr>comm_queues := (comm_queues s)[?i := q]\<rparr>"] by simp
  moreover obtain t where "loop_until (drain_queue_body e ctx) (x, ?u) = Some t" "handed ?i ?u t"
    "data_queue (comm_queues t ! ?i) = []" "\<forall>g. pend (world t) g \<le> pend (world ?u) g"
    using Cons.hyps(1) [OF u(1) [symmetric] u(2)] by blast
  ultimately show ?case
    using body handed_trans by (intro exI [of _ t]) (auto intro: order_trans)
qed

lemma main_msg_stop:
  fixes s :: "'w tp_st"
  assumes "\<not> 0 < ret (fst (e (world s) (C_recv fd 1)))"
  shows "\<exists>t. main_msg_body e ctx fd s = Inr (Some (Ret (), t)) \<and> handed (worker_id ctx) s t"
  using assms by (simp add: main_msg_body_def Let_def split_beta handed_ext handed_log)

lemma main_msg_turn:
  fixes s :: "'w tp_st"
  assumes "lev_quiet pend e" and "worker_id ctx < length (comm_queues s)"
    and "0 < ret (fst (e (world s) (C_recv fd 1)))"
  defines "u \<equiv> extu e (C_recv fd 1) s"
  shows "(\<exists>t. main_msg_body e ctx fd s = Inl t \<and> handed (worker_id ctx) s t \<and>
      (\<forall>g. pend (world t) g \<le> pend (world u) g) \<and>
      (hd (bytes_of (payload (fst (e (world s) (C_recv fd 1))))) = msg_byte COMM_NEW_CONNECTED \<longrightarrow>
         data_queue (comm_queues t ! worker_id ctx) = [])) \<or>
    (\<exists>t. main_msg_body e ctx fd s = Inr (Some (Ret (), t)) \<and> handed (worker_id ctx) s t)"
proof -
  let ?m = "hd (bytes_of (payload (fst (e (world s) (C_recv fd 1)))))"
  have u: "handed (worker_id ctx) s u" unfolding u_def by (simp add: handed_ext)
  consider "?m = msg_byte COMM_NEW_CONNECTED" | "?m = msg_byte COMM_TERMINATE"
    | "?m \<noteq> msg_byte COMM_NEW_CONNECTED" "?m \<noteq> msg_byte COMM_TERMINATE" by blast
  then show ?thesis
  proof cases
    case 1
    have "worker_id ctx < length (comm_queues u)" using assms(2) by (simp add: u_def)
    from drain_queue [OF assms(1) this] obtain t
      where t: "loop_until (drain_queue_body e ctx) (CommQueueItem (-1), u) = Some t" "handed (worker_id ctx) u t"
        "data_queue (comm_queues t ! worker_id ctx) = []" "\<forall>g. pend (world t) g \<le> pend (world u) g"
      by blast
    have "main_msg_body e ctx fd s = Inl t"
      using assms(2,3) 1 t(1) by (simp add: main_msg_body_def Let_def split_beta u_def)
    then show ?thesis using t handed_trans [OF u t(2)] by blast
  next
    case 2
    let ?t = "extu e (C_lev (Base_loopexit (ev_base ctx))) (log (L_data ''Received terminate cmd.'' [int (worker_id ctx)] []) u)"
    have "main_msg_body e ctx fd s = Inr (Some (Ret (), ?t))"
      using assms(3) 2 by (simp add: main_msg_body_def Let_def split_beta u_def)
    moreover have "handed (worker_id ctx) s ?t" using u by (simp add: handed_ext handed_log)
    ultimately show ?thesis by blast
  next
    case 3
    then have "main_msg_body e ctx fd s = Inl u"
      using assms(3) by (simp add: main_msg_body_def Let_def split_beta u_def)
    then show ?thesis using 3 u by auto
  qed
qed

text \<open>
  A worker's callback for messages of the main thread always returns, as long as finitely many
  bytes can arrive on its pipe. What it has registered with its event loop, followed by what is
  left in its queue, is what its queue held: connections are taken over in order, none is dropped
  and none is taken twice. No other worker's queue is touched.
\<close>

theorem main_msg_cb_hands_over:
  fixes s :: "'w tp_st"
  assumes "recv_finite pend e" and "lev_quiet pend e" and "worker_id ctx < length (comm_queues s)"
  shows "\<exists>t l. main_msg_cb e fd ctx s = Some (Ret (), t) \<and> trace t = trace s @ l \<and>
    new_conns (map fst l) @ map item_fd (data_queue (comm_queues t ! worker_id ctx)) =
      map item_fd (data_queue (comm_queues s ! worker_id ctx)) \<and>
    length (comm_queues t) = length (comm_queues s) \<and>
    (\<forall>j. j \<noteq> worker_id ctx \<longrightarrow> comm_queues t ! j = comm_queues s ! j)"
proof -
  let ?i = "worker_id ctx"
  have "\<exists>t. loop_until (main_msg_body e ctx fd) s = Some (Some (Ret (), t)) \<and> handed ?i s t"
    using assms(3)
  proof (induction "pend (world s) fd" arbitrary: s rule: less_induct)
    case less
    let ?a = "fst (e (world s) (C_recv fd 1))"
    show ?case
    proof (cases "0 < ret ?a")
      case False
      then obtain t where "main_msg_body e ctx fd s = Inr (Some (Ret (), t))" "handed ?i s t"
        using main_msg_stop by blast
      then show ?thesis by (intro exI [of _ t]) simp
    next
      case True
      then have smaller: "pend (snd (e (world s) (C_recv fd 1))) fd < pend (world s) fd"
        using assms(1) by (simp add: recv_finite_def)
      from main_msg_turn [OF assms(2) less.prems True] show ?thesis
      proof (elim disjE exE conjE)
        fix u
        assume u: "main_msg_body e ctx fd s = Inl u" "handed ?i s u"
          "\<forall>g. pend (world u) g \<le> pend (world (extu e (C_recv fd 1) s)) g"
        then have "pend (world u) fd < pend (world s) fd"
          using smaller by (metis ext_fields(1) order.strict_trans1)
        moreover have "?i < length (comm_queues u)" using u(2) less.prems by (simp add: handed_def)
        ultimately obtain t where "loop_until (main_msg_body e ctx fd) u = Some (Some (Ret (), t))" "handed ?i u t"
          using less.hyps by blast
        then show ?thesis using u(1) handed_trans [OF u(2)] by (intro exI [of _ t]) simp
      next
        fix t
        assume "main_msg_body e ctx fd s = Inr (Some (Ret (), t))" "handed ?i s t"
        then show ?thesis by (intro exI [of _ t]) simp
      qed
    qed
  qed
  then obtain t where "main_msg_cb e fd ctx s = Some (Ret (), t)" "handed ?i s t"
    by (auto simp: main_msg_cb_def)
  then show ?thesis by (auto simp: handed_def)
qed

text \<open>A server state for the witnesses: one pipe and one queue per entry.\<close>

definition tp_of :: "'w \<Rightarrow> fd list \<Rightarrow> fd list list \<Rightarrow> nat \<Rightarrow> 'w tp_st" where
  "tp_of w ps qs c =
     \<lparr>world = w, errno = 0, trace = [], out = [], succ_cli_count = 0, comm_pipes = ps,
      comm_queues = map (\<lambda>q. \<lparr>data_queue = map CommQueueItem q\<rparr>) qs,
      cur_worker_ind = c, tasks = []\<rparr>"

lemma script_lev_quiet: "lev_quiet (\<lambda>w f. length (s_answers w)) script_env"
  by (simp add: lev_quiet_def script_env_def)

theorem main_msg_cb_hands_over_witness:
  "\<exists>t. main_msg_cb script_env 8 \<lparr>worker_id = 1, ev_base = 30\<rparr>
      (tp_of (script {8} [ok_with 1 (P_bytes [0]), ok 50, ok 0, ok 0, ok 51, ok 0, ok 0]) [4, 5] [[20], [21, 22]] 0) =
      Some (Ret (), t) \<and> comm_queues t ! 0 = \<lparr>data_queue = [CommQueueItem 20]\<rparr>"
proof -
  let ?s = "tp_of (script {8} [ok_with 1 (P_bytes [0]), ok 50, ok 0, ok 0, ok 51, ok 0, ok 0]) [4, 5] [[20], [21, 22]] 0"
  have "worker_id \<lparr>worker_id = 1, ev_base = 30\<rparr> < length (comm_queues ?s)" by (simp add: tp_of_def)
  from main_msg_cb_hands_over [OF script_recv_finite script_lev_quiet this, of 8]
  show ?thesis by (auto simp: tp_of_def)
qed

section \<open>Requests\<close>

text \<open>
  Serving a client in a worker returns whenever its buffer is finite. Every non-empty read is one
  message: it is logged up to its first NUL, never read past the local array, and counted once
  (modulo the width of \<open>int\<close>); afterwards exactly one \<open>"OK"\<close> is written.
\<close>

theorem client_msg_cb_serves:
  fixes s :: "'w tp_st" and be :: int
  assumes "bev_read_law e" and "bev_finite pend e" and "length buf = BUF_SIZE"
  defines "f \<equiv> ret (fst (e (world s) (C_lev (Bev_getfd be))))"
  shows "\<exists>t (as :: answer list). client_msg_cb e buf be ctx s = Some t \<and> (\<forall>x \<in> set as. 0 < ret x) \<and>
    calls t = calls s @ [C_lev (Bev_getfd be)] @ replicate (length as + 1) (C_lev (Bev_read be (BUF_SIZE - 1))) @
      [C_sleep_ms 100, C_lev (Bev_write be tp_ok_bytes)] \<and>
    succ_cli_count t = succ_cli_count s + of_nat (length as) \<and>
    out t = out s @ map (\<lambda>(k, x). L_data ''Recv from fd''
      [int (worker_id ctx), f, sint (succ_cli_count s + of_nat (Suc k)), ret x] (cstr (bytes_of (payload x)))) (enumerate 0 as)"
proof -
  let ?s = "extu e (C_lev (Bev_getfd be)) s"
  obtain t "as" where t: "loop_until (bev_read_body e be (client_line (worker_id ctx) f)) (buf, ?s) = Some t"
    "read_messages be (client_line (worker_id ctx) f) ?s as t"
    using bev_read_all [OF assms(1-3), of be "client_line (worker_id ctx) f" ?s] by blast
  let ?t = "extu e (C_lev (Bev_write be tp_ok_bytes)) (extu e (C_sleep_ms 100) t)"
  have "client_msg_cb e buf be ctx s = Some ?t"
    using t(1) by (simp add: client_msg_cb_def Let_def split_beta f_def)
  moreover have "calls ?t = calls s @ [C_lev (Bev_getfd be)] @
      replicate (length as + 1) (C_lev (Bev_read be (BUF_SIZE - 1))) @ [C_sleep_ms 100, C_lev (Bev_write be tp_ok_bytes)]"
    "succ_cli_count ?t = succ_cli_count s + of_nat (length as)" "\<forall>x \<in> set as. 0 < ret x"
    "out ?t = out s @ map (\<lambda>(k, x). L_data ''Recv from fd''
      [int (worker_id ctx), f, sint (succ_cli_count s + of_nat (Suc k)), ret x] (cstr (bytes_of (payload x)))) (enumerate 0 as)"
    using t(2) by (simp_all add: read_messages_def messages_def client_line_def)
  ultimately show ?thesis by blast
qed

theorem client_msg_cb_serves_witness:
  "\<exists>t. client_msg_cb script_env (replicate BUF_SIZE 7) 50 \<lparr>worker_id = 0, ev_base = 30\<rparr>
      (tp_of (script {} [ok 9, ok_with 2 (P_bytes [72, 105]), ok 0, ok 0, ok 0]) [4] [[]] 0) = Some t \<and>
    (\<exists>n. calls t = C_lev (Bev_getfd 50) # replicate n (C_lev (Bev_read 50 (BUF_SIZE - 1))) @
      [C_sleep_ms 100, C_lev (Bev_write 50 tp_ok_bytes)])"
  using client_msg_cb_serves [OF script_bev_read_law script_bev_finite, of "replicate BUF_SIZE 7" 50
      "\<lparr>worker_id = 0, ev_base = 30\<rparr>" "tp_of (script {} [ok 9, ok_with 2 (P_bytes [72, 105]), ok 0, ok 0, ok 0]) [4] [[]] 0"]
  by (auto simp: tp_of_def simp del: replicate.simps)

section \<open>Dispatching\<close>

interpretation tp_rr: round_robin next_worker
  by unfold_locales (auto simp: next_worker_def Let_def mod_if)

text \<open>
  What \<open>start_libev_adv_server\<close> establishes: one pipe and one queue per worker, and the counter
  inside the arrays while there is a worker at all.
\<close>

definition tp_ok :: "'w tp_st \<Rightarrow> bool" where
  "tp_ok s \<longleftrightarrow> length (comm_pipes s) = length (comm_queues s) \<and>
     (comm_queues s \<noteq> [] \<longrightarrow> cur_worker_ind s < length (comm_queues s))"

text \<open>
  A new connection is appended to the queue of the worker whose turn it is, that worker and
  nobody else is notified, and the turn goes to the next one in cyclic order. With no worker
  (concurrency 0) the callback indexes an empty vector.
\<close>

theorem conn_listener_cb_dispatches:
  fixes s :: "'w tp_st"
  assumes "tp_ok s" and "conn_listener_cb e fd s = (r, t)"
  defines "i \<equiv> cur_worker_ind s" and "n \<equiv> length (comm_queues s)"
  shows "(n = 0 \<longrightarrow> r = Undefined) \<and>
    (0 < n \<longrightarrow> r = Ret () \<and> tp_ok t \<and> cur_worker_ind t = Suc i mod n \<and>
       data_queue (comm_queues t ! i) = data_queue (comm_queues s ! i) @ [CommQueueItem fd] \<and>
       (\<forall>j. j \<noteq> i \<longrightarrow> comm_queues t ! j = comm_queues s ! j) \<and>
       calls t = calls s @ [C_nonblocking fd, C_send (comm_pipes s ! i) [msg_byte COMM_NEW_CONNECTED]])"
proof (cases "n = 0")
  case True
  then show ?thesis using assms(2) by (auto simp: conn_listener_cb_def Let_def n_def)
next
  case False
  then have i: "i < n" "i < length (comm_pipes s)" "n = length (comm_pipes s)"
    using assms(1) by (auto simp: tp_ok_def i_def n_def)
  let ?u = "extu e (C_send (comm_pipes s ! i) [msg_byte COMM_NEW_CONNECTED])
    ((extu e (C_nonblocking fd) (log (L_connected fd) s))\<lparr>comm_queues := push_conn (comm_queues s) i fd\<rparr>)"
  have rt: "r = Ret ()" "t = ?u\<lparr>cur_worker_ind := next_worker n i\<rparr>"
    using assms(2) i by (auto simp: conn_listener_cb_def Let_def i_def n_def)
  moreover have "next_worker n i = Suc i mod n" using i(1) by (rule tp_rr.advance_spec)
  moreover have "data_queue (push_conn (comm_queues s) i fd ! i) = data_queue (comm_queues s ! i) @ [CommQueueItem fd]"
    using i(1) by (simp add: push_conn_def tsq.elems_push n_def)
  ultimately show ?thesis
    using False i by (auto simp: tp_ok_def push_conn_def n_def)
qed

theorem conn_listener_cb_dispatches_witness:
  "\<exists>t. conn_listener_cb script_env 40 (tp_of (script {} [ok 0, ok 1]) [4, 5] [[20], []] 1) = (Ret (), t) \<and>
    cur_worker_ind t = 0 \<and> data_queue (comm_queues t ! 1) = [CommQueueItem 40]"
proof -
  let ?s = "tp_of (script {} [ok 0, ok 1]) [4, 5] [[20], []] 1"
  obtain r t where rt: "conn_listener_cb script_env 40 ?s = (r, t)" by fastforce
  have "tp_ok ?s" by (simp add: tp_ok_def tp_of_def)
  from conn_listener_cb_dispatches [OF this rt] show ?thesis using rt by (simp add: tp_of_def)
qed

text \<open>
  \<open>SIGINT\<close> tells every worker to terminate, each exactly once and in order, and only then
  makes the main loop exit; any other signal is only logged.
\<close>

theorem signal_event_cb_terminates_all:
  fixes s :: "'w tp_st"
  shows "calls (signal_event_cb e sig base s) = calls s @
    (if sig = SIGINT then map (\<lambda>f. C_send f [msg_byte COMM_TERMINATE]) (comm_pipes s) @ [C_lev (Base_loopexit base)]
     else [])"
proof -
  have "calls (fold (\<lambda>fd s. extu e (C_send fd [msg_byte COMM_TERMINATE]) s) fs u) =
      calls u @ map (\<lambda>f. C_send f [msg_byte COMM_TERMINATE]) fs" for fs and u :: "'w tp_st"
    by (induction fs arbitrary: u) simp_all
  then show ?thesis by (simp add: signal_event_cb_def Let_def)
qed

lemma start_workers_fields:
  fixes s :: "'w tp_st"
  assumes "start_workers e is s = (Ret u, t)"
  shows "comm_queues t = comm_queues s @ replicate (length is) tsq_new \<and>
    cur_worker_ind t = cur_worker_ind s \<and>
    (\<exists>ps. length ps = length is \<and> comm_pipes t = comm_pipes s @ map snd ps \<and>
       tasks t = tasks s @ zip is (map fst ps))"
  using assms
proof (induction "is" arbitrary: s)
  case (Cons i "is")
  let ?a = "fst (e (world s) C_socketpair)"
  let ?p = "pair_of (payload ?a)"
  let ?v = "extu e (C_nonblocking (snd ?p)) (extu e (C_nonblocking (fst ?p)) (extu e C_socketpair s))"
  let ?u = "?v\<lparr>comm_pipes := comm_pipes s @ [snd ?p], comm_queues := comm_queues s @ [tsq_new],
                tasks := tasks s @ [(i, fst ?p)]\<rparr>"
  have "start_workers e is ?u = (Ret u, t)"
    using Cons.prems by (simp add: Let_def split_beta split: if_splits)
  from Cons.IH [OF this] obtain ps where "comm_queues t = comm_queues ?u @ replicate (length is) tsq_new"
    "cur_worker_ind t = cur_worker_ind ?u" "length ps = length is"
    "comm_pipes t = comm_pipes ?u @ map snd ps" "tasks t = tasks ?u @ zip is (map fst ps)"
    by blast
  then show ?case by (intro conjI exI [of _ "?p # ps"]) simp_all
qed simp

text \<open>
  Starting \<open>n\<close> workers from an empty server gives every worker an empty queue of its own, one
  end of a socket pair to the main thread and the other end to the worker, in the same order; the
  server is then fit to dispatch.
\<close>

theorem start_workers_ready:
  fixes s :: "'w tp_st"
  assumes "start_workers e [0..<n] s = (Ret (), t)"
    and "comm_pipes s = []" and "comm_queues s = []" and "tasks s = []" and "cur_worker_ind s = 0"
  shows "tp_ok t \<and> comm_queues t = replicate n tsq_new \<and>
    (\<exists>ps. length ps = n \<and> comm_pipes t = map snd ps \<and> tasks t = zip [0..<n] (map fst ps))"
  using start_workers_fields [OF assms(1)] assms(2-5) by (auto simp: tp_ok_def)

theorem start_workers_ready_witness:
  "\<exists>t. start_workers script_env [0..<2] (tp_of (script {} [ok_with 0 (P_pair 4 5), ok 0, ok 0, ok_with 0 (P_pair 6 7), ok 0, ok 0]) [] [] 0) =
    (Ret (), t) \<and> comm_queues t = [tsq_new, tsq_new]"
proof -
  let ?s = "tp_of (script {} [ok_with 0 (P_pair 4 5), ok 0, ok 0, ok_with 0 (P_pair 6 7), ok 0, ok 0]) [] [] 0"
  have "fst (start_workers script_env [0..<2] ?s) = Ret ()" by code_simp
  then have "start_workers script_env [0..<2] ?s = (Ret (), snd (start_workers script_env [0..<2] ?s))"
    by (simp add: prod_eq_iff)
  from this start_workers_ready [OF this] show ?thesis by (auto simp: tp_of_def numeral_2_eq_2)
qed

end
