(* ===== verification/ThreadPoolSys.thy ===== *)
theory ThreadPoolSys
  imports ThreadPool
begin

text \<open>
  The thread pool server as a whole: the statements of the main thread's and the workers' callbacks
  (libev_half_sync_reactive_thread_pool_server.hpp) interleaved in any order. The machine refines
  an abstract dispatcher that only has one list of waiting connections per worker; from the
  dispatcher it inherits fair, ordered delivery, and an invariant of its own shows that no
  notification is missed.
\<close>

section \<open>The main thread and the workers together\<close>

text \<open>
  Now the callbacks run on different threads. A statement that touches what the threads share (a
  queue, which has its own lock, or a socket pair) is one step. \<open>Main_send\<close>: the main thread is
  between \<open>push\<close> and \<open>send\<close>; \<open>Main_term k\<close>: it has told the first \<open>k\<close> workers to
  terminate. \<open>W_loop\<close>: the worker waits in \<open>event_base_dispatch\<close>; \<open>W_recv\<close>: it is about to
  read its pipe; \<open>W_drain\<close>: it is about to call \<open>try_pop\<close>.
\<close>

datatype main_pc = Main_idle | Main_send | Main_term nat | Main_exit

datatype worker_pc = W_loop | W_recv | W_drain | W_exit

text \<open>
  \<open>pipes\<close> are the bytes in flight to each worker. \<open>taken\<close> (the connections each worker has
  registered) and \<open>accepted\<close> (all connections, in order) are read by no step.
\<close>

record tp_sys =
  queues :: "CommQueueItem ThreadSafeQueue list"
  pipes :: "bytes list"
  cur :: nat
  main_at :: main_pc
  worker_at :: "worker_pc list"
  taken :: "fd list list"
  accepted :: "fd list"

definition app_at :: "nat \<Rightarrow> 'a \<Rightarrow> 'a list list \<Rightarrow> 'a list list" where
  "app_at i x xss = xss[i := xss ! i @ [x]]"

text \<open>
  A non-blocking \<open>send\<close> fails only when the buffer is full, hence not empty. After the signal callback the
  main thread takes no further step: the callbacks of a listener that became ready in the same turn of the
  event loop as the signal, which \<open>event_base_loopexit\<close> would still let run, are left out.
\<close>

inductive tp_step :: "tp_sys \<Rightarrow> tp_sys \<Rightarrow> bool" where
  accept: "main_at s = Main_idle \<Longrightarrow> cur s < length (queues s) \<Longrightarrow>
    tp_step s (s\<lparr>queues := push_conn (queues s) (cur s) fd, accepted := accepted s @ [fd], main_at := Main_send\<rparr>)"
| notify: "main_at s = Main_send \<Longrightarrow>
    tp_step s (s\<lparr>pipes := app_at (cur s) (msg_byte COMM_NEW_CONNECTED) (pipes s),
                 cur := next_worker (length (queues s)) (cur s), main_at := Main_idle\<rparr>)"
| notify_full: "main_at s = Main_send \<Longrightarrow> pipes s ! cur s \<noteq> [] \<Longrightarrow>
    tp_step s (s\<lparr>cur := next_worker (length (queues s)) (cur s), main_at := Main_idle\<rparr>)"
| sigint: "main_at s = Main_idle \<Longrightarrow> tp_step s (s\<lparr>main_at := Main_term 0\<rparr>)"
| tell: "main_at s = Main_term k \<Longrightarrow> k < length (pipes s) \<Longrightarrow>
    tp_step s (s\<lparr>pipes := app_at k (msg_byte COMM_TERMINATE) (pipes s), main_at := Main_term (Suc k)\<rparr>)"
| tell_full: "main_at s = Main_term k \<Longrightarrow> k < length (pipes s) \<Longrightarrow> pipes s ! k \<noteq> [] \<Longrightarrow>
    tp_step s (s\<lparr>main_at := Main_term (Suc k)\<rparr>)"
| tell_done: "main_at s = Main_term k \<Longrightarrow> length (pipes s) \<le> k \<Longrightarrow> tp_step s (s\<lparr>main_at := Main_exit\<rparr>)"
| wake: "i < length (worker_at s) \<Longrightarrow> worker_at s ! i = W_loop \<Longrightarrow> pipes s ! i \<noteq> [] \<Longrightarrow>
    tp_step s (s\<lparr>worker_at := (worker_at s)[i := W_recv]\<rparr>)"
| recv_new: "i < length (worker_at s) \<Longrightarrow> worker_at s ! i = W_recv \<Longrightarrow>
    pipes s ! i = msg_byte COMM_NEW_CONNECTED # bs \<Longrightarrow>
    tp_step s (s\<lparr>pipes := (pipes s)[i := bs], worker_at := (worker_at s)[i := W_drain]\<rparr>)"
| recv_term: "i < length (worker_at s) \<Longrightarrow> worker_at s ! i = W_recv \<Longrightarrow>
    pipes s ! i = msg_byte COMM_TERMINATE # bs \<Longrightarrow>
    tp_step s (s\<lparr>pipes := (pipes s)[i := bs], worker_at := (worker_at s)[i := W_exit]\<rparr>)"
| recv_none: "i < length (worker_at s) \<Longrightarrow> worker_at s ! i = W_recv \<Longrightarrow> pipes s ! i = [] \<Longrightarrow>
    tp_step s (s\<lparr>worker_at := (worker_at s)[i := W_loop]\<rparr>)"
| take: "i < length (worker_at s) \<Longrightarrow> worker_at s ! i = W_drain \<Longrightarrow>
    tsq_try_pop (queues s ! i) (CommQueueItem (-1)) = (True, x, q) \<Longrightarrow>
    tp_step s (s\<lparr>queues := (queues s)[i := q], taken := app_at i (item_fd x) (taken s)\<rparr>)"
| queue_empty: "i < length (worker_at s) \<Longrightarrow> worker_at s ! i = W_drain \<Longrightarrow>
    tsq_try_pop (queues s ! i) (CommQueueItem (-1)) = (False, x, q) \<Longrightarrow>
    tp_step s (s\<lparr>worker_at := (worker_at s)[i := W_recv]\<rparr>)"

definition tp_init :: "nat \<Rightarrow> tp_sys" where
  "tp_init n = \<lparr>queues = replicate n tsq_new, pipes = replicate n [], cur = 0, main_at = Main_idle,
                worker_at = replicate n W_loop, taken = replicate n [], accepted = []\<rparr>"

inductive_cases tp_stepE: "tp_step s t"

section \<open>The dispatcher it implements\<close>

text \<open>
  The specification: connection number \<open>k\<close> waits for worker \<open>k mod n\<close>, and each worker is given
  its connections in order.
\<close>

record disp =
  waiting :: "fd list list"
  given :: "fd list list"
  seen :: "fd list"

inductive disp_step :: "disp \<Rightarrow> disp \<Rightarrow> bool" where
  disp_accept: "waiting d \<noteq> [] \<Longrightarrow>
    disp_step d (d\<lparr>waiting := app_at (length (seen d) mod length (waiting d)) f (waiting d), seen := seen d @ [f]\<rparr>)"
| disp_give: "i < length (waiting d) \<Longrightarrow> waiting d ! i = f # fs \<Longrightarrow>
    disp_step d (d\<lparr>waiting := (waiting d)[i := fs], given := app_at i f (given d)\<rparr>)"

definition disp_init :: "nat \<Rightarrow> disp" where
  "disp_init n = \<lparr>waiting = replicate n [], given = replicate n [], seen = []\<rparr>"

text \<open>Worker \<open>i\<close>'s share of the connections: every \<open>n\<close>-th one.\<close>

definition share :: "nat \<Rightarrow> nat \<Rightarrow> fd list \<Rightarrow> fd list" where
  "share n i fs = map snd (filter (\<lambda>(k, f). k mod n = i) (enumerate 0 fs))"

lemma share_Nil [simp]: "share n i [] = []"
  by (simp add: share_def)

lemma share_snoc: "share n i (fs @ [f]) = share n i fs @ (if length fs mod n = i then [f] else [])"
  by (simp add: share_def enumerate_append_eq)

definition disp_good :: "nat \<Rightarrow> disp \<Rightarrow> bool" where
  "disp_good n d \<longleftrightarrow> length (waiting d) = n \<and> length (given d) = n \<and>
     (\<forall>i < n. given d ! i @ waiting d ! i = share n i (seen d))"

lemma nth_app_at: "i < length xss \<Longrightarrow> app_at j x xss ! i = (if i = j then xss ! i @ [x] else xss ! i)"
  by (auto simp: app_at_def nth_list_update)

lemma length_app_at [simp]: "length (app_at j x xss) = length xss"
  by (simp add: app_at_def)

lemma disp_good_step: "disp_step d d' \<Longrightarrow> disp_good n d \<Longrightarrow> disp_good n d'"
proof (induction rule: disp_step.induct)
  case (disp_accept d f)
  then show ?case by (auto simp: disp_good_def nth_app_at share_snoc simp flip: append_assoc)
next
  case (disp_give i d f fs)
  then have "given d ! i @ f # fs = share n i (seen d)" by (auto simp: disp_good_def)
  with disp_give show ?case by (auto simp: disp_good_def nth_app_at nth_list_update)
qed

interpretation disp: step_invariant disp_step "disp_good n" for n
  by unfold_locales (rule disp_good_step)

section \<open>The server refines it\<close>

definition disp_of :: "tp_sys \<Rightarrow> disp" where
  "disp_of s = \<lparr>waiting = map (\<lambda>q. map item_fd (data_queue q)) (queues s), given = taken s, seen = accepted s\<rparr>"

text \<open>
  The invariant: one pipe, one thread and one queue per worker; the counter is the number of
  connections modulo the number of workers; a worker with a non-empty queue has a byte in its pipe,
  or is emptying the queue, or has exited, or is about to be notified.
\<close>

definition tp_good :: "tp_sys \<Rightarrow> bool" where
  "tp_good s \<longleftrightarrow>
     length (pipes s) = length (queues s) \<and> length (worker_at s) = length (queues s) \<and>
     length (taken s) = length (queues s) \<and>
     (if main_at s = Main_send
      then cur s < length (queues s) \<and> Suc (cur s) mod length (queues s) = length (accepted s) mod length (queues s)
      else cur s = length (accepted s) mod length (queues s)) \<and>
     (\<forall>i < length (queues s). data_queue (queues s ! i) \<noteq> [] \<longrightarrow>
        pipes s ! i \<noteq> [] \<or> worker_at s ! i = W_drain \<or> worker_at s ! i = W_exit \<or>
        (main_at s = Main_send \<and> cur s = i))"

lemma length_push_conn [simp]: "length (push_conn qs i f) = length qs"
  by (simp add: push_conn_def)

lemma nth_push_conn:
  "j < length qs \<Longrightarrow> push_conn qs i f ! j = (if j = i then tsq_push (qs ! i) (CommQueueItem f) else qs ! j)"
  by (auto simp: push_conn_def nth_list_update)

lemma tp_good_step: "tp_step s t \<Longrightarrow> tp_good s \<Longrightarrow> tp_good t"
proof (induction rule: tp_step.induct)
  case (accept s fd)
  then show ?case by (auto simp: tp_good_def nth_push_conn mod_Suc_eq)
next
  case (notify s)
  then show ?case by (auto simp: tp_good_def nth_app_at tp_rr.advance_spec)
next
  case (notify_full s)
  then show ?case by (auto simp: tp_good_def tp_rr.advance_spec)
next
  case (tell s k)
  then show ?case by (auto simp: tp_good_def nth_app_at)
next
  case (recv_new i s bs)
  then show ?case by (auto simp: tp_good_def nth_list_update)
next
  case (take i s x q)
  then have "data_queue (queues s ! i) \<noteq> []"
    using tsq.try_pop_flag [of "queues s ! i" "CommQueueItem (-1)"] by simp
  with take show ?case by (auto simp: tp_good_def nth_list_update)
next
  case (queue_empty i s x q)
  then have "data_queue (queues s ! i) = []"
    using tsq.try_pop_flag [of "queues s ! i" "CommQueueItem (-1)"] by simp
  with queue_empty show ?case by (auto simp: tp_good_def nth_list_update)
qed (auto simp: tp_good_def nth_list_update)

lemma disp_of_step: "tp_step s t \<Longrightarrow> tp_good s \<Longrightarrow> disp_step (disp_of s) (disp_of t) \<or> disp_of t = disp_of s"
proof (induction rule: tp_step.induct)
  case (accept s fd)
  let ?d = "disp_of s"
  have c: "cur s = length (seen ?d) mod length (waiting ?d)" "waiting ?d \<noteq> []"
    using accept by (auto simp: tp_good_def disp_of_def)
  have "map (\<lambda>q. map item_fd (data_queue q)) (push_conn (queues s) (cur s) fd) = app_at (cur s) fd (waiting ?d)"
    using accept(2) by (simp add: push_conn_def app_at_def disp_of_def map_update tsq.elems_push)
  then have "disp_of (s\<lparr>queues := push_conn (queues s) (cur s) fd, accepted := accepted s @ [fd], main_at := Main_send\<rparr>) =
      ?d\<lparr>waiting := app_at (length (seen ?d) mod length (waiting ?d)) fd (waiting ?d), seen := seen ?d @ [fd]\<rparr>"
    using c(1) by (simp add: disp_of_def)
  then show ?case using disp_step.disp_accept [OF c(2), of fd] by simp
next
  case (take i s x q)
  have i: "i < length (queues s)" using take by (simp add: tp_good_def)
  obtain xs where xs: "data_queue (queues s ! i) = x # xs" "data_queue q = xs"
    using tsq.try_pop_flag [of "queues s ! i" "CommQueueItem (-1)"] tsq.try_pop_elems [of "queues s ! i" "CommQueueItem (-1)"]
      tsq.try_pop_value [of "queues s ! i" "CommQueueItem (-1)"] take(3)
    by (cases "data_queue (queues s ! i)") auto
  have "disp_step (disp_of s) ((disp_of s)\<lparr>waiting := (waiting (disp_of s))[i := map item_fd xs],
      given := app_at i (item_fd x) (given (disp_of s))\<rparr>)"
    using i xs(1) by (intro disp_step.disp_give) (simp_all add: disp_of_def)
  moreover have "disp_of (s\<lparr>queues := (queues s)[i := q], taken := app_at i (item_fd x) (taken s)\<rparr>) =
      (disp_of s)\<lparr>waiting := (waiting (disp_of s))[i := map item_fd xs], given := app_at i (item_fd x) (given (disp_of s))\<rparr>"
    by (simp add: disp_of_def map_update xs(2))
  ultimately show ?case by simp
qed (simp_all add: disp_of_def)

interpretation tp_sim: simulation tp_step tp_good disp_step disp_of
  by unfold_locales (rule tp_good_step disp_of_step; assumption)+

lemma tp_init_good: "tp_good (tp_init n)"
  by (simp add: tp_good_def tp_init_def tsq.elems_new)

lemma disp_of_init: "disp_of (tp_init n) = disp_init n"
  by (simp add: disp_of_def tp_init_def disp_init_def tsq.elems_new)

lemma disp_init_good: "disp_good n (disp_init n)"
  by (simp add: disp_good_def disp_init_def)

lemma tp_disp_run: "tp_step\<^sup>*\<^sup>* (tp_init n) s \<Longrightarrow> disp_step\<^sup>*\<^sup>* (disp_init n) (disp_of s)"
  using tp_sim.refines_run [of "tp_init n" s] by (simp add: tp_init_good disp_of_init)

lemma tp_disp_good: "tp_step\<^sup>*\<^sup>* (tp_init n) s \<Longrightarrow> disp_good n (disp_of s)"
  by (rule disp.good_run [OF tp_disp_run disp_init_good])

lemma tp_delivery:
  assumes "tp_step\<^sup>*\<^sup>* (tp_init n) s" and "i < n"
  shows "length (queues s) = n" "taken s ! i @ map item_fd (data_queue (queues s ! i)) = share n i (accepted s)"
proof -
  have good: "disp_good n (disp_of s)" by (rule tp_disp_good [OF assms(1)])
  then show len: "length (queues s) = n" by (simp add: disp_good_def disp_of_def)
  have "given (disp_of s) ! i @ waiting (disp_of s) ! i = share n i (seen (disp_of s))"
    using good assms(2) unfolding disp_good_def by blast
  then show "taken s ! i @ map item_fd (data_queue (queues s ! i)) = share n i (accepted s)"
    using len assms(2) by (simp add: disp_of_def)
qed

text \<open>
  C1. The thread pool server implements the dispatcher: however the main thread and the workers
  interleave, what can be seen of the queues, the registered connections and the accepted ones is
  a run of the specification in which connection \<open>k\<close> waits for worker \<open>k mod n\<close> and workers are
  given their connections in order.
\<close>

theorem thread_pool_refines_dispatcher:
  assumes "tp_step\<^sup>*\<^sup>* (tp_init n) s"
  shows "disp_step\<^sup>*\<^sup>* (disp_init n) (disp_of s)"
  using assms by (rule tp_disp_run)

text \<open>
  C2. Fair and ordered delivery: at any moment, the connections worker \<open>i\<close> has registered,
  followed by the ones in its queue, are every \<open>n\<close>-th of the accepted connections, starting at the
  \<open>i\<close>-th, in the order they arrived. None is lost, duplicated or given to another worker.
\<close>

theorem thread_pool_fair_delivery:
  assumes "tp_step\<^sup>*\<^sup>* (tp_init n) s" and "i < n"
  shows "taken s ! i @ map item_fd (data_queue (queues s ! i)) = share n i (accepted s)"
  using assms by (rule tp_delivery)

text \<open>
  C3. No notification is missed: whenever the main thread is between callbacks and a worker is back in
  its event loop with nothing in its pipe, that worker has registered all of its connections. A
  notification that was dropped because the pipe was full does no harm.
\<close>

theorem thread_pool_no_lost_connection:
  assumes "tp_step\<^sup>*\<^sup>* (tp_init n) s" and "i < n" and "main_at s \<noteq> Main_send"
    and "worker_at s ! i = W_loop" and "pipes s ! i = []"
  shows "taken s ! i = share n i (accepted s)"
proof -
  have "tp_good s" by (rule tp_sim.good_run [OF assms(1) tp_init_good])
  then have "data_queue (queues s ! i) = []"
    using assms(2-5) tp_delivery(1) [OF assms(1,2)] by (auto simp: tp_good_def)
  then show ?thesis using tp_delivery(2) [OF assms(1,2)] by simp
qed

text \<open>A run with two workers and one connection, for the witnesses.\<close>

definition tp_run1 :: tp_sys where
  "tp_run1 = (tp_init 2)\<lparr>cur := 1, taken := [[7], []], accepted := [7]\<rparr>"

lemma tp_run1_reachable: "tp_step\<^sup>*\<^sup>* (tp_init 2) tp_run1"
proof -
  let ?s0 = "tp_init 2"
  let ?s1 = "?s0\<lparr>queues := push_conn (queues ?s0) (cur ?s0) 7, accepted := accepted ?s0 @ [7], main_at := Main_send\<rparr>"
  let ?s2 = "?s1\<lparr>pipes := app_at (cur ?s1) (msg_byte COMM_NEW_CONNECTED) (pipes ?s1),
                 cur := next_worker (length (queues ?s1)) (cur ?s1), main_at := Main_idle\<rparr>"
  let ?s3 = "?s2\<lparr>worker_at := (worker_at ?s2)[0 := W_recv]\<rparr>"
  let ?s4 = "?s3\<lparr>pipes := (pipes ?s3)[0 := []], worker_at := (worker_at ?s3)[0 := W_drain]\<rparr>"
  let ?s5 = "?s4\<lparr>queues := (queues ?s4)[0 := tsq_new], taken := app_at 0 7 (taken ?s4)\<rparr>"
  let ?s6 = "?s5\<lparr>worker_at := (worker_at ?s5)[0 := W_recv]\<rparr>"
  let ?s7 = "?s6\<lparr>worker_at := (worker_at ?s6)[0 := W_loop]\<rparr>"
  have 1: "tp_step ?s0 ?s1" by (rule tp_step.accept) (simp_all add: tp_init_def)
  have 2: "tp_step ?s1 ?s2" by (rule tp_step.notify) simp
  have 3: "tp_step ?s2 ?s3" by (rule tp_step.wake) (simp_all add: tp_init_def app_at_def numeral_2_eq_2)
  have 4: "tp_step ?s3 ?s4" by (rule tp_step.recv_new) (simp_all add: tp_init_def app_at_def numeral_2_eq_2)
  have "tsq_try_pop (queues ?s4 ! 0) (CommQueueItem (-1)) = (True, CommQueueItem 7, tsq_new)"
    by (simp add: tp_init_def push_conn_def tsq_push_def tsq_try_pop_def tsq_new_def numeral_2_eq_2)
  then have 5: "tp_step ?s4 ?s5"
    using tp_step.take [of 0 ?s4 "CommQueueItem 7" tsq_new] by (simp add: tp_init_def)
  have "tsq_try_pop (queues ?s5 ! 0) (CommQueueItem (-1)) = (False, CommQueueItem (-1), tsq_new)"
    by (simp add: tp_init_def push_conn_def tsq_try_pop_def tsq_new_def numeral_2_eq_2)
  then have 6: "tp_step ?s5 ?s6"
    using tp_step.queue_empty [of 0 ?s5 "CommQueueItem (-1)" tsq_new] by (simp add: tp_init_def)
  have 7: "tp_step ?s6 ?s7" by (rule tp_step.recv_none) (simp_all add: tp_init_def app_at_def numeral_2_eq_2)
  have "?s7 = tp_run1"
    by (simp add: tp_run1_def tp_init_def app_at_def push_conn_def next_worker_def numeral_2_eq_2)
  moreover note step = rtranclp.rtrancl_into_rtrancl [of tp_step]
  note step [OF step [OF step [OF step [OF step [OF step [OF step [OF rtranclp.rtrancl_refl 1] 2] 3] 4] 5] 6] 7]
  ultimately show ?thesis by (simp only:)
qed

theorem thread_pool_refines_dispatcher_witness:
  "disp_step\<^sup>*\<^sup>* (disp_init 2) (disp_of tp_run1) \<and> given (disp_of tp_run1) = [[7], []]"
  using thread_pool_refines_dispatcher [OF tp_run1_reachable] by (simp add: disp_of_def tp_run1_def)

theorem thread_pool_fair_delivery_witness:
  "taken tp_run1 ! 1 @ map item_fd (data_queue (queues tp_run1 ! 1)) = share 2 1 (accepted tp_run1)"
  using thread_pool_fair_delivery [OF tp_run1_reachable, of 1] by simp

theorem thread_pool_no_lost_connection_witness:
  "taken tp_run1 ! 0 = share 2 0 (accepted tp_run1) \<and> taken tp_run1 ! 0 = [7]"
  using thread_pool_no_lost_connection [OF tp_run1_reachable, of 0] by (simp add: tp_run1_def tp_init_def)

end
