(* ===== verification/ThreadPoolRun.thy ===== *)
theory ThreadPoolRun
  imports ThreadPoolSys
begin

text \<open>
  The two models of the thread pool server agree: a worker's callback of ThreadPool, run on its own,
  is a run of the interleaved machine of ThreadPoolSys.
\<close>

section \<open>The pipe behind the descriptor\<close>

text \<open>
  \<open>pipe w\<close> are the bytes in flight on the worker's end of its socket pair: reading takes the first
  one, an empty pipe would block, and libevent leaves it alone.
\<close>

definition pipe_law :: "('w \<Rightarrow> bytes) \<Rightarrow> fd \<Rightarrow> 'w env \<Rightarrow> bool" where
  "pipe_law pipe fd e \<longleftrightarrow>
     (\<forall>w. case pipe w of
        [] \<Rightarrow> ret (fst (e w (C_recv fd 1))) < 0 \<and> would_block (eno (fst (e w (C_recv fd 1)))) \<and>
              pipe (snd (e w (C_recv fd 1))) = []
      | b # bs \<Rightarrow> ret (fst (e w (C_recv fd 1))) = 1 \<and> bytes_of (payload (fst (e w (C_recv fd 1)))) = [b] \<and>
              pipe (snd (e w (C_recv fd 1))) = bs) \<and>
     (\<forall>w k. pipe (snd (e w (C_lev k))) = pipe w)"

lemma pipe_law_Nil:
  "pipe_law pipe fd e \<Longrightarrow> pipe w = [] \<Longrightarrow>
    ret (fst (e w (C_recv fd 1))) < 0 \<and> would_block (eno (fst (e w (C_recv fd 1)))) \<and>
    pipe (snd (e w (C_recv fd 1))) = []"
  unfolding pipe_law_def by (drule conjunct1, drule spec [of _ w]) (simp only: list.case)

lemma pipe_law_Cons:
  "pipe_law pipe fd e \<Longrightarrow> pipe w = b # bs \<Longrightarrow>
    ret (fst (e w (C_recv fd 1))) = 1 \<and> bytes_of (payload (fst (e w (C_recv fd 1)))) = [b] \<and>
    pipe (snd (e w (C_recv fd 1))) = bs"
  unfolding pipe_law_def by (drule conjunct1, drule spec [of _ w]) (simp only: list.case)

lemma pipe_law_lev: "pipe_law pipe fd e \<Longrightarrow> pipe (snd (e w (C_lev k))) = pipe w"
  by (simp add: pipe_law_def)

section \<open>What one worker does to the machine\<close>

definition worker_did :: "nat \<Rightarrow> bytes \<Rightarrow> CommQueueItem ThreadSafeQueue list \<Rightarrow> worker_pc \<Rightarrow> fd list \<Rightarrow> tp_sys \<Rightarrow> tp_sys" where
  "worker_did i p qs x fs m =
     m\<lparr>queues := qs, pipes := (pipes m)[i := p], worker_at := (worker_at m)[i := x],
       taken := (taken m)[i := taken m ! i @ fs]\<rparr>"

lemma worker_did_fields [simp]:
  "queues (worker_did i p qs x fs m) = qs"
  "i < length (pipes m) \<Longrightarrow> pipes (worker_did i p qs x fs m) ! i = p"
  "i < length (worker_at m) \<Longrightarrow> worker_at (worker_did i p qs x fs m) ! i = x"
  "length (pipes (worker_did i p qs x fs m)) = length (pipes m)"
  "length (worker_at (worker_did i p qs x fs m)) = length (worker_at m)"
  "length (taken (worker_did i p qs x fs m)) = length (taken m)"
  by (simp_all add: worker_did_def)

lemma worker_did_twice:
  "i < length (taken m) \<Longrightarrow>
    worker_did i p' qs' x' fs' (worker_did i p qs x fs m) = worker_did i p' qs' x' (fs @ fs') m"
  by (simp add: worker_did_def)

text \<open>The worker has a pipe, a position and a list of its own in the machine.\<close>

definition has_worker :: "tp_sys \<Rightarrow> nat \<Rightarrow> bool" where
  "has_worker m i \<longleftrightarrow> i < length (pipes m) \<and> i < length (worker_at m) \<and> i < length (taken m) \<and> i < length (queues m)"

lemma has_worker_did: "length qs = length (queues m) \<Longrightarrow> has_worker (worker_did i p qs x fs m) j = has_worker m j"
  by (simp add: has_worker_def worker_did_def)

lemma did_take:
  assumes "has_worker m i" and "worker_at m ! i = W_drain" and "tsq_try_pop (queues m ! i) c = (True, x, q)"
  shows "tp_step m (worker_did i (pipes m ! i) ((queues m)[i := q]) W_drain [item_fd x] m)"
proof -
  have "tsq_try_pop (queues m ! i) (CommQueueItem (-1)) = (True, x, q)"
    using assms(3) by (auto simp: tsq_try_pop_def split: if_splits)
  moreover have "worker_did i (pipes m ! i) ((queues m)[i := q]) W_drain [item_fd x] m =
      m\<lparr>queues := (queues m)[i := q], taken := app_at i (item_fd x) (taken m)\<rparr>"
    using assms(2) by (simp add: worker_did_def app_at_def flip: assms(2))
  ultimately show ?thesis using assms tp_step.take [of i m x q] by (simp add: has_worker_def)
qed

lemma did_move:
  assumes "has_worker m i" and "worker_at m ! i = W_drain" and "data_queue (queues m ! i) = []"
  shows "tp_step m (worker_did i (pipes m ! i) (queues m) W_recv [] m)"
proof -
  have "tsq_try_pop (queues m ! i) (CommQueueItem (-1)) = (False, CommQueueItem (-1), queues m ! i)"
    using assms(3) by (simp add: tsq_try_pop_def)
  from tp_step.queue_empty [OF _ assms(2) this] show ?thesis
    using assms(1) by (simp add: worker_did_def has_worker_def)
qed

lemma did_recv:
  assumes "has_worker m i" and "worker_at m ! i = W_recv"
  shows "pipes m ! i = [] \<Longrightarrow> tp_step m (worker_did i [] (queues m) W_loop [] m)"
    and "pipes m ! i = msg_byte COMM_NEW_CONNECTED # bs \<Longrightarrow> tp_step m (worker_did i bs (queues m) W_drain [] m)"
    and "pipes m ! i = msg_byte COMM_TERMINATE # bs \<Longrightarrow> tp_step m (worker_did i bs (queues m) W_exit [] m)"
proof -
  show "tp_step m (worker_did i [] (queues m) W_loop [] m)" if e: "pipes m ! i = []"
    using tp_step.recv_none [OF _ assms(2) e] assms(1) by (simp add: worker_did_def has_worker_def flip: e)
  show "tp_step m (worker_did i bs (queues m) W_drain [] m)" if "pipes m ! i = msg_byte COMM_NEW_CONNECTED # bs"
    using tp_step.recv_new [OF _ assms(2) that] assms(1) by (simp add: worker_did_def has_worker_def)
  show "tp_step m (worker_did i bs (queues m) W_exit [] m)" if "pipes m ! i = msg_byte COMM_TERMINATE # bs"
    using tp_step.recv_term [OF _ assms(2) that] assms(1) by (simp add: worker_did_def has_worker_def)
qed

section \<open>Emptying the queue\<close>

lemma take_conn_pipe:
  "pipe_law pipe fd e \<Longrightarrow> pipe (world (take_conn e ctx f s)) = pipe (world s)"
  by (simp add: take_conn_def Let_def split_beta pipe_law_lev)

lemma drain_run:
  fixes s :: "'w tp_st" and m :: tp_sys
  assumes law: "pipe_law pipe fd e" and i: "i = worker_id ctx"
    and "has_worker m i" and "worker_at m ! i = W_drain"
    and "queues m = comm_queues s" and "pipes m ! i = pipe (world s)"
  shows "\<exists>t l. loop_until (drain_queue_body e ctx) (c, s) = Some t \<and> trace t = trace s @ l \<and>
    pipe (world t) = pipe (world s) \<and> length (comm_queues t) = length (comm_queues s) \<and>
    tp_step\<^sup>*\<^sup>* m (worker_did i (pipe (world t)) (comm_queues t) W_recv (new_conns (map fst l)) m)"
  using assms(3-)
proof (induction "data_queue (comm_queues s ! i)" arbitrary: c s m)
  case Nil
  then have "drain_queue_body e ctx (c, s) = Inr s"
    by (simp add: drain_queue_body_def tsq_try_pop_def i)
  moreover have "tp_step m (worker_did i (pipes m ! i) (queues m) W_recv [] m)"
    using Nil by (intro did_move) simp_all
  ultimately show ?case using Nil by (intro exI [of _ s] exI [of _ "[]"]) auto
next
  case (Cons x xs)
  let ?q = "(comm_queues s ! i)\<lparr>data_queue := xs\<rparr>"
  let ?v = "s\<lparr>comm_queues := (comm_queues s)[i := ?q]\<rparr>"
  let ?u = "take_conn e ctx (item_fd x) ?v"
  let ?m = "worker_did i (pipes m ! i) ((queues m)[i := ?q]) W_drain [item_fd x] m"
  have w: "i < length (comm_queues s)" "i < length (taken m)" "i < length (pipes m)" "i < length (worker_at m)"
    using Cons.prems by (auto simp: has_worker_def)
  have pop: "tsq_try_pop (comm_queues s ! i) c = (True, x, ?q)"
    using Cons.hyps(2) [symmetric] by (simp add: tsq_try_pop_def)
  then have body: "drain_queue_body e ctx (c, s) = Inl (x, ?u)" by (simp add: drain_queue_body_def Let_def i)
  have step: "tp_step m ?m" using Cons.prems pop by (intro did_take) simp_all
  obtain l0 where l0: "trace ?u = trace s @ l0" "new_conns (map fst l0) = [item_fd x]"
    using take_conn_calls [of e ctx "item_fd x" ?v] by auto
  have "xs = data_queue (comm_queues ?u ! i)" using w by simp
  moreover have "has_worker ?m i" using Cons.prems by (simp add: has_worker_did)
  moreover have "pipes ?m ! i = pipe (world ?u)" using w Cons.prems by (simp add: take_conn_pipe [OF law])
  ultimately obtain t l where t: "loop_until (drain_queue_body e ctx) (x, ?u) = Some t" "trace t = trace ?u @ l"
    "pipe (world t) = pipe (world ?u)" "length (comm_queues t) = length (comm_queues ?u)"
    "tp_step\<^sup>*\<^sup>* ?m (worker_did i (pipe (world t)) (comm_queues t) W_recv (new_conns (map fst l)) ?m)"
    using Cons.hyps(1) [of ?u ?m x] w Cons.prems by auto
  have "tp_step\<^sup>*\<^sup>* m (worker_did i (pipe (world t)) (comm_queues t) W_recv (new_conns (map fst (l0 @ l))) m)"
    using converse_rtranclp_into_rtranclp [of tp_step, OF step t(5)] w(2) l0(2) by (simp add: worker_did_twice)
  then show ?case
    using body t l0(1) by (intro exI [of _ t] exI [of _ "l0 @ l"]) (simp add: take_conn_pipe [OF law])
qed

section \<open>The whole callback\<close>

lemma main_msg_run:
  fixes s :: "'w tp_st" and m :: tp_sys
  assumes law: "pipe_law pipe fd e" and i: "i = worker_id ctx"
    and "has_worker m i" and "worker_at m ! i = W_recv"
    and "queues m = comm_queues s" and "pipes m ! i = pipe (world s)"
    and "set (pipe (world s)) \<subseteq> range msg_byte"
  shows "\<exists>t l x. loop_until (main_msg_body e ctx fd) s = Some (Some (Ret (), t)) \<and> trace t = trace s @ l \<and>
    x \<in> {W_loop, W_exit} \<and>
    tp_step\<^sup>*\<^sup>* m (worker_did i (pipe (world t)) (comm_queues t) x (new_conns (map fst l)) m)"
  using assms(3-)
proof (induction "length (pipe (world s))" arbitrary: s m rule: less_induct)
  case less
  let ?a = "fst (e (world s) (C_recv fd 1))"
  let ?u = "extu e (C_recv fd 1) s"
  have w: "i < length (comm_queues s)" "i < length (taken m)" "i < length (pipes m)" "i < length (worker_at m)"
    using less.prems by (auto simp: has_worker_def)
  show ?case
  proof (cases "pipe (world s)")
    case Nil
    note a = pipe_law_Nil [OF law Nil]
    then have "main_msg_body e ctx fd s = Inr (Some (Ret (), ?u))"
      by (auto simp: main_msg_body_def Let_def split_beta)
    moreover have "tp_step m (worker_did i [] (queues m) W_loop [] m)"
      using less.prems Nil by (intro did_recv(1)) simp_all
    ultimately show ?thesis
      using a less.prems(3) by (intro exI [of _ ?u] exI [of _ "[(C_recv fd 1, ?a)]"] exI [of _ W_loop]) auto
  next
    case (Cons b bs)
    note a = pipe_law_Cons [OF law Cons]
    have "b \<in> range msg_byte" using less.prems(5) Cons by simp
    then obtain msg where msg: "b = msg_byte msg" by blast
    show ?thesis
    proof (cases msg)
      case COMM_NEW_CONNECTED
      with msg have 1: "b = msg_byte COMM_NEW_CONNECTED" by blast
      let ?m = "worker_did i bs (queues m) W_drain [] m"
      have step: "tp_step m ?m" using less.prems Cons 1 by (intro did_recv(2)) simp_all
      have "has_worker ?m i" using less.prems by (simp add: has_worker_did)
      then obtain v l where v: "loop_until (drain_queue_body e ctx) (CommQueueItem (-1), ?u) = Some v" "trace v = trace ?u @ l"
        "pipe (world v) = pipe (world ?u)" "length (comm_queues v) = length (comm_queues ?u)"
        "tp_step\<^sup>*\<^sup>* ?m (worker_did i (pipe (world v)) (comm_queues v) W_recv (new_conns (map fst l)) ?m)"
        using drain_run [OF law i, of ?m ?u "CommQueueItem (-1)"] w less.prems(3) a by auto
      let ?n = "worker_did i (pipe (world v)) (comm_queues v) W_recv (new_conns (map fst l)) m"
      have body: "main_msg_body e ctx fd s = Inl v"
        using a 1 w(1) v(1) i by (simp add: main_msg_body_def Let_def split_beta)
      have n: "tp_step\<^sup>*\<^sup>* m ?n"
        using converse_rtranclp_into_rtranclp [of tp_step, OF step v(5)] w(2) by (simp add: worker_did_twice)
      have "has_worker ?n i" using less.prems v(4) by (simp add: has_worker_did)
      moreover have "length (pipe (world v)) < length (pipe (world s))" "set (pipe (world v)) \<subseteq> range msg_byte"
        using v(3) a Cons less.prems(5) by auto
      ultimately obtain t k x where t: "loop_until (main_msg_body e ctx fd) v = Some (Some (Ret (), t))"
        "trace t = trace v @ k" "x \<in> {W_loop, W_exit}"
        "tp_step\<^sup>*\<^sup>* ?n (worker_did i (pipe (world t)) (comm_queues t) x (new_conns (map fst k)) ?n)"
        using less.hyps [of v ?n] w by auto
      have "tp_step\<^sup>*\<^sup>* m (worker_did i (pipe (world t)) (comm_queues t) x
          (new_conns (map fst ((C_recv fd 1, ?a) # l @ k))) m)"
        using rtranclp_trans [of tp_step, OF n t(4)] w(2) by (simp add: worker_did_twice)
      then show ?thesis
        using body t(1,2,3) v(2)
        by (intro exI [of _ t] exI [of _ "(C_recv fd 1, ?a) # l @ k"] exI [of _ x]) simp
    next
      case COMM_TERMINATE
      with msg have 2: "b = msg_byte COMM_TERMINATE" by blast
      let ?t = "extu e (C_lev (Base_loopexit (ev_base ctx)))
        (log (L_data ''Received terminate cmd.'' [int (worker_id ctx)] []) ?u)"
      have "main_msg_body e ctx fd s = Inr (Some (Ret (), ?t))"
        using a 2 by (simp add: main_msg_body_def Let_def split_beta)
      moreover have "tp_step m (worker_did i bs (queues m) W_exit [] m)"
        using less.prems Cons 2 by (intro did_recv(3)) simp_all
      moreover have "pipe (world ?t) = bs" using a by (simp add: pipe_law_lev [OF law])
      ultimately show ?thesis
        using less.prems(3)
        by (intro exI [of _ ?t] exI [of _ W_exit] exI [of _ "drop (length (trace s)) (trace ?t)"]) auto
    qed
  qed
qed

text \<open>
  The main thread's callback is two steps. \<open>sent\<close> says whether its \<open>send\<close> found room in the pipe; it
  always does in an empty one.
\<close>

lemma conn_listener_cb_is_machine_run:
  fixes s :: "'w tp_st" and m :: tp_sys
  assumes "tp_ok s" and "comm_queues s \<noteq> []" and "conn_listener_cb e fd s = (r, t)"
    and "main_at m = Main_idle" and "queues m = comm_queues s" and "cur m = cur_worker_ind s"
    and sent: "sent \<or> pipes m ! cur m \<noteq> []"
  shows "tp_step\<^sup>*\<^sup>* m ((if sent then m\<lparr>queues := comm_queues t, accepted := accepted m @ [fd],
        pipes := app_at (cur m) (msg_byte COMM_NEW_CONNECTED) (pipes m)\<rparr>
      else m\<lparr>queues := comm_queues t, accepted := accepted m @ [fd]\<rparr>)
      \<lparr>cur := cur_worker_ind t, main_at := Main_idle\<rparr>)"
proof -
  let ?m = "m\<lparr>queues := push_conn (queues m) (cur m) fd, accepted := accepted m @ [fd], main_at := Main_send\<rparr>"
  have i: "cur_worker_ind s < length (comm_queues s)" "length (comm_pipes s) = length (comm_queues s)"
    using assms(1,2) by (simp_all add: tp_ok_def)
  then have t: "comm_queues t = push_conn (comm_queues s) (cur_worker_ind s) fd"
    "cur_worker_ind t = next_worker (length (comm_queues s)) (cur_worker_ind s)"
    using assms(3) by (auto simp: conn_listener_cb_def Let_def)
  have 1: "tp_step m ?m" using i assms(4-6) by (intro tp_step.accept) simp_all
  have 2: "tp_step ?m ((if sent then m\<lparr>queues := comm_queues t, accepted := accepted m @ [fd],
        pipes := app_at (cur m) (msg_byte COMM_NEW_CONNECTED) (pipes m)\<rparr>
      else m\<lparr>queues := comm_queues t, accepted := accepted m @ [fd]\<rparr>)
      \<lparr>cur := cur_worker_ind t, main_at := Main_idle\<rparr>)"
    using sent assms(4-6) t tp_step.notify [of ?m] tp_step.notify_full [of ?m] by (cases sent) simp_all
  show ?thesis using 1 2 by (meson converse_rtranclp_into_rtranclp r_into_rtranclp)
qed

text \<open>
  C21. The worker's callback and the machine agree. Run on its own from the position before its first
  \<open>recv\<close>, with the machine's queues and the machine's bytes in its pipe, \<open>main_msg_cb\<close> returns,
  and the machine can do the same: it reaches the state in which the queues and the pipe are the ones the callback
  left, the worker is back in its event loop or has asked it to exit, and the connections the callback
  registered with libevent are added, in that order, to the ones the worker has taken.
\<close>

theorem main_msg_cb_is_machine_run:
  fixes s :: "'w tp_st" and m :: tp_sys
  assumes "pipe_law pipe fd e" and "has_worker m (worker_id ctx)" and "worker_at m ! worker_id ctx = W_recv"
    and "queues m = comm_queues s" and "pipes m ! worker_id ctx = pipe (world s)"
    and "set (pipe (world s)) \<subseteq> range msg_byte"
  shows "\<exists>t l x. main_msg_cb e fd ctx s = Some (Ret (), t) \<and> trace t = trace s @ l \<and> x \<in> {W_loop, W_exit} \<and>
    tp_step\<^sup>*\<^sup>* m (worker_did (worker_id ctx) (pipe (world t)) (comm_queues t) x (new_conns (map fst l)) m)"
  using main_msg_run [OF assms(1) refl assms(2-6)] unfolding main_msg_cb_def by fastforce

text \<open>A world that is nothing but the bytes in the pipe.\<close>

fun pipe_env :: "bytes env" where
  "pipe_env (b # bs) (C_recv f n) = (ok_with 1 (P_bytes [b]), bs)"
| "pipe_env bs c = (refused, bs)"

lemma pipe_env_law: "pipe_law id fd pipe_env"
  by (auto simp: pipe_law_def split: list.split)

lemma msg_byte_range: "0 \<in> range msg_byte" "1 \<in> range msg_byte"
  using rangeI [of msg_byte COMM_NEW_CONNECTED] rangeI [of msg_byte COMM_TERMINATE] by simp_all

definition told_machine :: tp_sys where
  "told_machine = (tp_init 1)\<lparr>queues := [\<lparr>data_queue = [CommQueueItem 7, CommQueueItem 8]\<rparr>],
     pipes := [[msg_byte COMM_NEW_CONNECTED, msg_byte COMM_TERMINATE]], worker_at := [W_recv]\<rparr>"

definition told_server :: "bytes tp_st" where
  "told_server = tp_of [msg_byte COMM_NEW_CONNECTED, msg_byte COMM_TERMINATE] [4] [[7, 8]] 0"

theorem main_msg_cb_is_machine_run_witness:
  "\<exists>t l x. main_msg_cb pipe_env 3 \<lparr>worker_id = 0, ev_base = 1\<rparr> told_server = Some (Ret (), t) \<and>
    trace t = l \<and> x \<in> {W_loop, W_exit} \<and>
    tp_step\<^sup>*\<^sup>* told_machine (worker_did 0 (world t) (comm_queues t) x (new_conns (map fst l)) told_machine)"
proof -
  have "has_worker told_machine 0" "worker_at told_machine ! 0 = W_recv"
    "queues told_machine = comm_queues told_server" "pipes told_machine ! 0 = id (world told_server)"
    "set (id (world told_server)) \<subseteq> range msg_byte" "trace told_server = []"
    by (simp_all add: told_machine_def told_server_def tp_of_def tp_init_def has_worker_def msg_byte_range)
  then show ?thesis
    using main_msg_cb_is_machine_run [OF pipe_env_law, of told_machine "\<lparr>worker_id = 0, ev_base = 1\<rparr>" told_server 3]
    by simp
qed

end
