(* ===== verification/ThreadPoolStop.thy ===== *)
theory ThreadPoolStop
  imports ThreadPoolSys
begin

text \<open>
  Stopping the thread pool server (\<open>signal_event_cb\<close> and the \<open>pool.join()\<close> at the end of
  \<open>start_libev_adv_server\<close> in libev_half_sync_reactive_thread_pool_server.hpp): once every worker's
  pipe holds its \<open>COMM_TERMINATE\<close>, all workers end after a bounded number of steps under any schedule, so
  that \<open>join\<close> returns; but the byte is sent without looking at the result, and on a full pipe it is lost and
  the worker waits for good.
\<close>

section \<open>After the main loop\<close>

text \<open>
  The work a worker has left: its pipe and its queue are finite and nothing fills them any more. A worker
  in its event loop only has work while its pipe is not empty.
\<close>

definition worker_left :: "tp_sys \<Rightarrow> nat \<Rightarrow> nat" where
  "worker_left s i = 4 * length (pipes s ! i) + length (data_queue (queues s ! i)) +
     (case worker_at s ! i of
        W_loop \<Rightarrow> if pipes s ! i = [] then 0 else 3
      | W_recv \<Rightarrow> 2
      | W_drain \<Rightarrow> 3
      | W_exit \<Rightarrow> 0)"

definition work_left :: "tp_sys \<Rightarrow> nat" where
  "work_left s = (\<Sum>i < length (worker_at s). worker_left s i)"

text \<open>Everything in the pipes is a message.\<close>

definition pipes_ok :: "tp_sys \<Rightarrow> bool" where
  "pipes_ok s \<longleftrightarrow> (\<forall>i < length (pipes s). set (pipes s ! i) \<subseteq> range msg_byte)"

lemma pipes_ok_step: "tp_step s t \<Longrightarrow> pipes_ok s \<Longrightarrow> pipes_ok t"
proof (induction rule: tp_step.induct)
  case (notify s)
  then show ?case unfolding pipes_ok_def by (auto simp: nth_app_at simp del: msg_byte.simps)
next
  case (tell s k)
  then show ?case unfolding pipes_ok_def by (auto simp: nth_app_at simp del: msg_byte.simps)
next
  case (recv_new i s bs)
  have "set ((pipes s)[i := bs] ! j) \<subseteq> set (pipes s ! j)" if "j < length (pipes s)" for j
    using recv_new.hyps(3) that by (cases "i = j") auto
  then show ?case using recv_new.prems by (fastforce simp: pipes_ok_def)
next
  case (recv_term i s bs)
  have "set ((pipes s)[i := bs] ! j) \<subseteq> set (pipes s ! j)" if "j < length (pipes s)" for j
    using recv_term.hyps(3) that by (cases "i = j") auto
  then show ?case using recv_term.prems by (fastforce simp: pipes_ok_def)
qed (simp_all add: pipes_ok_def)

interpretation messages: step_invariant tp_step pipes_ok
  by unfold_locales (rule pipes_ok_step)

text \<open>The main loop has ended, and each worker has ended too or will read that it is to end.\<close>

definition stopping :: "nat \<Rightarrow> tp_sys \<Rightarrow> bool" where
  "stopping n s \<longleftrightarrow>
     main_at s = Main_exit \<and> length (pipes s) = n \<and> length (worker_at s) = n \<and> length (queues s) = n \<and>
     pipes_ok s \<and>
     (\<forall>i < n. worker_at s ! i = W_exit \<or> msg_byte COMM_TERMINATE \<in> set (pipes s ! i))"

lemma sum_one_less:
  fixes f g :: "nat \<Rightarrow> nat"
  assumes "i < n" and "f i < g i" and "\<And>j. j < n \<Longrightarrow> j \<noteq> i \<Longrightarrow> f j = g j"
  shows "sum f {..<n} < sum g {..<n}"
proof (rule sum_strict_mono_ex1)
  show "\<forall>j \<in> {..<n}. f j \<le> g j" using assms by (metis lessThan_iff order_le_less)
qed (use assms in auto)

lemma work_left_less:
  assumes "i < n" and "length (worker_at s) = n" and "length (worker_at t) = n" and "worker_left t i < worker_left s i"
    and "\<And>j. j < n \<Longrightarrow> j \<noteq> i \<Longrightarrow> worker_left t j = worker_left s j"
  shows "work_left t < work_left s"
  using sum_one_less [of i n "worker_left t" "worker_left s"] assms by (simp add: work_left_def)

lemma stopping_step: "tp_step s t \<Longrightarrow> stopping n s \<Longrightarrow> stopping n t \<and> work_left t < work_left s"
proof (frule pipes_ok_step, simp add: stopping_def, induction rule: tp_step.induct)
  case (wake i s)
  then have i: "i < n" by (simp add: stopping_def)
  show ?case
    using wake i by (auto simp: stopping_def nth_list_update worker_left_def intro!: work_left_less [OF i])
next
  case (recv_new i s bs)
  then have i: "i < n" by (simp add: stopping_def)
  show ?case
    using recv_new i by (auto simp: stopping_def nth_list_update worker_left_def intro!: work_left_less [OF i])
next
  case (recv_term i s bs)
  then have i: "i < n" by (simp add: stopping_def)
  show ?case
    using recv_term i by (auto simp: stopping_def nth_list_update worker_left_def intro!: work_left_less [OF i])
next
  case (recv_none i s)
  then show ?case by (auto simp: stopping_def)
next
  case (take i s x q)
  then have i: "i < n" by (simp add: stopping_def)
  have "data_queue (queues s ! i) \<noteq> []" "data_queue q = tl (data_queue (queues s ! i))"
    using take.hyps(3) by (auto simp: tsq_try_pop_def split: if_splits)
  then show ?case
    using take i by (auto simp: stopping_def nth_list_update worker_left_def intro!: work_left_less [OF i])
next
  case (queue_empty i s x q)
  then have i: "i < n" by (simp add: stopping_def)
  show ?case
    using queue_empty i by (auto simp: stopping_def nth_list_update worker_left_def intro!: work_left_less [OF i])
qed (auto simp: stopping_def)

text \<open>A stopping pool can always go on while a worker is left.\<close>

lemma stopping_goes_on:
  assumes "stopping n s" and "i < n" and "worker_at s ! i \<noteq> W_exit"
  shows "\<exists>t. tp_step s t"
proof -
  have i: "i < length (worker_at s)" using assms by (simp add: stopping_def)
  have "msg_byte COMM_TERMINATE \<in> set (pipes s ! i)" using assms by (auto simp: stopping_def)
  then obtain b bs where p: "pipes s ! i = b # bs" by (cases "pipes s ! i") auto
  have "b \<in> range msg_byte" using assms(1,2) p by (fastforce simp: stopping_def pipes_ok_def)
  then obtain m where b: "b = msg_byte m" by blast
  show ?thesis
  proof (cases "worker_at s ! i")
    case W_loop
    then show ?thesis using tp_step.wake [OF i] p by fastforce
  next
    case W_recv
    then show ?thesis using tp_step.recv_new [OF i] tp_step.recv_term [OF i] p b by (cases m) blast+
  next
    case W_drain
    obtain f x q where "tsq_try_pop (queues s ! i) (CommQueueItem (-1)) = (f, x, q)" by (metis prod_cases3)
    then show ?thesis using tp_step.take [OF i W_drain] tp_step.queue_empty [OF i W_drain] by (cases f) auto
  qed (use assms in simp)
qed

interpretation tp_stop: comes_to_rest tp_step "stopping n" tp_step work_left "\<lambda>s. \<forall>i < n. worker_at s ! i = W_exit" for n
  by unfold_locales (use stopping_step stopping_goes_on in blast)+

text \<open>
  C4. Shutting down ends: when the main loop has been left and every worker's pipe holds its
  \<open>COMM_TERMINATE\<close>, every schedule comes to an end, after at most \<open>work_left\<close> steps, and not before all
  workers have left their loops, so the \<open>join\<close> at the end of the server returns.
\<close>

theorem thread_pool_shuts_down:
  assumes "tp_step\<^sup>*\<^sup>* (tp_init n) s" and "main_at s = Main_exit"
    and "\<forall>i < n. worker_at s ! i = W_exit \<or> msg_byte COMM_TERMINATE \<in> set (pipes s ! i)"
    and "(tp_step ^^ k) s t"
  shows "k \<le> work_left s \<and> ((\<nexists>u. tp_step t u) \<longrightarrow> (\<forall>i < n. worker_at t ! i = W_exit))"
proof -
  have "tp_good s" by (rule tp_sim.good_run [OF assms(1) tp_init_good])
  moreover have "length (queues s) = n" using tp_disp_good [OF assms(1)] by (simp add: disp_good_def disp_of_def)
  moreover have "pipes_ok s"
    by (rule messages.good_run [OF assms(1)]) (simp add: pipes_ok_def tp_init_def)
  ultimately have "stopping n s" using assms(2,3) by (simp add: stopping_def tp_good_def)
  from tp_stop.rests_final [OF assms(4) this] show ?thesis .
qed

theorem thread_pool_shuts_down_witness:
  "\<exists>s. tp_step\<^sup>*\<^sup>* (tp_init 1) s \<and> main_at s = Main_exit \<and>
     (\<forall>k t. (tp_step ^^ k) s t \<longrightarrow> k \<le> 7 \<and> ((\<nexists>u. tp_step t u) \<longrightarrow> worker_at t ! 0 = W_exit))"
proof -
  let ?s = "\<lambda>p m. (tp_init 1)\<lparr>pipes := [p], main_at := m\<rparr>"
  have 1: "tp_step (tp_init 1) (?s [] (Main_term 0))"
    using tp_step.sigint [of "tp_init 1"] by (simp add: tp_init_def)
  have 2: "tp_step (?s [] (Main_term 0)) (?s [1] (Main_term 1))"
    using tp_step.tell [of "?s [] (Main_term 0)" 0] by (simp add: tp_init_def app_at_def)
  have 3: "tp_step (?s [1] (Main_term 1)) (?s [1] Main_exit)"
    using tp_step.tell_done [of "?s [1] (Main_term 1)" 1] by (simp add: tp_init_def)
  have run: "tp_step\<^sup>*\<^sup>* (tp_init 1) (?s [1] Main_exit)"
    using 1 2 3 by (meson converse_rtranclp_into_rtranclp r_into_rtranclp)
  have "work_left (?s [1] Main_exit) = 7" by (simp add: work_left_def worker_left_def tp_init_def tsq_new_def)
  then show ?thesis
    using run thread_pool_shuts_down [OF run] by (intro exI [of _ "?s [1] Main_exit"]) (auto simp: tp_init_def)
qed

section \<open>Pipes of a given size\<close>

text \<open>The worker whose pipe the main thread's next statement sends to.\<close>

definition sends_to :: "tp_sys \<Rightarrow> nat option" where
  "sends_to s = (case main_at s of Main_send \<Rightarrow> Some (cur s) | Main_term k \<Rightarrow> (if k < length (pipes s) then Some k else None)
                 | _ \<Rightarrow> None)"

text \<open>Steps with socket buffers of \<open>cap\<close> bytes: a byte is dropped exactly when the buffer is full.\<close>

definition tp_cap :: "nat \<Rightarrow> tp_sys \<Rightarrow> tp_sys \<Rightarrow> bool" where
  "tp_cap cap s t \<longleftrightarrow> tp_step s t \<and> (\<forall>p \<in> set (pipes t). length p \<le> cap) \<and>
     (\<forall>j. sends_to s = Some j \<and> main_at t \<noteq> main_at s \<and> pipes t = pipes s \<longrightarrow> length (pipes s ! j) = cap)"

text \<open>The server with one worker: queued connections, unread notifications, positions, connections so far.\<close>

definition solo :: "fd list \<Rightarrow> nat \<Rightarrow> main_pc \<Rightarrow> worker_pc \<Rightarrow> fd list \<Rightarrow> fd list \<Rightarrow> tp_sys" where
  "solo q j m w tk ac = \<lparr>queues = [\<lparr>data_queue = map CommQueueItem q\<rparr>], pipes = [replicate j (msg_byte COMM_NEW_CONNECTED)],
     cur = 0, main_at = m, worker_at = [w], taken = [tk], accepted = ac\<rparr>"

lemma solo_init: "tp_init 1 = solo [] 0 Main_idle W_loop [] []"
  by (simp add: tp_init_def solo_def tsq_new_def)

lemma solo_accept: "j < cap \<Longrightarrow> (tp_cap cap)\<^sup>*\<^sup>* (solo q j Main_idle W_loop tk ac) (solo (q @ [f]) (Suc j) Main_idle W_loop tk (ac @ [f]))"
proof -
  assume j: "j < cap"
  have "tp_cap cap (solo q j Main_idle W_loop tk ac) (solo (q @ [f]) j Main_send W_loop tk (ac @ [f]))"
    using j tp_step.accept [of "solo q j Main_idle W_loop tk ac" f]
    by (simp add: tp_cap_def solo_def push_conn_def tsq_push_def sends_to_def)
  moreover have "tp_cap cap (solo (q @ [f]) j Main_send W_loop tk (ac @ [f])) (solo (q @ [f]) (Suc j) Main_idle W_loop tk (ac @ [f]))"
    using j tp_step.notify [of "solo (q @ [f]) j Main_send W_loop tk (ac @ [f])"]
    by (simp add: tp_cap_def solo_def app_at_def next_worker_def replicate_append_same)
  ultimately show ?thesis by (meson converse_rtranclp_into_rtranclp r_into_rtranclp)
qed

lemma solo_fill: "length fs \<le> cap \<Longrightarrow>
    (tp_cap cap)\<^sup>*\<^sup>* (tp_init 1) (solo fs (length fs) Main_idle W_loop [] fs)"
proof (induction fs rule: rev_induct)
  case (snoc f fs)
  then show ?case using solo_accept [of "length fs" cap fs "[]" fs f] by (auto intro: rtranclp_trans)
qed (simp add: solo_init [unfolded One_nat_def])

lemma solo_sigint: "0 < cap \<Longrightarrow> (tp_cap cap)\<^sup>*\<^sup>* (solo q cap Main_idle W_loop tk ac) (solo q cap Main_exit W_loop tk ac)"
proof -
  assume cap: "0 < cap"
  let ?s = "\<lambda>m. solo q cap m W_loop tk ac"
  have "tp_cap cap (?s Main_idle) (?s (Main_term 0))"
    using tp_step.sigint [of "?s Main_idle"] by (simp add: tp_cap_def solo_def sends_to_def)
  moreover have "tp_cap cap (?s (Main_term 0)) (?s (Main_term 1))"
    using cap tp_step.tell_full [of "?s (Main_term 0)" 0] by (simp add: tp_cap_def solo_def sends_to_def)
  moreover have "tp_cap cap (?s (Main_term 1)) (?s Main_exit)"
    using tp_step.tell_done [of "?s (Main_term 1)" 1] by (simp add: tp_cap_def solo_def sends_to_def)
  ultimately show ?thesis by (meson converse_rtranclp_into_rtranclp r_into_rtranclp)
qed

lemma solo_drain: "j \<le> cap \<Longrightarrow>
    (tp_cap cap)\<^sup>*\<^sup>* (solo q j Main_exit W_drain tk ac) (solo [] j Main_exit W_recv (tk @ q) ac)"
proof (induction q arbitrary: tk)
  case Nil
  then have "tp_cap cap (solo [] j Main_exit W_drain tk ac) (solo [] j Main_exit W_recv tk ac)"
    using tp_step.queue_empty [of 0 "solo [] j Main_exit W_drain tk ac" "CommQueueItem (-1)" "\<lparr>data_queue = []\<rparr>"]
    by (simp add: tp_cap_def solo_def sends_to_def tsq_try_pop_def)
  then show ?case by simp
next
  case (Cons f q)
  then have "tp_cap cap (solo (f # q) j Main_exit W_drain tk ac) (solo q j Main_exit W_drain (tk @ [f]) ac)"
    using tp_step.take [of 0 "solo (f # q) j Main_exit W_drain tk ac" "CommQueueItem f" "\<lparr>data_queue = map CommQueueItem q\<rparr>"]
    by (simp add: tp_cap_def solo_def sends_to_def tsq_try_pop_def app_at_def)
  then show ?case using Cons by (metis append.assoc append_Cons append_Nil converse_rtranclp_into_rtranclp)
qed

lemma solo_read: "j \<le> cap \<Longrightarrow>
    (tp_cap cap)\<^sup>*\<^sup>* (solo q (Suc j) Main_exit W_recv tk ac) (solo [] 0 Main_exit W_loop (tk @ q) ac)"
proof (induction j arbitrary: q tk)
  have new: "(tp_cap cap)\<^sup>*\<^sup>* (solo q (Suc j) Main_exit W_recv tk ac) (solo [] j Main_exit W_recv (tk @ q) ac)"
    if "j \<le> cap" for j q tk
  proof -
    have "tp_cap cap (solo q (Suc j) Main_exit W_recv tk ac) (solo q j Main_exit W_drain tk ac)"
      using that tp_step.recv_new [of 0 "solo q (Suc j) Main_exit W_recv tk ac" "replicate j (msg_byte COMM_NEW_CONNECTED)"]
      by (simp add: tp_cap_def solo_def sends_to_def)
    then show ?thesis using solo_drain [OF that] by (meson converse_rtranclp_into_rtranclp)
  qed
  {
    case 0
    have "tp_cap cap (solo [] 0 Main_exit W_recv (tk @ q) ac) (solo [] 0 Main_exit W_loop (tk @ q) ac)"
      using tp_step.recv_none [of 0 "solo [] 0 Main_exit W_recv (tk @ q) ac"]
      by (simp add: tp_cap_def solo_def sends_to_def)
    then show ?case using new [of 0] by (meson rtranclp.rtrancl_into_rtrancl le0)
  next
    case (Suc j)
    then show ?case using new [of "Suc j" q tk] Suc.IH [of "[]" "tk @ q"] by (simp add: rtranclp_trans)
  }
qed

text \<open>
  C5. The request to end can be lost. Whatever the size of the socket buffers, \<open>SIGINT\<close> may come when a
  worker's pipe is full of notifications: its \<open>COMM_TERMINATE\<close> is dropped and the result of \<open>send\<close> is not
  looked at. The worker then serves all of its connections, goes back to its event loop, and nothing in the
  server can ever move again: the main thread waits in \<open>join\<close> for a worker that never ends.
\<close>

theorem terminate_may_be_lost:
  assumes "0 < cap"
  shows "\<exists>s. (tp_cap cap)\<^sup>*\<^sup>* (tp_init 1) s \<and> main_at s = Main_exit \<and> worker_at s = [W_loop] \<and>
    taken s = [accepted s] \<and> (\<nexists>t. tp_step s t)"
proof -
  define fs where "fs = replicate cap (7 :: fd)"
  obtain c where c: "cap = Suc c" using assms by (cases cap) auto
  let ?s = "solo [] 0 Main_exit W_loop fs fs"
  have "(tp_cap cap)\<^sup>*\<^sup>* (tp_init 1) (solo fs cap Main_exit W_loop [] fs)"
    using solo_fill [of fs cap] solo_sigint [OF assms, of fs "[]" fs] by (auto simp: fs_def)
  moreover have "tp_cap cap (solo fs cap Main_exit W_loop [] fs) (solo fs cap Main_exit W_recv [] fs)"
    using assms tp_step.wake [of 0 "solo fs cap Main_exit W_loop [] fs"] by (simp add: tp_cap_def solo_def sends_to_def)
  moreover have "(tp_cap cap)\<^sup>*\<^sup>* (solo fs cap Main_exit W_recv [] fs) ?s"
    using solo_read [of c cap fs "[]" fs] c by simp
  ultimately have "(tp_cap cap)\<^sup>*\<^sup>* (tp_init 1) ?s" by (meson rtranclp.rtrancl_into_rtrancl rtranclp_trans)
  moreover have "\<nexists>t. tp_step ?s t" by (auto simp: solo_def elim!: tp_stepE)
  ultimately show ?thesis by (intro exI [of _ ?s]) (auto simp: solo_def)
qed

theorem terminate_may_be_lost_witness:
  "\<exists>s. (tp_cap 2)\<^sup>*\<^sup>* (tp_init 1) s \<and> main_at s = Main_exit \<and> worker_at s = [W_loop] \<and> (\<nexists>t. tp_step s t)"
  using terminate_may_be_lost [of 2] by auto

end
