(* ===== verification/LibevMulti.thy ===== *)
theory LibevMulti
  imports Net
begin

unbundle bit_operations_syntax

text \<open>
  The single-threaded libevent server of server/include/libev_multi_con_server.hpp: opening the
  listening socket, the callbacks, and the start-up and shut-down around the event loop.
\<close>

section \<open>The listening socket\<close>

definition tcp_server_init :: "'w env \<Rightarrow> (string \<Rightarrow> (32 word) option) \<Rightarrow> string \<Rightarrow> int \<Rightarrow>
  ('w, 'x) proc_scheme \<Rightarrow> int outcome \<times> ('w, 'x) proc_scheme" where
  "tcp_server_init e pton ip port s =
     (let srv_addr = make_addr pton ip port;
          (a, s) = ext e C_socket s;
          srv_fd = ret a
      in if \<not> 0 \<le> srv_fd then (Assert_failed, s)
         else
           let s = extu e (C_reuseable srv_fd) s;
               (b, s) = ext e (C_bind srv_fd (sin_addr srv_addr) (sin_port srv_addr)) s
           in if ret b = -1 then (Ret (-1), extu e (C_close srv_fd) s)
              else
                let (l, s) = ext e (C_listen srv_fd 65535) s
                in if ret l = -1 then (Ret (-1), extu e (C_close srv_fd) s)
                   else
                     let s = log (L_text ''Server begin listening...'') s;
                         s = extu e (C_nonblocking srv_fd) s
                     in (Ret srv_fd, s))"

section \<open>Callbacks on plain events\<close>

text \<open>One turn of the loop of \<open>msg_cb\<close>; leaving it, the flag says whether it jumps to \<open>ERROR\<close>.\<close>

definition msg_body :: "'w env \<Rightarrow> fd \<Rightarrow> bytes \<times> ('w, 'x) proc_scheme \<Rightarrow>
  bytes \<times> ('w, 'x) proc_scheme + bool \<times> ('w, 'x) proc_scheme" where
  "msg_body e cli_fd st =
     (let (buf, s) = st;
          (a, s) = ext e (C_recv cli_fd (BUF_SIZE - 1)) s;
          n = ret a
      in if 0 < n then
           let buf = (fill_buf buf (bytes_of (payload a)))[nat n := 0]
           in Inl (buf, log (L_recv cli_fd n (cstr buf)) s)
         else if n < 0 then
           let s = log (L_recv_failed cli_fd (errno s)) s
           in if errno s \<noteq> EAGAIN \<and> errno s \<noteq> EWOULDBLOCK then Inr (True, s) else Inr (False, s)
         else Inr (True, log (L_disconnect cli_fd) s))"

text \<open>The reply \<open>"OK\r\n"\<close> of \<open>msg_cb\<close> and \<open>"OK"\<close> of \<open>be_msg_cb\<close>.\<close>

definition ok_crlf :: bytes where
  "ok_crlf = [79, 75, 13, 10]"

definition be_ok :: bytes where
  "be_ok = [79, 75]"

text \<open>\<open>ev\<close> is the event the callback was registered with, \<open>buf\<close> the uninitialised array.\<close>

definition msg_cb :: "'w env \<Rightarrow> bytes \<Rightarrow> fd \<Rightarrow> int \<Rightarrow> ('w, 'x) proc_scheme \<Rightarrow> ('w, 'x) proc_scheme option" where
  "msg_cb e buf cli_fd ev s =
     map_option
       (\<lambda>(failed, s).
          if failed then extu e (C_close cli_fd) (extu e (C_lev (Event_free ev)) s)
          else extu e (C_send cli_fd ok_crlf) (extu e (C_sleep_ms 100) s))
       (loop_until (msg_body e cli_fd) (buf, s))"

definition signal_cb :: "'w env \<Rightarrow> int \<Rightarrow> int \<Rightarrow> ('w, 'x) proc_scheme \<Rightarrow> ('w, 'x) proc_scheme" where
  "signal_cb e sig base s =
     (let s = log (L_signal sig) s
      in if sig = SIGINT then extu e (C_lev (Base_loopexit base)) s else s)"

section \<open>Callbacks on buffers\<close>

definition be_line :: "fd \<Rightarrow> 32 word \<Rightarrow> int \<Rightarrow> bytes \<Rightarrow> logline" where
  "be_line cli_fd count n msg = L_data ''Recv from fd'' [cli_fd, sint count, n] msg"

definition be_msg_cb :: "'w env \<Rightarrow> bytes \<Rightarrow> int \<Rightarrow> 'w cnt_st \<Rightarrow> 'w cnt_st option" where
  "be_msg_cb e buf be s =
     (let (a, s) = ext e (C_lev (Bev_getfd be)) s;
          cli_fd = ret a
      in map_option
           (\<lambda>s. extu e (C_lev (Bev_write be be_ok)) (extu e (C_sleep_ms 100) s))
           (loop_until (bev_read_body e be (be_line cli_fd)) (buf, s)))"

definition BEV_EOF :: "16 word" where "BEV_EOF = 16"
definition BEV_ERROR :: "16 word" where "BEV_ERROR = 32"

definition be_event_cb :: "'w env \<Rightarrow> int \<Rightarrow> 16 word \<Rightarrow> ('w, 'x) proc_scheme \<Rightarrow> ('w, 'x) proc_scheme" where
  "be_event_cb e be event s =
     (let (a, s) = ext e (C_lev (Bev_getfd be)) s;
          cli_fd = ret a
      in if event AND BEV_EOF \<noteq> 0 then extu e (C_lev (Bev_free be)) (log (L_disconnect cli_fd) s)
         else if event AND BEV_ERROR \<noteq> 0 then
           extu e (C_lev (Bev_free be)) (log (L_data ''Remote fd error'' [cli_fd, errno s] []) s)
         else s)"

definition accept_cb :: "'w env \<Rightarrow> fd \<Rightarrow> int \<Rightarrow> ('w, 'x) proc_scheme \<Rightarrow> ('w, 'x) proc_scheme" where
  "accept_cb e srv_fd base s =
     (let (a, s) = ext e (C_accept srv_fd) s;
          cli_fd = ret a
      in if cli_fd < 0 then log (L_accept_failed (errno s)) s
         else
           let s = extu e (C_nonblocking cli_fd) s;
               s = log (L_connected cli_fd) s;
               (b, s) = ext e (C_lev (Bev_socket_new base cli_fd)) s;
               be = ret b;
               s = extu e (C_lev (Bev_setcb be ''be_msg_cb'' ''be_event_cb'')) s
           in extu e (C_lev (Bev_enable be)) s)"

text \<open>\<open>dispatch\<close> stands for \<open>event_base_dispatch\<close>, which runs the callbacks.\<close>

definition start_libev_multi_server :: "'w env \<Rightarrow> (string \<Rightarrow> (32 word) option) \<Rightarrow>
  (int \<Rightarrow> 'w cnt_st \<Rightarrow> int \<times> 'w cnt_st) \<Rightarrow> string \<Rightarrow> int \<Rightarrow> 'w cnt_st \<Rightarrow> unit outcome \<times> 'w cnt_st" where
  "start_libev_multi_server e pton dispatch ip port s =
     then_do (tcp_server_init e pton ip port s) (\<lambda>srv_fd s.
       if srv_fd = -1 then (Ret (), log (L_text ''Tcp server init failed.'') s)
       else
         let (b, s) = ext e (C_lev Base_new) s;
             base = ret b;
             (v, s) = ext e (C_lev (Evsignal_new base SIGINT ''signal_cb'')) s;
             s = extu e (C_lev (Event_add (ret v))) s;
             (x, s) = ext e (C_lev (Event_new base srv_fd ''accept_cb'')) s;
             s = extu e (C_lev (Event_add (ret x))) s;
             (r, s) = dispatch base s;
             s = log (L_data ''Event looper stopped ret'' [r, errno s] []) s;
             s = extu e (C_lev (Base_free base)) s
         in (Ret (), extu e (C_close srv_fd) s))"

section \<open>Properties\<close>

text \<open>
  Opening the listening socket never leaks it: when \<open>bind\<close> or \<open>listen\<close> fails, the function
  returns -1 and the open descriptors are what they were; otherwise it returns a fresh descriptor,
  the only one it opened. Only a failing \<open>socket\<close> trips the assertion.
\<close>

theorem tcp_server_init_no_leak:
  assumes "fd_law tab e" and "tcp_server_init e pton ip port s = (r, t)"
  shows "(r = Assert_failed \<and> ret (fst (e (world s) C_socket)) < 0 \<and> tab (world t) = tab (world s)) \<or>
    (r = Ret (-1) \<and> tab (world t) = tab (world s)) \<or>
    (\<exists>f. r = Ret f \<and> 0 \<le> f \<and> f \<notin> tab (world s) \<and> tab (world t) = insert f (tab (world s)))"
proof (cases "0 \<le> ret (fst (e (world s) C_socket))")
  case False
  then have "r = Assert_failed" "t = extu e C_socket s"
    using assms(2) unfolding tcp_server_init_def Let_def split_beta fst_ext by (simp_all only: if_True prod.inject simp_thms)
  moreover have "tab (world (extu e C_socket s)) = tab (world s)"
    using False by (simp add: fd_law_tab [OF assms(1)])
  ultimately show ?thesis using False by simp
next
  case True
  let ?f = "ret (fst (e (world s) C_socket))"
  have "?f \<in> opened C_socket (fst (e (world s) C_socket))" using True by simp
  then have fresh: "?f \<notin> tab (world s)" using fd_law_fresh [OF assms(1)] by blast
  let ?a = "make_addr pton ip port"
  let ?u = "extu e (C_reuseable ?f) (extu e C_socket s)"
  let ?b = "C_bind ?f (sin_addr ?a) (sin_port ?a)"
  let ?v = "extu e ?b ?u"
  let ?w = "extu e (C_listen ?f 65535) ?v"
  have tabs: "tab (world ?v) = insert ?f (tab (world s))" "tab (world ?w) = insert ?f (tab (world s))"
    using True by (simp_all add: fd_law_tab [OF assms(1)])
  consider "ret (fst (e (world ?u) ?b)) = -1" "r = Ret (-1)" "t = extu e (C_close ?f) ?v"
    | "ret (fst (e (world ?v) (C_listen ?f 65535))) = -1" "r = Ret (-1)" "t = extu e (C_close ?f) ?w"
    | "r = Ret ?f" "t = extu e (C_nonblocking ?f) (log (L_text ''Server begin listening...'') ?w)"
    using assms(2) True by (simp add: tcp_server_init_def Let_def split_beta split: if_splits)
  then show ?thesis
    by cases (use fresh True tabs in \<open>simp_all add: fd_law_tab [OF assms(1)]\<close>)
qed

theorem tcp_server_init_no_leak_witness:
  "\<exists>t. tcp_server_init script_env (\<lambda>_. None) ''127.0.0.1'' 8080
      (proc0 (script {0, 1, 2} [ok 3, ok 0, fail 98, ok 0])) = (Ret (-1), t) \<and> s_open (world t) = {0, 1, 2}"
proof -
  let ?s = "proc0 (script {0, 1, 2} [ok 3, ok 0, fail 98, ok 0])"
  obtain r t where rt: "tcp_server_init script_env (\<lambda>_. None) ''127.0.0.1'' 8080 ?s = (r, t)" by fastforce
  have "fst (tcp_server_init script_env (\<lambda>_. None) ''127.0.0.1'' 8080 ?s) = Ret (-1)"
    by (simp add: tcp_server_init_def Let_def split_beta proc0_def script_def script_step legal_def)
  then have "r = Ret (-1)" using rt by simp
  with tcp_server_init_no_leak [OF script_fd_law rt] rt show ?thesis by (auto simp: proc0_def script_def)
qed

text \<open>
  Accepting: a failed \<open>accept\<close> only leaves a log line; a connection is made non-blocking,
  wrapped in exactly one buffer that closes it when freed, given both callbacks and enabled, in
  this order.
\<close>

lemma accept_cb_registers:
  shows "(let c = ret (fst (e (world s) (C_accept srv_fd))); t = accept_cb e srv_fd base s
     in if c < 0 then calls t = calls s @ [C_accept srv_fd]
        else \<exists>be. calls t = calls s @ [C_accept srv_fd, C_nonblocking c, C_lev (Bev_socket_new base c),
               C_lev (Bev_setcb be ''be_msg_cb'' ''be_event_cb''), C_lev (Bev_enable be)])"
  by (simp add: accept_cb_def Let_def split_beta)

text \<open>
  Serving a buffered client returns whenever its buffer is finite, counts and logs each message
  without leaving the local array, and writes exactly one \<open>"OK"\<close>.
\<close>

theorem be_msg_cb_serves:
  fixes s :: "'w cnt_st" and be :: int
  assumes "bev_read_law e" and "bev_finite pend e" and "length buf = BUF_SIZE"
  shows "\<exists>t (as :: answer list). be_msg_cb e buf be s = Some t \<and> (\<forall>x \<in> set as. 0 < ret x) \<and>
    calls t = calls s @ [C_lev (Bev_getfd be)] @ replicate (length as + 1) (C_lev (Bev_read be (BUF_SIZE - 1))) @
      [C_sleep_ms 100, C_lev (Bev_write be be_ok)] \<and>
    succ_cli_count t = succ_cli_count s + of_nat (length as) \<and>
    out t = out s @ messages (be_line (ret (fst (e (world s) (C_lev (Bev_getfd be)))))) (succ_cli_count s) as"
proof -
  let ?s = "extu e (C_lev (Bev_getfd be)) s"
  let ?line = "be_line (ret (fst (e (world s) (C_lev (Bev_getfd be)))))"
  obtain t "as" where t: "loop_until (bev_read_body e be ?line) (buf, ?s) = Some t" "read_messages be ?line ?s as t"
    using bev_read_all [OF assms] by blast
  let ?t = "extu e (C_lev (Bev_write be be_ok)) (extu e (C_sleep_ms 100) t)"
  have "be_msg_cb e buf be s = Some ?t" using t(1) by (simp add: be_msg_cb_def Let_def split_beta)
  moreover have "calls ?t = calls s @ [C_lev (Bev_getfd be)] @
      replicate (length as + 1) (C_lev (Bev_read be (BUF_SIZE - 1))) @ [C_sleep_ms 100, C_lev (Bev_write be be_ok)]"
    "succ_cli_count ?t = succ_cli_count s + of_nat (length as)" "\<forall>x \<in> set as. 0 < ret x"
    "out ?t = out s @ messages ?line (succ_cli_count s) as"
    using t(2) by (simp_all add: read_messages_def)
  ultimately show ?thesis by blast
qed

theorem be_msg_cb_serves_witness:
  "\<exists>t. be_msg_cb script_env (replicate BUF_SIZE 7) 50
      \<lparr>world = script {} [ok 9, ok_with 2 (P_bytes [72, 105]), ok 0, ok 0, ok 0], errno = 0, trace = [], out = [], succ_cli_count = 0\<rparr> = Some t \<and>
    (\<exists>n. calls t = C_lev (Bev_getfd 50) # replicate n (C_lev (Bev_read 50 (BUF_SIZE - 1))) @
      [C_sleep_ms 100, C_lev (Bev_write 50 be_ok)])"
  using be_msg_cb_serves [OF script_bev_read_law script_bev_finite, of "replicate BUF_SIZE 7" 50
      "\<lparr>world = script {} [ok 9, ok_with 2 (P_bytes [72, 105]), ok 0, ok 0, ok 0], errno = 0, trace = [], out = [], succ_cli_count = 0\<rparr>"]
  by (auto simp del: replicate.simps)

interpretation lm_reads: recv_loop e "\<lambda>_. f" "BUF_SIZE - 1" "\<lambda>(buf, s). world s" "msg_body e f"
  for e :: "'w env" and f :: fd
  by unfold_locales (auto simp: msg_body_def Let_def split_beta split: if_splits)

lemma msg_body_Inl:
  assumes "recv_law e" and "length (fst u) = BUF_SIZE \<and> drained f s as (snd u)" and "msg_body e f u = Inl v"
  shows "\<exists>a. length (fst v) = BUF_SIZE \<and> drained f s (as @ [a]) (snd v)"
proof -
  obtain buf t where u: "u = (buf, t)" by fastforce
  let ?a = "fst (e (world t) (C_recv f (BUF_SIZE - 1)))"
  have pos: "0 < ret ?a" using assms(3) by (auto simp: u msg_body_def Let_def split_beta split: if_splits)
  have law: "ret ?a \<le> int (BUF_SIZE - 1)" "length (bytes_of (payload ?a)) = nat (ret ?a)"
    using assms(1) pos unfolding recv_law_def Let_def by (auto dest!: spec [of _ "world t"] spec [of _ f] spec [of _ "BUF_SIZE - 1"])
  have lt: "length (bytes_of (payload ?a)) < length buf" using law assms(2) pos by (simp add: u BUF_SIZE_def)
  let ?buf = "(fill_buf buf (bytes_of (payload ?a)))[nat (ret ?a) := 0]"
  have "cstr ?buf = cstr (bytes_of (payload ?a))" by (rule cstr_fill_terminated [OF lt, unfolded law(2)])
  moreover have "length ?buf = BUF_SIZE"
    using length_fill_buf [of "bytes_of (payload ?a)" buf] lt assms(2) by (simp add: u)
  moreover have "v = (?buf, log (L_recv f (ret ?a) (cstr ?buf)) (extu e (C_recv f (BUF_SIZE - 1)) t))"
    using assms(3) pos by (simp add: u msg_body_def Let_def split_beta)
  ultimately have "length (fst v) = BUF_SIZE \<and> drained f s (as @ [?a]) (snd v)"
    using assms(2) pos by (simp add: drained_def u)
  then show ?thesis by blast
qed

text \<open>How the loop ends: the answers consumed, the last one, and whether the connection is given up.\<close>

definition msg_end :: "fd \<Rightarrow> ('w, 'x) proc_scheme \<Rightarrow> bool \<times> ('w, 'x) proc_scheme \<Rightarrow> bool" where
  "msg_end f s r \<longleftrightarrow>
     (\<exists>as a u. drained f s as u \<and> ret a \<le> 0 \<and> fst r = gives_up a \<and>
        trace (snd r) = trace u @ [(C_recv f (BUF_SIZE - 1), a)])"

lemma msg_body_Inr:
  assumes "drained f s as (snd u)" and "msg_body e f u = Inr r"
  shows "msg_end f s r"
  unfolding msg_end_def
  by (rule exI [of _ "as"], rule exI [of _ "fst (e (world (snd u)) (C_recv f (BUF_SIZE - 1)))"], rule exI [of _ "snd u"])
     (use assms in \<open>auto simp: msg_body_def gives_up_def Let_def split_beta split: if_splits\<close>)

text \<open>
  The callback for plain sockets returns whenever the pending input is finite, reading all of it
  without leaving the local array; it then answers \<open>"OK\r\n"\<close> once while the connection lives, and
  otherwise frees the event and closes the descriptor, in that order.
\<close>

theorem msg_cb_serves:
  fixes s :: "('w, 'x) proc_scheme"
  assumes "recv_law e" and "recv_finite pend e" and "length buf = BUF_SIZE"
  shows "\<exists>t (as :: answer list) a l. msg_cb e buf f ev s = Some t \<and> (\<forall>x \<in> set as. 0 < ret x) \<and> ret a \<le> 0 \<and>
    trace t = trace s @ map (Pair (C_recv f (BUF_SIZE - 1))) (as @ [a]) @ l \<and>
    map fst l = (if gives_up a then [C_lev (Event_free ev), C_close f] else [C_sleep_ms 100, C_send f ok_crlf])"
proof -
  obtain r where r: "loop_until (msg_body e f) (buf, s) = Some r"
    using lm_reads.terminates [OF assms(2)] by blast
  have "msg_end f s r"
  proof (rule loop_until_invariant [OF r, where P = "\<lambda>u. \<exists>as. length (fst u) = BUF_SIZE \<and> drained f s as (snd u)"])
    show "\<exists>as. length (fst (buf, s)) = BUF_SIZE \<and> drained f s as (snd (buf, s))"
      using assms(3) drained_Nil by auto
  qed (use msg_body_Inl [OF assms(1)] msg_body_Inr in blast)+
  then obtain "as" a u where u: "drained f s as u" "ret a \<le> 0" "fst r = gives_up a"
    "trace (snd r) = trace u @ [(C_recv f (BUF_SIZE - 1), a)]"
    by (auto simp: msg_end_def)
  define t where "t = (if fst r then extu e (C_close f) (extu e (C_lev (Event_free ev)) (snd r))
    else extu e (C_send f ok_crlf) (extu e (C_sleep_ms 100) (snd r)))"
  have "msg_cb e buf f ev s = Some t" using r by (simp add: msg_cb_def split_beta t_def)
  moreover have "\<exists>l. trace t = trace s @ map (Pair (C_recv f (BUF_SIZE - 1))) (as @ [a]) @ l \<and>
    map fst l = (if gives_up a then [C_lev (Event_free ev), C_close f] else [C_sleep_ms 100, C_send f ok_crlf])"
    using u by (simp add: t_def drained_def)
  moreover have "\<forall>x \<in> set as. 0 < ret x" using u(1) by (simp add: drained_def)
  ultimately show ?thesis using u(2) by blast
qed

theorem msg_cb_serves_witness:
  "\<exists>t. msg_cb script_env (replicate BUF_SIZE 7) 9 60 (proc0 (script {9} [ok 0, ok 0, ok 0])) = Some t \<and>
    calls t = [C_recv 9 (BUF_SIZE - 1), C_lev (Event_free 60), C_close 9]"
proof -
  let ?s = "proc0 (script {9} [ok 0, ok 0, ok 0])"
  obtain t where t: "msg_cb script_env (replicate BUF_SIZE 7) 9 60 ?s = Some t"
    using msg_cb_serves [OF script_recv_law script_recv_finite, of "replicate BUF_SIZE 7" 9 60 ?s] by auto
  have "msg_body script_env 9 (replicate BUF_SIZE 7, ?s) =
      Inr (True, log (L_disconnect 9) (extu script_env (C_recv 9 (BUF_SIZE - 1)) ?s))"
    by (simp add: msg_body_def Let_def split_beta proc0_def script_def script_step legal_def)
  then show ?thesis using t by (auto simp: msg_cb_def proc0_def)
qed

end
