(* ===== verification/LibevLife.thy ===== *)
theory LibevLife
  imports LibevMulti
begin

unbundle bit_operations_syntax

text \<open>
  The connections of the single-threaded libevent server (libev_multi_con_server.hpp) from their acceptance to
  their end, over any sequence of callbacks the event loop may run: every connection belongs to exactly one
  bufferevent, which closes it when freed, and the server holds no other descriptor; from the first call of
  \<open>start_libev_multi_server\<close> to its return.
\<close>

section \<open>What libevent does with descriptors\<close>

text \<open>
  \<open>bevs w\<close> are the live bufferevents with the descriptors they were given. \<open>bufferevent_socket_new\<close> makes a new
  one, or fails and returns the null pointer; with \<open>BEV_OPT_CLOSE_ON_FREE\<close>, \<open>bufferevent_free\<close> closes its descriptor; the other functions leave both
  alone. Descriptors libevent opens for itself are not in \<open>tab\<close>.
\<close>

fun owns_fd :: "levcall \<Rightarrow> bool" where
  "owns_fd (Bev_socket_new b f) = True"
| "owns_fd (Bev_free b) = True"
| "owns_fd k = False"

definition bev_law :: "('w \<Rightarrow> fd set) \<Rightarrow> ('w \<Rightarrow> int \<rightharpoonup> fd) \<Rightarrow> 'w env \<Rightarrow> bool" where
  "bev_law tab bevs e \<longleftrightarrow>
     (\<forall>w b f. let (a, w') = e w (C_lev (Bev_socket_new b f))
        in tab w' = tab w \<and>
           (if ret a = 0 then bevs w' = bevs w else bevs w (ret a) = None \<and> bevs w' = (bevs w)(ret a \<mapsto> f))) \<and>
     (\<forall>w b. let w' = snd (e w (C_lev (Bev_free b)))
        in bevs w' = (bevs w)(b := None) \<and> tab w' = tab w - set_option (bevs w b)) \<and>
     (\<forall>w k. \<not> owns_fd k \<longrightarrow> bevs (snd (e w (C_lev k))) = bevs w \<and> tab (snd (e w (C_lev k))) = tab w) \<and>
     (\<forall>w c. plain c \<longrightarrow> bevs (snd (e w c)) = bevs w)"

lemma bev_law_new:
  assumes "bev_law tab bevs e" and "ret (fst (e w (C_lev (Bev_socket_new b f)))) \<noteq> 0"
  shows "bevs w (ret (fst (e w (C_lev (Bev_socket_new b f))))) = None"
    "bevs (snd (e w (C_lev (Bev_socket_new b f)))) = (bevs w)(ret (fst (e w (C_lev (Bev_socket_new b f)))) \<mapsto> f)"
    "tab (snd (e w (C_lev (Bev_socket_new b f)))) = tab w"
  using assms unfolding bev_law_def by (auto simp: split_beta Let_def)

lemma bev_law_free:
  assumes "bev_law tab bevs e"
  shows "bevs (snd (e w (C_lev (Bev_free b)))) = (bevs w)(b := None)"
    "tab (snd (e w (C_lev (Bev_free b)))) = tab w - set_option (bevs w b)"
  using assms unfolding bev_law_def by (auto simp: Let_def)

lemma bev_law_quiet:
  assumes "bev_law tab bevs e"
  shows "\<not> owns_fd k \<Longrightarrow> bevs (snd (e w (C_lev k))) = bevs w" "\<not> owns_fd k \<Longrightarrow> tab (snd (e w (C_lev k))) = tab w"
    "plain c \<Longrightarrow> bevs (snd (e w c)) = bevs w"
  using assms unfolding bev_law_def by simp_all

section \<open>Sequences of callbacks\<close>

text \<open>
  When \<open>bufferevent_socket_new\<close> returns the null pointer, \<open>accept_cb\<close> hands it to \<open>bufferevent_setcb\<close>, which is
  undefined. \<open>accept_made\<close>: this does not happen.
\<close>

definition accept_made :: "'w env \<Rightarrow> fd \<Rightarrow> int \<Rightarrow> 'w cnt_st \<Rightarrow> bool" where
  "accept_made e srv_fd base s \<longleftrightarrow>
     (let (a, w) = e (world s) (C_accept srv_fd); c = ret a
      in c < 0 \<or> ret (fst (e (snd (e w (C_nonblocking c))) (C_lev (Bev_socket_new base c)))) \<noteq> 0)"

text \<open>
  What \<open>event_base_dispatch\<close> may run: the accept callback, the two callbacks of a live bufferevent, the signal
  callback; in any order, any number of times, as long as all of it is defined.
\<close>

inductive lm_step :: "'w env \<Rightarrow> ('w \<Rightarrow> int \<rightharpoonup> fd) \<Rightarrow> fd \<Rightarrow> int \<Rightarrow> 'w cnt_st \<Rightarrow> 'w cnt_st \<Rightarrow> bool"
  for e :: "'w env" and bevs :: "'w \<Rightarrow> int \<rightharpoonup> fd" and srv_fd :: fd and base :: int where
  on_accept: "accept_made e srv_fd base s \<Longrightarrow> lm_step e bevs srv_fd base s (accept_cb e srv_fd base s)"
| on_msg: "bevs (world s) be = Some f \<Longrightarrow> be_msg_cb e buf be s = Some t \<Longrightarrow> lm_step e bevs srv_fd base s t"
| on_event: "bevs (world s) be = Some f \<Longrightarrow> lm_step e bevs srv_fd base s (be_event_cb e be event s)"
| on_signal: "lm_step e bevs srv_fd base s (signal_cb e sig base s)"

text \<open>The open descriptors are \<open>B\<close> and one for each live bufferevent.\<close>

definition owned :: "('w \<Rightarrow> fd set) \<Rightarrow> ('w \<Rightarrow> int \<rightharpoonup> fd) \<Rightarrow> fd set \<Rightarrow> 'w \<Rightarrow> bool" where
  "owned tab bevs B w \<longleftrightarrow> tab w = B \<union> ran (bevs w) \<and> B \<inter> ran (bevs w) = {} \<and> inj_on (bevs w) (dom (bevs w))"

lemma owned_same: "tab w' = tab w \<Longrightarrow> bevs w' = bevs w \<Longrightarrow> owned tab bevs B w' = owned tab bevs B w"
  by (simp add: owned_def)

lemma inj_dom_new:
  assumes "inj_on m (dom m)" and "m h = None" and "f \<notin> ran m"
  shows "inj_on (m(h \<mapsto> f)) (dom (m(h \<mapsto> f)))"
  using assms by (auto simp: inj_on_def ran_def dom_def)

lemma ran_drop:
  assumes "inj_on m (dom m)"
  shows "ran (m(h := None)) = ran m - set_option (m h)" and "inj_on (m(h := None)) (dom (m(h := None)))"
  using assms by (auto simp: inj_on_def ran_def dom_def)

lemma owned_new:
  assumes "owned tab bevs B w" and "f \<notin> tab w" and "bevs w h = None"
    and "tab w' = insert f (tab w)" and "bevs w' = (bevs w)(h \<mapsto> f)"
  shows "owned tab bevs B w'"
proof -
  have "ran (bevs w') = insert f (ran (bevs w))" using assms(3,5) by simp
  moreover have "f \<notin> B" "f \<notin> ran (bevs w)" using assms(1,2) by (auto simp: owned_def)
  ultimately show ?thesis
    using assms inj_dom_new [of "bevs w" h f] by (auto simp: owned_def)
qed

lemma owned_free:
  assumes "owned tab bevs B w" and "tab w' = tab w - set_option (bevs w h)" and "bevs w' = (bevs w)(h := None)"
  shows "owned tab bevs B w'"
proof -
  have inj: "inj_on (bevs w) (dom (bevs w))" using assms(1) by (simp add: owned_def)
  have "set_option (bevs w h) \<subseteq> ran (bevs w)" by (auto simp: ran_def)
  then show ?thesis
    using assms ran_drop [OF inj, of h] by (auto simp: owned_def)
qed

lemma accept_cb_owned:
  assumes "fd_law tab e" and "bev_law tab bevs e" and "owned tab bevs B (world s)" and "accept_made e lf base s"
  shows "owned tab bevs B (world (accept_cb e lf base s))"
proof (cases "ret (fst (e (world s) (C_accept lf))) < 0")
  case True
  then show ?thesis
    using assms(3) fd_law_tab [OF assms(1), of "C_accept lf" "world s"] bev_law_quiet(3) [OF assms(2), of "C_accept lf" "world s"]
    by (simp add: accept_cb_def Let_def split_beta owned_def)
next
  case False
  let ?c = "ret (fst (e (world s) (C_accept lf)))"
  let ?w = "snd (e (snd (e (world s) (C_accept lf))) (C_nonblocking ?c))"
  let ?n = "C_lev (Bev_socket_new base ?c)"
  have fresh: "?c \<notin> tab (world s)" using fd_law_fresh [OF assms(1), of ?c "C_accept lf" "world s"] False by simp
  have w: "tab ?w = insert ?c (tab (world s))" "bevs ?w = bevs (world s)"
    using False by (simp_all add: fd_law_tab [OF assms(1)] bev_law_quiet(3) [OF assms(2)])
  have "ret (fst (e ?w ?n)) \<noteq> 0" using assms(4) False by (simp add: accept_made_def Let_def split_beta)
  note new = bev_law_new [OF assms(2) this]
  have "owned tab bevs B (snd (e ?w ?n))"
    by (rule owned_new [OF assms(3) fresh, of "ret (fst (e ?w ?n))"]) (use new w in simp_all)
  then show ?thesis
    using False by (simp add: accept_cb_def Let_def split_beta owned_def bev_law_quiet(1,2) [OF assms(2)])
qed

lemma be_msg_cb_owned:
  fixes s :: "'w cnt_st"
  assumes "fd_law tab e" and "bev_law tab bevs e" and "owned tab bevs B (world s)" and "be_msg_cb e buf be s = Some t"
  shows "owned tab bevs B (world t)"
proof -
  let ?u = "extu e (C_lev (Bev_getfd be)) s"
  let ?line = "be_line (ret (fst (e (world s) (C_lev (Bev_getfd be)))))"
  obtain v where v: "loop_until (bev_read_body e be ?line) (buf, ?u) = Some v"
    and t: "t = extu e (C_lev (Bev_write be be_ok)) (extu e (C_sleep_ms 100) v)"
    using assms(4) by (auto simp: be_msg_cb_def Let_def split_beta)
  have keep: "owned tab bevs B (snd (e w (C_lev k))) = owned tab bevs B w" if "\<not> owns_fd k" for w k
    by (rule owned_same) (use that bev_law_quiet(1,2) [OF assms(2)] in simp_all)
  have "owned tab bevs B (world v)"
    by (rule loop_until_invariant [OF v, where P = "\<lambda>x. owned tab bevs B (world (snd x))"])
       (use assms(3) keep in \<open>auto simp: bev_read_body_def Let_def split_beta split: if_splits\<close>)
  moreover have "owned tab bevs B (snd (e (world v) (C_sleep_ms 100))) = owned tab bevs B (world v)"
    by (rule owned_same) (simp_all add: fd_law_tab [OF assms(1)] bev_law_quiet(3) [OF assms(2)])
  ultimately show ?thesis using keep t by simp
qed

text \<open>A connection that ends: its bufferevent is gone and so is its descriptor, and nothing else.\<close>

lemma be_event_cb_frees:
  assumes "bev_law tab bevs e"
  shows "if event AND (BEV_EOF OR BEV_ERROR) \<noteq> 0
    then bevs (world (be_event_cb e be event s)) = (bevs (world s))(be := None) \<and>
         tab (world (be_event_cb e be event s)) = tab (world s) - set_option (bevs (world s) be)
    else bevs (world (be_event_cb e be event s)) = bevs (world s) \<and> tab (world (be_event_cb e be event s)) = tab (world s)"
proof -
  have "event AND (BEV_EOF OR BEV_ERROR) = 0 \<longleftrightarrow> event AND BEV_EOF = 0 \<and> event AND BEV_ERROR = 0"
    by (simp add: bit.conj_disj_distrib or_eq_0_iff)
  then show ?thesis
    by (simp add: be_event_cb_def Let_def split_beta bev_law_free [OF assms] bev_law_quiet(1,2) [OF assms])
qed

lemma lm_step_owned:
  assumes "fd_law tab e" and "bev_law tab bevs e" and "lm_step e bevs lf base s t" and "owned tab bevs B (world s)"
  shows "owned tab bevs B (world t)"
  using assms(3)
proof cases
  case on_accept
  then show ?thesis using accept_cb_owned [OF assms(1,2,4), of lf base] by simp
next
  case (on_msg be f buf)
  then show ?thesis using be_msg_cb_owned [OF assms(1,2,4)] by blast
next
  case (on_event be f event)
  note ev = be_event_cb_frees [OF assms(2), of event be s, folded on_event(1)]
  show ?thesis
  proof (cases "event AND (BEV_EOF OR BEV_ERROR) = 0")
    case True
    then show ?thesis using ev assms(4) by (simp add: owned_def)
  next
    case False
    then show ?thesis using ev owned_free [OF assms(4), of "world t" be] by simp
  qed
next
  case (on_signal sig)
  have "tab (world t) = tab (world s) \<and> bevs (world t) = bevs (world s)"
    by (simp add: on_signal signal_cb_def Let_def bev_law_quiet(1,2) [OF assms(2)])
  then show ?thesis using assms(4) by (simp add: owned_def)
qed

interpretation lm_runs: step_invariant "lm_step e bevs lf base"
    "\<lambda>s. fd_law tab e \<and> bev_law tab bevs e \<and> owned tab bevs B (world s)"
  for e :: "'w env" and bevs lf base tab B
  by unfold_locales (use lm_step_owned in blast)

section \<open>From the first call to the return\<close>

text \<open>Opening the socket leaves the bufferevents alone.\<close>

lemma tcp_server_init_bevs:
  assumes "bev_law tab bevs e" and "tcp_server_init e pton ip port s = (r, t)"
  shows "bevs (world t) = bevs (world s)"
proof -
  have "bevs (world (snd (tcp_server_init e pton ip port s))) = bevs (world s)"
    by (simp add: tcp_server_init_def Let_def split_beta bev_law_quiet(3) [OF assms(1)])
  then show ?thesis using assms(2) by simp
qed

text \<open>The state in which \<open>event_base_dispatch\<close> is called, and what has been registered by then.\<close>

definition lm_ready :: "'w env \<Rightarrow> fd \<Rightarrow> 'w cnt_st \<Rightarrow> int \<times> 'w cnt_st" where
  "lm_ready e srv_fd s =
     (let (b, s) = ext e (C_lev Base_new) s;
          (v, s) = ext e (C_lev (Evsignal_new (ret b) SIGINT ''signal_cb'')) s;
          s = extu e (C_lev (Event_add (ret v))) s;
          (x, s) = ext e (C_lev (Event_new (ret b) srv_fd ''accept_cb'')) s
      in (ret b, extu e (C_lev (Event_add (ret x))) s))"

lemma lm_ready_frame:
  assumes "bev_law tab bevs e"
  shows "tab (world (snd (lm_ready e f s))) = tab (world s)" "bevs (world (snd (lm_ready e f s))) = bevs (world s)"
  by (simp_all add: lm_ready_def Let_def split_beta bev_law_quiet(1,2) [OF assms])

lemma start_libev_multi_server_listens:
  assumes "tcp_server_init e pton ip port s = (Ret f, u)" and "f \<noteq> -1"
  shows "start_libev_multi_server e pton dispatch ip port s =
    (let (base, v) = lm_ready e f u; (r, v) = dispatch base v
     in (Ret (), extu e (C_close f) (extu e (C_lev (Base_free base)) (log (L_data ''Event looper stopped ret'' [r, errno v] []) v))))"
  using assms by (simp add: start_libev_multi_server_def lm_ready_def Let_def split_beta)

text \<open>
  C29. The single-threaded libevent server owns its connections. When its socket cannot be opened it returns, or
  fails an assertion, without a descriptor more than before. Otherwise, whatever callbacks the event loop runs, in any
  order, its open descriptors are the ones it started with, the listening socket and one for each live
  bufferevent, no two bufferevents share one, and the end or failure of a connection closes exactly that one. When
  the function returns, the listening socket is closed; the connections still alive are not.
\<close>

theorem libev_server_owns_connections:
  fixes s :: "'w cnt_st"
  assumes laws: "fd_law tab e" "bev_law tab bevs e" and init: "bevs (world s) = Map.empty"
    and run: "start_libev_multi_server e pton dispatch ip port s = (r, t)"
  shows "((r = Assert_failed \<or> r = Ret ()) \<and> tab (world t) = tab (world s) \<and> bevs (world t) = Map.empty) \<or>
    (\<exists>f w base u. r = Ret () \<and> tcp_server_init e pton ip port s = (Ret f, w) \<and> lm_ready e f w = (base, u) \<and>
       f \<notin> tab (world s) \<and>
       (\<forall>v. (lm_step e bevs f base)\<^sup>*\<^sup>* u v \<longrightarrow>
          owned tab bevs (insert f (tab (world s))) (world v) \<and>
          (\<forall>be c ev. bevs (world v) be = Some c \<and> ev AND (BEV_EOF OR BEV_ERROR) \<noteq> 0 \<longrightarrow>
             tab (world (be_event_cb e be ev v)) = tab (world v) - {c} \<and> bevs (world (be_event_cb e be ev v)) be = None) \<and>
          (snd (dispatch base u) = v \<longrightarrow> tab (world t) = tab (world s) \<union> ran (bevs (world v)))))"
proof -
  obtain r0 w where ini: "tcp_server_init e pton ip port s = (r0, w)" by fastforce
  have b0: "bevs (world w) = Map.empty" using tcp_server_init_bevs [OF laws(2) ini] init by simp
  consider (failed) "r0 = Assert_failed \<or> r0 = Ret (-1)" "tab (world w) = tab (world s)"
    | (ok) f where "r0 = Ret f" "0 \<le> f" "f \<notin> tab (world s)" "tab (world w) = insert f (tab (world s))"
    using tcp_server_init_no_leak [OF laws(1) ini] by blast
  then show ?thesis
  proof cases
    case failed
    then have "(r = Assert_failed \<or> r = Ret ()) \<and> world t = world w"
      using run ini by (auto simp: start_libev_multi_server_def)
    then show ?thesis using failed(2) b0 by (intro disjI1) simp
  next
    case (ok f)
    let ?B = "insert f (tab (world s))"
    obtain base u where u: "lm_ready e f w = (base, u)" by fastforce
    have "tab (world u) = ?B" "bevs (world u) = Map.empty"
      using lm_ready_frame [OF laws(2), of f w] u ok(4) b0 by simp_all
    then have "owned tab bevs ?B (world u)" by (simp add: owned_def)
    then have own: "owned tab bevs ?B (world v)" if "(lm_step e bevs f base)\<^sup>*\<^sup>* u v" for v
      using lm_runs.good_run [OF that] laws by blast
    have rt: "r = Ret ()" "world t = snd (e (snd (e (world (snd (dispatch base u))) (C_lev (Base_free base)))) (C_close f))"
      using run ini ok(1,2) u start_libev_multi_server_listens [of e pton ip port s f w dispatch] by (auto simp: Let_def split_beta)
    then have "tab (world t) = tab (world (snd (dispatch base u))) - {f}"
      by (simp add: fd_law_tab [OF laws(1)] bev_law_quiet(2) [OF laws(2)])
    then have fin: "tab (world t) = tab (world s) \<union> ran (bevs (world v))"
      if "owned tab bevs ?B (world v)" "snd (dispatch base u) = v" for v using that ok(3) by (auto simp: owned_def)
    have frees: "tab (world (be_event_cb e be ev v)) = tab (world v) - {c}" "bevs (world (be_event_cb e be ev v)) be = None"
      if "bevs (world v) be = Some c \<and> ev AND (BEV_EOF OR BEV_ERROR) \<noteq> 0" for v :: "'w cnt_st" and be c ev
      using be_event_cb_frees [OF laws(2), of ev be v] that by simp_all
    show ?thesis
    proof (rule disjI2, rule exI [of _ f], rule exI [of _ w], rule exI [of _ base], rule exI [of _ u], intro conjI allI impI)
      show "tcp_server_init e pton ip port s = (Ret f, w)" using ini ok(1) by simp
    next
      fix v assume v: "(lm_step e bevs f base)\<^sup>*\<^sup>* u v"
      show "owned tab bevs ?B (world v)" by (rule own [OF v])
      show "tab (world t) = tab (world s) \<union> ran (bevs (world v))" if "snd (dispatch base u) = v"
        by (rule fin [OF own [OF v] that])
    qed (rule rt(1) u ok(3) | erule frees)+
  qed
qed

section \<open>A world with bufferevents\<close>

text \<open>Descriptors and bufferevents are numbered upwards; \<open>bind\<close>, \<open>listen\<close> and libevent succeed.\<close>

definition unused :: "int list \<Rightarrow> int" where
  "unused l = foldr max l 0 + 1"

fun lm_env :: "(fd list \<times> (int \<times> fd) list) env" where
  "lm_env (l, b) C_socket = (ok (unused l), (unused l # l, b))"
| "lm_env (l, b) (C_accept f) = (ok (unused l), (unused l # l, b))"
| "lm_env (l, b) (C_close f) = (ok 0, (removeAll f l, b))"
| "lm_env (l, b) (C_lev (Bev_socket_new base f)) = (ok (unused (map fst b)), (l, (unused (map fst b), f) # b))"
| "lm_env (l, b) (C_lev (Bev_free h)) =
     (ok 0, (case map_of b h of None \<Rightarrow> l | Some f \<Rightarrow> removeAll f l, filter (\<lambda>x. fst x \<noteq> h) b))"
| "lm_env w (C_bind f a p) = (ok 0, w)"
| "lm_env w (C_listen f n) = (ok 0, w)"
| "lm_env w (C_lev k) = (ok 0, w)"
| "lm_env w c = (fail 1, w)"

lemma unused_fresh: "unused l \<notin> set l" "0 < unused l"
proof -
  have "x \<le> foldr max l 0" if "x \<in> set l" for x :: int using that by (induction l) auto
  then show "unused l \<notin> set l" by (fastforce simp: unused_def)
  have "0 \<le> foldr max l 0" by (induction l) auto
  then show "0 < unused l" by (simp add: unused_def)
qed

lemma map_of_unused: "map_of b (unused (map fst b)) = None"
  using unused_fresh(1) [of "map fst b"] by (simp add: map_of_eq_None_iff)

lemma map_of_drop: "map_of (filter (\<lambda>x. fst x \<noteq> h) b) = (map_of b)(h := None)"
  by (induction b) (auto simp: fun_eq_iff)

lemma lm_env_fd_law: "fd_law (\<lambda>w. set (fst w)) lm_env"
  unfolding fd_law_def
proof (intro allI impI)
  fix w :: "fd list \<times> (int \<times> fd) list" and c assume "plain c"
  then show "opened c (fst (lm_env w c)) \<inter> set (fst w) = {} \<and> (\<forall>f \<in> opened c (fst (lm_env w c)). 0 \<le> f) \<and>
      set (fst (snd (lm_env w c))) = set (fst w) - released c \<union> opened c (fst (lm_env w c))"
    using unused_fresh [of "fst w"] by (cases w; cases c) (auto simp: ok_def fail_def)
qed

lemma lm_env_bev_law: "bev_law (\<lambda>w. set (fst w)) (\<lambda>w. map_of (snd w)) lm_env"
proof -
  have "map_of (snd (snd (lm_env w (C_lev k)))) = map_of (snd w) \<and> set (fst (snd (lm_env w (C_lev k)))) = set (fst w)"
    if "\<not> owns_fd k" for w k using that by (cases w; cases k) auto
  moreover have "map_of (snd (snd (lm_env w c))) = map_of (snd w)" if "plain c" for w c
    using that by (cases w; cases c) auto
  moreover have "unused (map fst b) \<noteq> 0" for b :: "(int \<times> fd) list" using unused_fresh(2) [of "map fst b"] by simp
  ultimately show ?thesis
    by (auto simp: bev_law_def Let_def split_beta map_of_unused map_of_drop ok_def split: option.split)
qed

theorem libev_server_owns_connections_witness:
  "\<exists>t (v :: (fd list \<times> (int \<times> fd) list) cnt_st). start_libev_multi_server lm_env (\<lambda>_. None) (\<lambda>b u. (0, accept_cb lm_env 3 b u)) ''127.0.0.1'' 8080
      \<lparr>world = ([0, 1, 2], []), errno = 0, trace = [], out = [], succ_cli_count = 0\<rparr> = (Ret (), t) \<and>
    owned (\<lambda>w. set (fst w)) (\<lambda>w. map_of (snd w)) {3, 0, 1, 2} (world v) \<and> set (fst (world t)) = {0, 1, 2} \<union> ran (map_of (snd (world v)))"
proof -
  let ?s = "\<lparr>world = ([0, 1, 2], []), errno = 0, trace = [], out = [], succ_cli_count = 0\<rparr> :: (fd list \<times> (int \<times> fd) list) cnt_st"
  let ?d = "\<lambda>b (u :: (fd list \<times> (int \<times> fd) list) cnt_st). (0 :: int, accept_cb lm_env 3 b u)"
  let ?r = "start_libev_multi_server lm_env (\<lambda>_. None) ?d ''127.0.0.1'' 8080 ?s"
  have r: "fst ?r = Ret ()" "world (snd ?r) = ([4, 0, 1, 2], [(1, 4)])"
    "fst (tcp_server_init lm_env (\<lambda>_. None) ''127.0.0.1'' 8080 ?s) = Ret 3"
    by (simp_all add: start_libev_multi_server_def tcp_server_init_def accept_cb_def Let_def split_beta unused_def)
  then have run: "?r = (Ret (), snd ?r)" by (simp add: prod_eq_iff)
  have none: "map_of (snd (world ?s)) = Map.empty" by simp
  have ne: "set (fst (world (snd ?r))) \<noteq> set (fst (world ?s))" unfolding r(2) by (simp add: set_eq_iff) presburger
  from libev_server_owns_connections [OF lm_env_fd_law lm_env_bev_law none run] show ?thesis
  proof (elim disjE exE conjE, goal_cases)
    case (3 f w base u)
    have f: "f = 3" using 3(2) r(3) by simp
    let ?v = "snd (?d base u)"
    have "accept_made lm_env 3 base u"
      using unused_fresh(2) by (cases "world u") (simp add: accept_made_def Let_def split_beta less_imp_neq [THEN not_sym])
    then have "(lm_step lm_env (\<lambda>w. map_of (snd w)) f base)\<^sup>*\<^sup>* u ?v" using f by (auto intro: lm_step.on_accept)
    note v = 3(5) [THEN spec, THEN mp, OF this, unfolded f]
    show ?case
      using run v [THEN conjunct1] v [THEN conjunct2, THEN conjunct2, THEN mp, OF refl]
      by (intro exI [of _ "snd ?r"] exI [of _ ?v]) simp
  qed (use ne in simp_all)
qed

end
