(* ===== verification/Client.thy ===== *)
theory Client
  imports Net "HOL-Library.Signed_Division"
begin

unbundle bit_operations_syntax

text \<open>
  The load generator of client/include/libevent_no_block_client.hpp: the callbacks of a connection,
  the function each pool thread runs, and the division of the clients among the threads. The
  completion count is shared by the threads, so its callback is also run interleaved.
\<close>

section \<open>State and callbacks\<close>

text \<open>The globals of the file, and the client counts dispatched to the thread pool.\<close>

record 'w cl_st = "'w proc" +
  total_req_count :: "32 word"
  comp_req_count :: "32 word"
  begin_time_ms :: int
  cl_tasks :: "int list"

text \<open>The port arrives as a \<open>short\<close>.\<close>

definition connect_to_server :: "'w env \<Rightarrow> (string \<Rightarrow> (32 word) option) \<Rightarrow> int \<Rightarrow> string \<Rightarrow> 16 word \<Rightarrow>
  'w cl_st \<Rightarrow> int \<times> 'w cl_st" where
  "connect_to_server e pton bev ip port s =
     (let srv_addr = make_addr pton ip (sint port);
          (a, s) = ext e (C_lev (Bev_connect bev (sin_addr srv_addr) (sin_port srv_addr))) s
      in (ret a, s))"

text \<open>
  The result of \<open>bufferevent_read\<close> goes into a \<open>size_t\<close>: a negative one becomes an index far
  outside the array.
\<close>

definition server_msg_cb :: "'w env \<Rightarrow> bytes \<Rightarrow> int \<Rightarrow> 'w cl_st \<Rightarrow> unit outcome \<times> 'w cl_st" where
  "server_msg_cb e msg bev s =
     (let (a, s) = ext e (C_lev (Bev_read bev (BUF_SIZE - 1))) s;
          len = ret a
      in if \<not> (0 \<le> len \<and> len < int BUF_SIZE) then (Undefined, s)
         else
           let msg = (fill_buf msg (bytes_of (payload a)))[nat len := 0];
               s = s\<lparr>comp_req_count := comp_req_count s + 1\<rparr>;
               (f, s) = ext e (C_lev (Bev_getfd bev)) s;
               s = log (L_data ''comp_req_count, fd received msg'' [sint (comp_req_count s), ret f] (cstr msg)) s
           in if total_req_count s = comp_req_count s then
                let (n, s) = ext e C_now_ms s
                in (Ret (), log (L_data ''All client request complete with cost ms''
                              [sint (total_req_count s), ret n - begin_time_ms s] []) s)
              else (Ret (), s))"

definition writable_cb :: "'w env \<Rightarrow> int \<Rightarrow> 'w cl_st \<Rightarrow> 'w cl_st" where
  "writable_cb e bev s =
     (let (f, s) = ext e (C_lev (Bev_getfd bev)) s in log (L_data ''fd writable'' [ret f] []) s)"

definition EV_EOF :: "16 word" where "EV_EOF = 16"
definition EV_ERROR :: "16 word" where "EV_ERROR = 32"
definition EV_CONNECTED :: "16 word" where "EV_CONNECTED = 128"

text \<open>\<open>"Hello!"\<close>\<close>

definition hello_bytes :: bytes where
  "hello_bytes = [72, 101, 108, 108, 111, 33]"

definition event_cb :: "'w env \<Rightarrow> int \<Rightarrow> 16 word \<Rightarrow> 'w cl_st \<Rightarrow> 'w cl_st" where
  "event_cb e bev event s =
     (let (f, s) = ext e (C_lev (Bev_getfd bev)) s;
          sock_fd = ret f
      in if event AND EV_EOF \<noteq> 0 then
           extu e (C_lev (Bev_free bev)) (log (L_data ''fd disconnect.'' [sock_fd] []) s)
         else if event AND EV_ERROR \<noteq> 0 then
           extu e (C_lev (Bev_free bev)) (log (L_data ''fd error'' [sock_fd, errno s] []) s)
         else if event AND EV_CONNECTED \<noteq> 0 then
           extu e (C_lev (Bev_write bev hello_bytes)) (log (L_data ''fd connected to server.'' [sock_fd] []) s)
         else s)"

section \<open>Starting clients\<close>

text \<open>One turn of the loop of \<open>start_clients_func\<close>.\<close>

definition start_client :: "'w env \<Rightarrow> (string \<Rightarrow> (32 word) option) \<Rightarrow> string \<Rightarrow> 16 word \<Rightarrow> int \<Rightarrow>
  'w cl_st \<Rightarrow> 'w cl_st" where
  "start_client e pton ip port base s =
     (let (b, s) = ext e (C_lev (Bev_socket_new base (-1))) s;
          bev = ret b;
          (r, s) = connect_to_server e pton bev ip port s
      in if r = 0 then
           let (f, s) = ext e (C_lev (Bev_getfd bev)) s;
               sock_fd = ret f;
               s = extu e (C_nonblocking sock_fd) s;
               s = extu e (C_setsockopt sock_fd ''SO_SNDBUF'' 1024) s;
               s = extu e (C_getsockopt sock_fd ''SO_SNDBUF'') s;
               s = extu e (C_lev (Bev_setcb bev ''server_msg_cb'' ''event_cb'')) s
           in extu e (C_lev (Bev_enable bev)) s
         else
           extu e (C_lev (Bev_free bev)) (log (L_data ''Socket try connect failed'' [errno s] []) s))"

text \<open>\<open>dispatch\<close> stands for \<open>event_base_dispatch\<close>.\<close>

definition start_clients_func :: "'w env \<Rightarrow> (string \<Rightarrow> (32 word) option) \<Rightarrow> (int \<Rightarrow> 'w cl_st \<Rightarrow> 'w cl_st) \<Rightarrow>
  string \<Rightarrow> 16 word \<Rightarrow> int \<Rightarrow> 'w cl_st \<Rightarrow> 'w cl_st" where
  "start_clients_func e pton dispatch ip port sub_cli_count s =
     (let (b, s) = ext e (C_lev Base_new) s;
          base = ret b;
          s = (start_client e pton ip port base ^^ nat sub_cli_count) s;
          s = dispatch base s
      in extu e (C_lev (Base_free base)) s)"

text \<open>The loop of \<open>start_multi_client\<close>: the counts given to the remaining \<open>k\<close> threads.\<close>

fun split_clients :: "nat \<Rightarrow> int \<Rightarrow> int \<Rightarrow> int list" where
  "split_clients 0 sub_cli_count res_cli_count = []"
| "split_clients (Suc k) sub_cli_count res_cli_count =
     (if 0 < res_cli_count then (sub_cli_count + 1) # split_clients k sub_cli_count (res_cli_count - 1)
      else sub_cli_count # split_clients k sub_cli_count res_cli_count)"

text \<open>
  C's \<open>/\<close> and \<open>%\<close> truncate towards zero; dividing by zero and \<open>INT_MIN / -1\<close> are
  undefined. \<open>join\<close> stands for running the dispatched tasks and \<open>pool.join()\<close>.
\<close>

definition start_multi_client :: "'w env \<Rightarrow> ('w cl_st \<Rightarrow> 'w cl_st) \<Rightarrow> int \<Rightarrow> int \<Rightarrow> 'w cl_st \<Rightarrow>
  unit outcome \<times> 'w cl_st" where
  "start_multi_client e join client_count thread_count s =
     (let (n, s) = ext e C_now_ms s;
          s = s\<lparr>begin_time_ms := ret n, total_req_count := word_of_int client_count\<rparr>
      in if thread_count = 0 \<or> (client_count = - (2 ^ 31) \<and> thread_count = -1) then (Undefined, s)
         else
           let sub_cli_count = client_count sdiv thread_count;
               res_cli_count = client_count smod thread_count;
               s = s\<lparr>cl_tasks := cl_tasks s @ split_clients (nat thread_count) sub_cli_count res_cli_count\<rparr>
           in (Ret (), join s))"

section \<open>Dividing the clients\<close>

lemma length_split_clients [simp]: "length (split_clients k q r) = k"
  by (induction k q r rule: split_clients.induct) auto

lemma sum_split_clients: "0 \<le> r \<Longrightarrow> r \<le> int k \<Longrightarrow> sum_list (split_clients k q r) = int k * q + r"
  by (induction k q r rule: split_clients.induct) (auto simp: algebra_simps)

lemma set_split_clients: "set (split_clients k q r) \<subseteq> {q, q + 1}"
  by (induction k q r rule: split_clients.induct) auto

lemma split_clients_map:
  "split_clients k q r = map (\<lambda>i. q + (if int i < r then 1 else 0)) [0..<k]"
proof (induction k q r rule: split_clients.induct)
  case (2 k q r)
  have "[0..<Suc k] = 0 # map Suc [0..<k]" by (simp add: map_Suc_upt upt_conv_Cons)
  then show ?case using 2 by auto
qed simp

text \<open>
  C35. The clients are divided completely and evenly: every thread gets one task, thread \<open>i\<close> the
  quotient plus one if \<open>i\<close> is below the remainder; the tasks' counts add up to the number of
  clients, and no two of them differ by more than one. A thread count of zero divides by zero.
\<close>

theorem clients_split_evenly:
  fixes s :: "'w cl_st"
  assumes "0 \<le> client_count" and "0 \<le> thread_count" and "cl_tasks s = []"
  shows "thread_count = 0 \<and> fst (start_multi_client e join client_count thread_count s) = Undefined \<or>
    (\<exists>u cs. start_multi_client e join client_count thread_count s = (Ret (), join u) \<and> cl_tasks u = cs \<and>
       cs = map (\<lambda>i. client_count div thread_count + (if int i < client_count mod thread_count then 1 else 0))
              [0..<nat thread_count] \<and>
       length cs = nat thread_count \<and> sum_list cs = client_count \<and>
       (\<forall>c \<in> set cs. \<forall>d \<in> set cs. \<bar>c - d\<bar> \<le> 1) \<and> total_req_count u = word_of_int client_count)"
proof (cases "thread_count = 0")
  case True
  then show ?thesis by (simp add: start_multi_client_def Let_def split_beta)
next
  case False
  then have pos: "0 < thread_count" using assms(2) by simp
  let ?q = "client_count div thread_count" and ?r = "client_count mod thread_count"
  let ?cs = "split_clients (nat thread_count) ?q ?r"
  let ?u = "(extu e C_now_ms s)\<lparr>begin_time_ms := ret (fst (e (world s) C_now_ms)),
    total_req_count := word_of_int client_count, cl_tasks := ?cs\<rparr>"
  have c: "client_count sdiv thread_count = ?q" "client_count smod thread_count = ?r"
    using assms(1) pos by (simp_all add: signed_divide_int_def signed_modulo_int_def sgn_if)
  have "0 \<le> ?r" "?r \<le> int (nat thread_count)" using pos by (simp_all add: order.strict_implies_order)
  then have "sum_list ?cs = int (nat thread_count) * ?q + ?r" by (rule sum_split_clients)
  then have "sum_list ?cs = client_count" using pos by simp
  moreover have "\<bar>c - d\<bar> \<le> 1" if "c \<in> set ?cs" "d \<in> set ?cs" for c d
  proof -
    have "c = ?q \<or> c = ?q + 1" "d = ?q \<or> d = ?q + 1" using that set_split_clients by blast+
    then show ?thesis by auto
  qed
  moreover have "start_multi_client e join client_count thread_count s = (Ret (), join ?u)"
  proof -
    have "cl_tasks (extu e C_now_ms s) = cl_tasks s" by (simp add: ext_def Let_def)
    then show ?thesis using False pos assms(3) by (simp add: start_multi_client_def Let_def split_beta c)
  qed
  moreover have "cl_tasks ?u = ?cs" "total_req_count ?u = word_of_int client_count" "length ?cs = nat thread_count"
    by simp_all
  moreover note split_clients_map
  ultimately show ?thesis by metis
qed

definition cl0 :: "'w \<Rightarrow> 'w cl_st" where
  "cl0 w = \<lparr>world = w, errno = 0, trace = [], out = [], total_req_count = 0, comp_req_count = 0,
            begin_time_ms = 0, cl_tasks = []\<rparr>"

theorem clients_split_evenly_witness:
  "\<exists>u. start_multi_client script_env (\<lambda>s. s) 10 4 (cl0 (script {} [ok 5])) = (Ret (), u) \<and> sum_list (cl_tasks u) = 10"
proof -
  have "cl_tasks (cl0 (script {} [ok 5])) = []" by (simp add: cl0_def)
  from clients_split_evenly [OF _ _ this, of 10 4 script_env "\<lambda>s. s"] show ?thesis by auto
qed

section \<open>The port\<close>

text \<open>
  The port survives its trip through \<open>short\<close>: for every port a user can type, 0 to 65535, what the
  client puts into the address is that port in network byte order, although \<open>short\<close> cannot hold
  the upper half of them.
\<close>

theorem client_port_roundtrip:
  assumes "0 \<le> p" and "p < 2 ^ 16"
  shows "uint (ntohs (sin_port (make_addr pton ip (sint (word_of_int p :: 16 word))))) = p"
proof -
  have "make_addr pton ip (sint (word_of_int p :: 16 word)) = make_addr pton ip p"
    by (simp add: make_addr_def)
  then show ?thesis using make_addr_port [OF assms] by simp
qed

theorem client_port_roundtrip_witness:
  "uint (ntohs (sin_port (make_addr (\<lambda>_. None) ''::'' (sint (word_of_int 40000 :: 16 word))))) = 40000"
  using client_port_roundtrip [of 40000 "\<lambda>_. None" "''::''"] by simp

section \<open>Completion, seen by many threads\<close>

text \<open>
  Every received answer runs \<open>server_msg_cb\<close> on the thread of its connection. The callbacks meet in
  \<open>comp_req_count\<close>: \<open>Cb_start\<close> is before the increment, \<open>Cb_counted\<close> before the load that is
  logged, \<open>Cb_logged\<close> before the load that is compared with the total. \<open>announced\<close> counts the
  completion lines.
\<close>

datatype cb_pc = Cb_start | Cb_counted | Cb_logged | Cb_done

record cl_sys =
  total :: "32 word"
  comp :: "32 word"
  cbs :: "cb_pc list"
  announced :: nat

inductive cl_step :: "cl_sys \<Rightarrow> cl_sys \<Rightarrow> bool" where
  cb_inc: "i < length (cbs s) \<Longrightarrow> cbs s ! i = Cb_start \<Longrightarrow>
    cl_step s (s\<lparr>comp := comp s + 1, cbs := (cbs s)[i := Cb_counted]\<rparr>)"
| cb_log: "i < length (cbs s) \<Longrightarrow> cbs s ! i = Cb_counted \<Longrightarrow> cl_step s (s\<lparr>cbs := (cbs s)[i := Cb_logged]\<rparr>)"
| cb_test: "i < length (cbs s) \<Longrightarrow> cbs s ! i = Cb_logged \<Longrightarrow>
    cl_step s (s\<lparr>announced := announced s + (if total s = comp s then 1 else 0), cbs := (cbs s)[i := Cb_done]\<rparr>)"

definition cl_init :: "nat \<Rightarrow> cl_sys" where
  "cl_init n = \<lparr>total = of_nat n, comp = 0, cbs = replicate n Cb_start, announced = 0\<rparr>"

definition cl_good :: "nat \<Rightarrow> cl_sys \<Rightarrow> bool" where
  "cl_good n s \<longleftrightarrow> length (cbs s) = n \<and> total s = of_nat n \<and>
     comp s = of_nat (count_if (\<lambda>p. p \<noteq> Cb_start) (cbs s)) \<and>
     announced s \<le> count_if (\<lambda>p. p = Cb_done) (cbs s) \<and>
     (0 < n \<and> (\<forall>i < n. cbs s ! i = Cb_done) \<longrightarrow> 0 < announced s)"

lemma count_if_all: "\<forall>i < length xs. p (xs ! i) \<Longrightarrow> count_if p xs = length xs"
  by (simp add: count_if_def filter_id_conv all_set_conv_all_nth)

lemma cl_good_step: "cl_step s t \<Longrightarrow> cl_good n s \<Longrightarrow> cl_good n t"
proof (induction rule: cl_step.induct)
  case (cb_inc i s)
  then show ?case
    using count_if_update [of i "cbs s" "\<lambda>p. p \<noteq> Cb_start" Cb_counted]
      count_if_update [of i "cbs s" "\<lambda>p. p = Cb_done" Cb_counted]
    by (auto simp: cl_good_def nth_list_update)
next
  case (cb_log i s)
  then show ?case
    using count_if_update [of i "cbs s" "\<lambda>p. p \<noteq> Cb_start" Cb_logged]
      count_if_update [of i "cbs s" "\<lambda>p. p = Cb_done" Cb_logged]
    by (auto simp: cl_good_def nth_list_update)
next
  case (cb_test i s)
  have last: "total s = comp s" if "\<forall>j < n. (cbs s)[i := Cb_done] ! j = Cb_done"
  proof -
    have "\<forall>j < length (cbs s). cbs s ! j \<noteq> Cb_start"
    proof (intro allI impI)
      fix j assume "j < length (cbs s)"
      then show "cbs s ! j \<noteq> Cb_start"
        using that cb_test by (cases "j = i") (auto simp: cl_good_def)
    qed
    then show ?thesis using cb_test(3) by (simp add: cl_good_def count_if_all)
  qed
  show ?case
    using cb_test last count_if_update [of i "cbs s" "\<lambda>p. p \<noteq> Cb_start" Cb_done]
      count_if_update [of i "cbs s" "\<lambda>p. p = Cb_done" Cb_done]
    by (auto simp: cl_good_def)
qed

interpretation cl_runs: step_invariant cl_step "cl_good n" for n
  by unfold_locales (rule cl_good_step)

lemma cl_init_good: "cl_good n (cl_init n)"
proof -
  have "\<not> (\<forall>i < n. (replicate n Cb_start) ! i = Cb_done)" if "0 < n"
    using that by (auto intro!: exI [of _ 0])
  then show ?thesis by (auto simp: cl_good_def cl_init_def)
qed

text \<open>
  C36. The end of a run is never missed: once all the answers have been handled, in whatever
  interleaving of the threads, the completion line has been printed, and at most as often as there
  are answers.
\<close>

theorem completion_announced:
  assumes "cl_step\<^sup>*\<^sup>* (cl_init n) s" and "0 < n" and "\<forall>i < n. cbs s ! i = Cb_done"
  shows "0 < announced s \<and> announced s \<le> n"
proof -
  have good: "cl_good n s" by (rule cl_runs.good_run [OF assms(1) cl_init_good])
  have "count_if (\<lambda>p. p = Cb_done) (cbs s) \<le> length (cbs s)" by (simp add: count_if_def)
  then show ?thesis using good assms(2,3) by (auto simp: cl_good_def)
qed

lemma completion_run:
  "cl_step\<^sup>*\<^sup>* (cl_init 2) \<lparr>total = 2, comp = 2, cbs = [Cb_done, Cb_done], announced = 2\<rparr>"
proof -
  let ?s = "\<lambda>c a b k. \<lparr>total = 2, comp = c, cbs = [a, b], announced = k\<rparr>"
  have init: "cl_init 2 = ?s 0 Cb_start Cb_start 0" by (simp add: cl_init_def numeral_2_eq_2)
  have 1: "cl_step (?s 0 Cb_start Cb_start 0) (?s 1 Cb_counted Cb_start 0)"
    using cl_step.cb_inc [of 0 "?s 0 Cb_start Cb_start 0"] by simp
  have 2: "cl_step (?s 1 Cb_counted Cb_start 0) (?s 2 Cb_counted Cb_counted 0)"
    using cl_step.cb_inc [of 1 "?s 1 Cb_counted Cb_start 0"] by simp
  have 3: "cl_step (?s 2 Cb_counted Cb_counted 0) (?s 2 Cb_logged Cb_counted 0)"
    using cl_step.cb_log [of 0 "?s 2 Cb_counted Cb_counted 0"] by simp
  have 4: "cl_step (?s 2 Cb_logged Cb_counted 0) (?s 2 Cb_logged Cb_logged 0)"
    using cl_step.cb_log [of 1 "?s 2 Cb_logged Cb_counted 0"] by simp
  have 5: "cl_step (?s 2 Cb_logged Cb_logged 0) (?s 2 Cb_done Cb_logged 1)"
    using cl_step.cb_test [of 0 "?s 2 Cb_logged Cb_logged 0"] by simp
  have 6: "cl_step (?s 2 Cb_done Cb_logged 1) (?s 2 Cb_done Cb_done 2)"
    using cl_step.cb_test [of 1 "?s 2 Cb_done Cb_logged 1"] by (simp add: numeral_2_eq_2)
  note step = rtranclp.rtrancl_into_rtrancl [of cl_step]
  show ?thesis
    unfolding init by (rule step [OF step [OF step [OF step [OF step [OF step [OF rtranclp.rtrancl_refl 1] 2] 3] 4] 5] 6])
qed

theorem completion_announced_witness:
  "0 < announced \<lparr>total = 2, comp = 2, cbs = [Cb_done, Cb_done], announced = 2\<rparr> \<and>
   announced \<lparr>total = 2, comp = 2, cbs = [Cb_done, Cb_done], announced = 2\<rparr> \<le> 2"
proof -
  have "\<forall>i < 2. cbs \<lparr>total = 2, comp = 2, cbs = [Cb_done, Cb_done], announced = 2\<rparr> ! i = Cb_done"
    by (simp add: numeral_2_eq_2 less_Suc_eq)
  from completion_announced [OF completion_run _ this] show ?thesis by simp
qed

text \<open>
  C38. But it is not printed exactly once: the increment and the comparison are two accesses, and with
  two answers on two threads both callbacks can see the final count.
\<close>

theorem completion_announced_twice:
  "\<exists>s. cl_step\<^sup>*\<^sup>* (cl_init 2) s \<and> cbs s = [Cb_done, Cb_done] \<and> announced s = 2"
  using completion_run by (intro exI conjI) auto

section \<open>The callback is a run of the machine\<close>

fun is_completion :: "logline \<Rightarrow> bool" where
  "is_completion (L_data t ns bs) \<longleftrightarrow> t = ''All client request complete with cost ms''"
| "is_completion l \<longleftrightarrow> False"

lemma cl_st_frame [simp]:
  fixes s :: "'w cl_st"
  shows "total_req_count (extu e c s) = total_req_count s" "comp_req_count (extu e c s) = comp_req_count s"
    "total_req_count (log l s) = total_req_count s" "comp_req_count (log l s) = comp_req_count s"
  by (simp_all add: ext_def log_def Let_def)

lemma cb_run:
  assumes "i < length (cbs p)" and "cbs p ! i = Cb_start"
  shows "cl_step\<^sup>*\<^sup>* p (p\<lparr>comp := comp p + 1,
    announced := announced p + (if total p = comp p + 1 then 1 else 0), cbs := (cbs p)[i := Cb_done]\<rparr>)"
proof -
  let ?a = "p\<lparr>comp := comp p + 1, cbs := (cbs p)[i := Cb_counted]\<rparr>"
  let ?b = "p\<lparr>comp := comp p + 1, cbs := (cbs p)[i := Cb_logged]\<rparr>"
  have "cl_step p ?a" by (rule cl_step.cb_inc [OF assms])
  moreover have "cl_step ?a ?b" using cl_step.cb_log [of i ?a] assms(1) by simp
  moreover have "cl_step ?b (p\<lparr>comp := comp p + 1,
      announced := announced p + (if total p = comp p + 1 then 1 else 0), cbs := (cbs p)[i := Cb_done]\<rparr>)"
    using cl_step.cb_test [of i ?b] assms(1) by (simp split del: if_split)
  ultimately show ?thesis by (meson converse_rtranclp_into_rtranclp r_into_rtranclp)
qed

text \<open>
  C37. The two models of the answer's callback agree: run on its own, \<open>server_msg_cb\<close> is a run of
  the interleaved machine from the same counters to the same counters, and the machine announces the end
  exactly as often as the code writes the completion line.
\<close>

theorem server_msg_cb_is_machine_run:
  fixes s :: "'w cl_st"
  assumes "server_msg_cb e msg bev s = (Ret (), t)" and "i < length (cbs p)" and "cbs p ! i = Cb_start"
    and "total p = total_req_count s" and "comp p = comp_req_count s"
  shows "\<exists>q l. cl_step\<^sup>*\<^sup>* p q \<and> total q = total_req_count t \<and> comp q = comp_req_count t \<and>
    cbs q = (cbs p)[i := Cb_done] \<and> out t = out s @ l \<and> announced q = announced p + count_if is_completion l"
proof -
  let ?q = "p\<lparr>comp := comp p + 1,
    announced := announced p + (if total p = comp p + 1 then 1 else 0), cbs := (cbs p)[i := Cb_done]\<rparr>"
  have "\<exists>l. total ?q = total_req_count t \<and> comp ?q = comp_req_count t \<and> out t = out s @ l \<and>
      announced ?q = announced p + count_if is_completion l"
    using assms(1,4,5) by (auto simp: server_msg_cb_def Let_def split_beta count_if_def split: if_splits)
  then show ?thesis using cb_run [OF assms(2,3)] by (intro exI [of _ ?q]) auto
qed

theorem server_msg_cb_is_machine_run_witness:
  "\<exists>t q. server_msg_cb script_env [0, 0] 1 ((cl0 (script {} [ok 0, ok 7, ok 9]))\<lparr>total_req_count := 1\<rparr>) = (Ret (), t) \<and>
     cl_step\<^sup>*\<^sup>* (cl_init 1) q \<and> comp q = comp_req_count t \<and> announced q = count_if is_completion (out t)"
proof -
  let ?s = "(cl0 (script {} [ok 0, ok 7, ok 9]))\<lparr>total_req_count := 1\<rparr>"
  define t where "t = snd (server_msg_cb script_env [0, 0] 1 ?s)"
  have "fst (server_msg_cb script_env [0, 0] 1 ?s) = Ret ()"
    by (simp add: server_msg_cb_def Let_def split_beta cl0_def script_def script_step legal_def BUF_SIZE_def)
  then have t: "server_msg_cb script_env [0, 0] 1 ?s = (Ret (), t)" by (simp add: t_def prod_eq_iff)
  have "out ?s = []" by (simp add: cl0_def)
  with server_msg_cb_is_machine_run [OF t, of 0 "cl_init 1"] t show ?thesis by (auto simp: cl_init_def cl0_def)
qed

end
