(* ===== verification/Simple.thy ===== *)
theory Simple
  imports Net
begin

text \<open>
  The three programs that handle a single connection: server/include/simple_tcp_server.hpp,
  server/include/simple_file_down_server.hpp and client/include/simple_tcp_client.hpp.
\<close>

text \<open>\<open>BUFSIZ\<close> of stdio.h.\<close>

definition BUFSIZ :: nat where "BUFSIZ = 8192"

section \<open>The TCP server\<close>

definition set_rcvbuf :: "'w env \<Rightarrow> int \<Rightarrow> fd \<Rightarrow> ('w, 'x) proc_scheme \<Rightarrow> ('w, 'x) proc_scheme" where
  "set_rcvbuf e recv_buf_size srv_fd s =
     (let s = extu e (C_setsockopt srv_fd ''SO_RCVBUF'' recv_buf_size) s;
          (a, s) = ext e (C_getsockopt srv_fd ''SO_RCVBUF'') s;
          recv_buf_size = (if ret a = 0 then int_of (payload a) else recv_buf_size)
      in log (L_data ''The tcp receive buffer size'' [recv_buf_size] []) s)"

text \<open>One turn of the receive loop; \<open>buf\<close> is the local array. It is left by \<open>exit(1)\<close> or by
  \<open>break\<close>.\<close>

definition tcp_recv_body :: "'w env \<Rightarrow> fd \<Rightarrow> bytes \<times> ('w, 'x) proc_scheme \<Rightarrow>
  bytes \<times> ('w, 'x) proc_scheme + unit outcome \<times> ('w, 'x) proc_scheme" where
  "tcp_recv_body e cli_fd st =
     (let (buf, s) = st;
          (a, s) = ext e (C_recv cli_fd (BUFSIZ - 1)) s;
          n = ret a;
          buf = fill_buf buf (bytes_of (payload a))
      in if 0 < n then
           Inl (replicate BUFSIZ 0, log (L_data ''Recv msg'' [n] (cstr buf)) s)
         else if n < 0 then Inr (Exit 1, log (L_recv_failed cli_fd (errno s)) s)
         else Inr (Ret (), extu e (C_close cli_fd) (log (L_text ''Remote disconnect'') s)))"

definition start_simple_tcp_server :: "'w env \<Rightarrow> (string \<Rightarrow> (32 word) option) \<Rightarrow> string \<Rightarrow> int \<Rightarrow> int \<Rightarrow>
  ('w, 'x) proc_scheme \<Rightarrow> (int outcome \<times> ('w, 'x) proc_scheme) option" where
  "start_simple_tcp_server e pton ip port recv_buf_size s =
     (case listen_on e pton (set_rcvbuf e recv_buf_size) ip port s of
        (Ret srv_fd, s) \<Rightarrow>
          (let s = log (L_text ''Server begin listening...'') s;
               (a, s) = ext e (C_accept srv_fd) s;
               cli_fd = ret a
           in if cli_fd < 0 then Some (Ret 1, log (L_accept_failed (errno s)) s)
              else
                let s = log (L_connected cli_fd) s
                in (case loop_until (tcp_recv_body e cli_fd) (replicate BUFSIZ 0, s) of
                      None \<Rightarrow> None
                    | Some r \<Rightarrow>
                        Some (then_do r (\<lambda>_ s.
                          (Ret 0, extu e (C_close srv_fd) (extu e (C_sleep_ms 10000) s))))))
      | (Exit n, s) \<Rightarrow> Some (Exit n, s)
      | (Assert_failed, s) \<Rightarrow> Some (Assert_failed, s)
      | (Undefined, s) \<Rightarrow> Some (Undefined, s))"

section \<open>The file server\<close>

text \<open>
  After its last statement the function, which is declared to return an \<open>int\<close>, ends without a
  \<open>return\<close>: undefined behaviour.
\<close>

definition start_simple_file_down_server :: "'w env \<Rightarrow> (string \<Rightarrow> (32 word) option) \<Rightarrow> string \<Rightarrow> int \<Rightarrow>
  string \<Rightarrow> ('w, 'x) proc_scheme \<Rightarrow> int outcome \<times> ('w, 'x) proc_scheme" where
  "start_simple_file_down_server e pton ip port file_path s =
     then_do (listen_on e pton (\<lambda>_ s. s) ip port s) (\<lambda>srv_fd s.
       let s = log (L_text ''Server begin listening...'') s;
           (a, s) = ext e (C_accept srv_fd) s;
           cli_fd = ret a
       in if cli_fd < 0 then (Ret 1, log (L_accept_failed (errno s)) s)
          else
            let (o1, s) = ext e (C_open file_path ''O_RDONLY'') s;
                file_fd = ret o1
            in then_do (assert_that (0 < file_fd) s) (\<lambda>_ s.
               let (st, s) = ext e (C_fstat file_fd) s;
                   st_size = (if ret st = 0 then int_of (payload st) else 0);
                   (n, s) = ext e (C_sendfile cli_fd file_fd st_size) s;
                   s = log (L_data ''Send file with bytes, send successfully bytes'' [st_size, ret n] []) s;
                   s = extu e (C_close file_fd) s;
                   s = extu e (C_close cli_fd) s;
                   s = extu e (C_close srv_fd) s
               in (Undefined, s)))"

section \<open>The TCP client\<close>

text \<open>When the connection fails the function ends without a \<open>return\<close>, its socket still open.\<close>

definition start_simple_tcp_client :: "'w env \<Rightarrow> (string \<Rightarrow> (32 word) option) \<Rightarrow> string \<Rightarrow> int \<Rightarrow> int \<Rightarrow>
  ('w, 'x) proc_scheme \<Rightarrow> int outcome \<times> ('w, 'x) proc_scheme" where
  "start_simple_tcp_client e pton ip port send_buf_size s =
     (let srv_addr = make_addr pton ip port;
          (a, s) = ext e C_socket s;
          srv_fd = ret a
      in then_do (assert_that (0 \<le> srv_fd) s) (\<lambda>_ s.
         let s = extu e (C_setsockopt srv_fd ''SO_SNDBUF'' send_buf_size) s;
             (b, s) = ext e (C_getsockopt srv_fd ''SO_SNDBUF'') s;
             send_buf_size = (if ret b = 0 then int_of (payload b) else send_buf_size);
             s = log (L_data ''The tcp send buffer size'' [send_buf_size] []) s;
             (c, s) = ext e (C_connect srv_fd (sin_addr srv_addr) (sin_port srv_addr)) s
         in if ret c \<noteq> -1 then
              let (n, s) = ext e (C_send srv_fd (replicate BUFSIZ 97)) s;
                  len = ret n;
                  s = (if 0 < len then log (L_data ''Send successfully with len'' [len] []) s
                       else log (L_data ''Send failed with error number'' [errno s] []) s);
                  s = extu e (C_sleep_ms 10000) s;
                  s = extu e (C_close srv_fd) s
              in (Ret 0, s)
            else (Undefined, s)))"

section \<open>Properties\<close>

interpretation st_reads: recv_loop e "\<lambda>_. f" "BUFSIZ - 1" "\<lambda>(buf, s). world s" "tcp_recv_body e f"
  for e :: "'w env" and f :: fd
  by unfold_locales (auto simp: tcp_recv_body_def Let_def split_beta split: if_splits)

lemma set_rcvbuf_tab:
  assumes "fd_law tab e"
  shows "tab (world (set_rcvbuf e n f s)) = tab (world s)"
  by (simp add: set_rcvbuf_def Let_def split_beta fd_law_frame [OF assms])

lemma tcp_recv_loop_tab:
  fixes st :: "bytes \<times> ('w, 'x) proc_scheme"
  assumes "fd_law tab e" and "loop_until (tcp_recv_body e f) st = Some r"
  shows "(\<exists>t. r = (Exit 1, t)) \<or> (\<exists>t. r = (Ret (), t) \<and> tab (world t) = tab (world (snd st)) - {f})"
proof (rule loop_until_invariant [OF assms(2), where P = "\<lambda>u. tab (world (snd u)) = tab (world (snd st))"])
  fix u :: "bytes \<times> ('w, 'x) proc_scheme"
  assume P: "tab (world (snd u)) = tab (world (snd st))"
  let ?a = "fst (e (world (snd u)) (C_recv f (BUFSIZ - 1)))"
  let ?u = "extu e (C_recv f (BUFSIZ - 1)) (snd u)"
  have tab: "tab (world ?u) = tab (world (snd st))" using P by (simp add: fd_law_tab [OF assms(1)])
  show "tab (world (snd v)) = tab (world (snd st))" if "tcp_recv_body e f u = Inl v" for v
  proof -
    have "0 < ret ?a" using that by (simp add: tcp_recv_body_def Let_def split_beta split: if_splits)
    then have "snd v = log (L_data ''Recv msg'' [ret ?a] (cstr (fill_buf (fst u) (bytes_of (payload ?a))))) ?u"
      using that by (auto simp: tcp_recv_body_def Let_def split_beta)
    then show ?thesis using tab by (simp only: log_fields)
  qed
  show "(\<exists>t. r = (Exit 1, t)) \<or> (\<exists>t. r = (Ret (), t) \<and> tab (world t) = tab (world (snd st)) - {f})"
    if "tcp_recv_body e f u = Inr r" for r
  proof -
    have "(\<exists>t. r = (Exit 1, t)) \<or> r = (Ret (), extu e (C_close f) (log (L_text ''Remote disconnect'') ?u))"
      using that by (auto simp: tcp_recv_body_def Let_def split_beta split: if_splits)
    moreover have "tab (world (extu e (C_close f) (log (L_text ''Remote disconnect'') ?u))) = tab (world (snd st)) - {f}"
      using tab by (simp add: fd_law_tab [OF assms(1)])
    ultimately show ?thesis by blast
  qed
qed simp

text \<open>
  C39. The simple server always comes back when the client's input is finite, and accounts for its
  descriptors: it returns 0 with everything closed, ends the process on an error, or returns 1 after
  a failed \<open>accept\<close>, and then leaves its listening socket open.
\<close>

theorem simple_tcp_server_descriptors:
  fixes s :: "('w, 'x) proc_scheme"
  assumes law: "fd_law tab e" and fin: "recv_finite pend e"
  shows "\<exists>r t. start_simple_tcp_server e pton ip port n s = Some (r, t) \<and>
    (r = Assert_failed \<or> r = Exit 1 \<or> (r = Ret 0 \<and> tab (world t) = tab (world s)) \<or>
     (r = Ret 1 \<and> (\<exists>f. f \<notin> tab (world s) \<and> tab (world t) = insert f (tab (world s)))))"
proof (cases "listen_on e pton (set_rcvbuf e n) ip port s")
  case (Pair r0 u)
  show ?thesis
  proof (cases r0)
    case (Ret f)
    have u: "f \<notin> tab (world s)" "tab (world u) = insert f (tab (world s))"
      using listen_on_Ret [OF law, of pton "set_rcvbuf e n" ip port s f u] Pair Ret set_rcvbuf_tab [OF law] by auto
    let ?v = "extu e (C_accept f) (log (L_text ''Server begin listening...'') u)"
    let ?c = "ret (fst (e (world u) (C_accept f)))"
    show ?thesis
    proof (cases "?c < 0")
      case True
      then have "start_simple_tcp_server e pton ip port n s = Some (Ret 1, log (L_accept_failed (errno ?v)) ?v)"
        using Pair Ret by (simp add: start_simple_tcp_server_def Let_def split_beta)
      moreover have "tab (world ?v) = insert f (tab (world s))" using True u by (simp add: fd_law_tab [OF law])
      ultimately show ?thesis using u(1) by auto
    next
      case False
      let ?w = "log (L_connected ?c) ?v"
      obtain r where r: "loop_until (tcp_recv_body e ?c) (replicate BUFSIZ 0, ?w) = Some r"
        using st_reads.terminates [OF fin] by blast
      have run: "start_simple_tcp_server e pton ip port n s =
          Some (then_do r (\<lambda>_ s. (Ret 0, extu e (C_close f) (extu e (C_sleep_ms 10000) s))))"
        using Pair Ret False r by (simp add: start_simple_tcp_server_def Let_def split_beta)
      have "?c \<in> opened (C_accept f) (fst (e (world u) (C_accept f)))" using False by simp
      then have fresh: "?c \<notin> tab (world u)" using fd_law_fresh [OF law] by blast
      have w: "tab (world ?w) = insert ?c (insert f (tab (world s)))"
        using False u by (simp add: fd_law_tab [OF law])
      from tcp_recv_loop_tab [OF law r] show ?thesis
      proof (elim disjE exE conjE)
        fix t assume t: "r = (Ret (), t)" "tab (world t) = tab (world (snd (replicate BUFSIZ 0, ?w))) - {?c}"
        then have "tab (world t) = insert f (tab (world s))" using w fresh u by auto
        then have "tab (world (extu e (C_close f) (extu e (C_sleep_ms 10000) t))) = tab (world s)"
          using u(1) by (simp add: fd_law_tab [OF law])
        then show ?thesis using run t(1) by auto
      qed (use run in auto)
    qed
  qed (use Pair listen_on_not_Exit [of e pton "set_rcvbuf e n" ip port s] in
        \<open>auto simp: start_simple_tcp_server_def\<close>)
qed

theorem simple_tcp_server_descriptors_witness:
  "\<exists>r t. start_simple_tcp_server script_env (\<lambda>_. None) ''127.0.0.1'' 8080 1152
      (proc0 (script {0, 1, 2} [ok 3, ok 0, ok 0, ok 0, ok 0, ok 0, ok 4, ok 0, ok 0, ok 0, ok 0])) = Some (r, t) \<and>
    (r = Assert_failed \<or> r = Exit 1 \<or> (r = Ret 0 \<and> s_open (world t) = {0, 1, 2}) \<or>
     (r = Ret 1 \<and> (\<exists>f. f \<notin> {0, 1, 2} \<and> s_open (world t) = insert f {0, 1, 2})))"
  using simple_tcp_server_descriptors [OF script_fd_law script_recv_finite, of "\<lambda>_. None" "''127.0.0.1''" 8080 1152
      "proc0 (script {0, 1, 2} [ok 3, ok 0, ok 0, ok 0, ok 0, ok 0, ok 4, ok 0, ok 0, ok 0, ok 0])"]
  by (simp add: proc0_def script_def)

text \<open>
  C40. The file server closes everything it opened once it has sent the file, and then runs off the end
  of a function that should return a status: every execution that serves a client ends in
  undefined behaviour.
\<close>

theorem file_server_missing_return:
  fixes s :: "('w, 'x) proc_scheme"
  assumes law: "fd_law tab e" and run: "start_simple_file_down_server e pton ip port path s = (r, t)"
  shows "r = Assert_failed \<or> r = Ret 1 \<or> (r = Undefined \<and> tab (world t) = tab (world s))"
proof (cases "listen_on e pton (\<lambda>_ s. s) ip port s")
  case (Pair r0 u)
  show ?thesis
  proof (cases r0)
    case (Ret f)
    have u: "f \<notin> tab (world s)" "tab (world u) = insert f (tab (world s))"
      using listen_on_Ret [OF law, of pton "\<lambda>_ s. s" ip port s f u] Pair Ret by auto
    let ?v = "extu e (C_accept f) (log (L_text ''Server begin listening...'') u)"
    let ?c = "ret (fst (e (world u) (C_accept f)))"
    let ?w = "extu e (C_open path ''O_RDONLY'') ?v"
    let ?o = "ret (fst (e (world ?v) (C_open path ''O_RDONLY'')))"
    show ?thesis
    proof (cases "0 \<le> ?c \<and> 0 < ?o")
      case False
      then consider "?c < 0" | "0 \<le> ?c" "\<not> 0 < ?o" by linarith
      then show ?thesis
        by cases (use run Pair Ret in \<open>auto simp: start_simple_file_down_server_def Let_def split_beta assert_that_def\<close>)
    next
      case True
      then have c: "0 \<le> ?c" "0 < ?o" by simp_all
      have "?c \<in> opened (C_accept f) (fst (e (world u) (C_accept f)))"
        "?o \<in> opened (C_open path ''O_RDONLY'') (fst (e (world ?v) (C_open path ''O_RDONLY'')))"
        using c by simp_all
      then have fresh: "?c \<notin> tab (world u)" "?o \<notin> tab (world ?v)" using fd_law_fresh [OF law] by blast+
      have w: "tab (world ?v) = insert ?c (tab (world u))" "tab (world ?w) = insert ?o (tab (world ?v))"
        using c by (simp_all add: fd_law_tab [OF law])
      obtain x y l where rt: "r = Undefined" "t = extu e (C_close f) (extu e (C_close ?c) (extu e (C_close ?o)
          (log l (extu e (C_sendfile ?c ?o y) (extu e (C_fstat ?o) ?w)))))"
        using run Pair Ret c by (auto simp: start_simple_file_down_server_def Let_def split_beta assert_that_def)
      have "tab (world t) = tab (world ?w) - {?o} - {?c} - {f}"
        unfolding rt(2) by (simp add: fd_law_tab [OF law])
      also have "\<dots> = tab (world s)" using w fresh u by auto
      finally show ?thesis using rt(1) by simp
    qed
  qed (use run Pair listen_on_not_Exit [of e pton "\<lambda>_ s. s" ip port s] in
        \<open>auto simp: start_simple_file_down_server_def\<close>)
qed

theorem file_server_missing_return_witness:
  "\<exists>t. start_simple_file_down_server script_env (\<lambda>_. None) ''127.0.0.1'' 8080 ''f''
      (proc0 (script {0, 1, 2} [ok 3, ok 0, ok 0, ok 0, ok 4, ok 5, ok_with 0 (P_int 10), ok 10, ok 0, ok 0, ok 0])) =
      (Undefined, t) \<and> s_open (world t) = {0, 1, 2}"
proof -
  let ?s = "proc0 (script {0, 1, 2} [ok 3, ok 0, ok 0, ok 0, ok 4, ok 5, ok_with 0 (P_int 10), ok 10, ok 0, ok 0, ok 0])"
  let ?r = "start_simple_file_down_server script_env (\<lambda>_. None) ''127.0.0.1'' 8080 ''f'' ?s"
  have r: "fst ?r = Undefined"
    by (simp add: start_simple_file_down_server_def listen_on_def Let_def split_beta assert_that_def proc0_def
        script_def script_step legal_def)
  then have "?r = (Undefined, snd ?r)" by (simp add: prod_eq_iff)
  from this file_server_missing_return [OF script_fd_law this] show ?thesis by (auto simp: proc0_def script_def)
qed

text \<open>
  The simple client closes its socket after a successful connection; when it cannot connect it
  ends without a \<open>return\<close> and leaves the socket open.
\<close>

theorem simple_client_connect_failure:
  assumes law: "fd_law tab e" and run: "start_simple_tcp_client e pton ip port n s = (r, t)"
  shows "r = Assert_failed \<or> (r = Ret 0 \<and> tab (world t) = tab (world s)) \<or>
    (r = Undefined \<and> (\<exists>f. f \<notin> tab (world s) \<and> tab (world t) = insert f (tab (world s))))"
proof (cases "0 \<le> ret (fst (e (world s) C_socket))")
  case False
  then show ?thesis using run by (auto simp: start_simple_tcp_client_def Let_def split_beta assert_that_def)
next
  case True
  let ?f = "ret (fst (e (world s) C_socket))"
  let ?a = "make_addr pton ip port"
  have "?f \<in> opened C_socket (fst (e (world s) C_socket))" using True by simp
  then have fresh: "?f \<notin> tab (world s)" using fd_law_fresh [OF law] by blast
  obtain l where u: "r = Undefined \<and> t = extu e (C_connect ?f (sin_addr ?a) (sin_port ?a)) (log l
      (extu e (C_getsockopt ?f ''SO_SNDBUF'') (extu e (C_setsockopt ?f ''SO_SNDBUF'' n) (extu e C_socket s)))) \<or>
    r = Ret 0 \<and> (\<exists>m. t = extu e (C_close ?f) (extu e (C_sleep_ms 10000) (log m (extu e (C_send ?f (replicate BUFSIZ 97))
      (extu e (C_connect ?f (sin_addr ?a) (sin_port ?a)) (log l
      (extu e (C_getsockopt ?f ''SO_SNDBUF'') (extu e (C_setsockopt ?f ''SO_SNDBUF'' n) (extu e C_socket s)))))))))"
    using run True unfolding start_simple_tcp_client_def Let_def split_beta assert_that_def
    by (simp add: split_beta split: if_splits) blast+
  have tab: "tab (world (extu e C_socket s)) = insert ?f (tab (world s))" using True by (simp add: fd_law_tab [OF law])
  from u show ?thesis using tab fresh by (elim disjE conjE exE) (simp_all add: fd_law_tab [OF law], blast)
qed

theorem simple_client_connect_failure_witness:
  "\<exists>t f. start_simple_tcp_client script_env (\<lambda>_. None) ''127.0.0.1'' 8080 2304
      (proc0 (script {0, 1, 2} [ok 3, ok 0, ok_with 0 (P_int 4608), fail 111])) = (Undefined, t) \<and>
    f \<notin> {0, 1, 2} \<and> s_open (world t) = {0, 1, 2, f}"
proof -
  let ?s = "proc0 (script {0, 1, 2} [ok 3, ok 0, ok_with 0 (P_int 4608), fail 111])"
  let ?r = "start_simple_tcp_client script_env (\<lambda>_. None) ''127.0.0.1'' 8080 2304 ?s"
  have "fst ?r = Undefined"
    by (simp add: start_simple_tcp_client_def Let_def split_beta assert_that_def proc0_def
        script_def script_step legal_def)
  then have r: "?r = (Undefined, snd ?r)" by (simp add: prod_eq_iff)
  moreover have "s_open (world ?s) = {0, 1, 2}" by (simp add: proc0_def script_def)
  ultimately show ?thesis using simple_client_connect_failure [OF script_fd_law r] by auto
qed

end
