(* ===== verification/Startup.thy ===== *)
theory Startup
  imports MultiConnEpoll ProcPool ThreadPoolSys LibevMulti Client
begin

unbundle bit_operations_syntax

text \<open>
  How the programs start: the two \<open>main\<close> functions (server/main.cpp, client/main.cpp),
  \<open>start_multi_con_server\<close>, \<open>start_process_pool_server\<close>, turning a process into a daemon
  and the number of a thread (server/include/tools.hpp).
\<close>

section \<open>Numbers on the command line\<close>

definition is_space :: "char \<Rightarrow> bool" where
  "is_space c \<longleftrightarrow> of_char c \<in> {9, 10, 11, 12, 13, 32 :: nat}"

definition is_digit :: "char \<Rightarrow> bool" where
  "is_digit c \<longleftrightarrow> 48 \<le> (of_char c :: nat) \<and> (of_char c :: nat) \<le> 57"

definition digits_value :: "string \<Rightarrow> int" where
  "digits_value ds = foldl (\<lambda>n c. 10 * n + (of_char c - 48)) 0 ds"

text \<open>
  \<open>atoi\<close>: leading white space, an optional sign, digits; \<open>None\<close> when the value is no \<open>int\<close>,
  which C leaves undefined.
\<close>

definition atoi :: "string \<Rightarrow> int option" where
  "atoi str =
     (let str = dropWhile is_space str;
          neg = (str \<noteq> [] \<and> hd str = CHR ''-'');
          str = (if str \<noteq> [] \<and> (hd str = CHR ''-'' \<or> hd str = CHR ''+'') then tl str else str);
          n = digits_value (takeWhile is_digit str);
          n = (if neg then - n else n)
      in if - (2 ^ 31) \<le> n \<and> n < 2 ^ 31 then Some n else None)"

section \<open>The server's main\<close>

text \<open>
  Both programs set the limit on open descriptors, an \<open>unsigned long\<close> read with \<open>atoi\<close>, and print what
  they got. A failed \<open>getrlimit\<close> leaves the structure as it was.
\<close>

definition raise_fd_limit :: "'w env \<Rightarrow> int \<Rightarrow> ('w, 'x) proc_scheme \<Rightarrow> ('w, 'x) proc_scheme" where
  "raise_fd_limit e max_open_fd s =
     (let limit = uint (word_of_int max_open_fd :: 64 word);
          s = extu e (C_setrlimit limit) s;
          (a, s) = ext e C_getrlimit s;
          (soft, hard) = (if ret a = 0 then pair_of (payload a) else (limit, limit))
      in log (L_data ''FD limit, soft, hard'' [soft, hard] []) s)"

text \<open>
  \<open>hw\<close> is \<open>std::thread::hardware_concurrency()\<close>. \<open>main_loop\<close> and \<open>join\<close> are those of
  \<open>start_libev_adv_server\<close>.
\<close>

definition server_main :: "'w env \<Rightarrow> (string \<Rightarrow> (32 word) option) \<Rightarrow> int \<Rightarrow>
  (int \<Rightarrow> 'w tp_st \<Rightarrow> int \<times> 'w tp_st) \<Rightarrow> ('w tp_st \<Rightarrow> 'w tp_st) \<Rightarrow> string list \<Rightarrow> 'w tp_st \<Rightarrow>
  int outcome \<times> 'w tp_st" where
  "server_main e pton hw main_loop join argv s =
     (if length argv < 3 then (Ret 1, log (L_text ''Used as: server [ip] [port] [max open fd] [thread count of pool]'') s)
      else
        case (atoi (argv ! 2), if 4 \<le> length argv then atoi (argv ! 3) else Some 4096,
              if 5 \<le> length argv then atoi (argv ! 4) else Some hw) of
          (Some p, Some max_open_fd, Some concur) \<Rightarrow>
            (let ip = argv ! 1;
                 port = sint (word_of_int p :: 16 word);
                 s = raise_fd_limit e max_open_fd s
             in then_do (start_libev_adv_server e pton main_loop join ip port concur s) (\<lambda>_ s. (Ret 0, s)))
        | _ \<Rightarrow> (Undefined, s))"

section \<open>The client's main\<close>

definition client_main :: "'w env \<Rightarrow> int \<Rightarrow> (string \<Rightarrow> 16 word \<Rightarrow> 'w cl_st \<Rightarrow> 'w cl_st) \<Rightarrow> string list \<Rightarrow> 'w cl_st \<Rightarrow>
  int outcome \<times> 'w cl_st" where
  "client_main e hw run_tasks argv s =
     (if length argv < 3 then
        (Ret 1, log (L_text ''Used as: client [ip] [port] [max open fd count] [request count] [thread count of pool]'') s)
      else
        case (atoi (argv ! 2), if 4 \<le> length argv then atoi (argv ! 3) else Some 4096,
              if 5 \<le> length argv then atoi (argv ! 4) else Some 1000,
              if 6 \<le> length argv then atoi (argv ! 5) else Some hw) of
          (Some p, Some max_open_fd, Some req_count, Some concur) \<Rightarrow>
            (let ip = argv ! 1;
                 port = word_of_int p;
                 s = raise_fd_limit e max_open_fd s
             in then_do (start_multi_client e (run_tasks ip port) req_count concur s) (\<lambda>_ s. (Ret 0, s)))
        | _ \<Rightarrow> (Undefined, s))"

section \<open>The multi-connection server\<close>

text \<open>
  The signal pipe and the five signals, then the listening socket. A failed \<open>socketpair\<close> is not
  noticed and leaves the static pipe at its initial zeros.
\<close>

definition multi_con_setup :: "'w env \<Rightarrow> (string \<Rightarrow> (32 word) option) \<Rightarrow> string \<Rightarrow> int \<Rightarrow> 'w proc \<Rightarrow>
  (fd \<times> fd \<times> fd) outcome \<times> 'w proc" where
  "multi_con_setup e pton ip port s =
     (let (a, s) = ext e C_socketpair s;
          (p0, p1) = (if ret a = 0 then pair_of (payload a) else (0, 0));
          s = set_no_blocking e p0 s;
          s = set_no_blocking e p1 s
      in then_do (add_sig e SIGTERM s) (\<lambda>_ s.
         then_do (add_sig e SIGINT s) (\<lambda>_ s.
         then_do (add_sig e SIGPIPE s) (\<lambda>_ s.
         then_do (add_sig e SIGURG s) (\<lambda>_ s.
         then_do (add_sig e SIGALRM s) (\<lambda>_ s.
         then_do (listen_on e pton (\<lambda>_ s. s) ip port s) (\<lambda>srv_fd s.
           (Ret (srv_fd, p0, p1), log (L_text ''Server begin listening...'') s))))))))"

text \<open>
  The state of whichever server was chosen; the epoll server is followed up to the start of its
  loop, from which \<open>ep_step\<close> takes over.
\<close>

datatype 'w multi_con =
    Setup_failed "'w proc"
  | Selecting "'w select_srv"
  | Polling "'w poll_srv"
  | Epolling "'w ep_srv"

definition ep_start :: "fd \<times> fd \<Rightarrow> 'w proc \<Rightarrow> 'w ep_srv" where
  "ep_start p s = proc.extend s \<lparr>running = True, sig_pipe_fd = p, epfd = -1, ep_fds = {||}, pool = []\<rparr>"

definition start_multi_con_server :: "'w env \<Rightarrow> (string \<Rightarrow> (32 word) option) \<Rightarrow> pollfd list \<Rightarrow> string \<Rightarrow> int \<Rightarrow>
  MultiplexType \<Rightarrow> nat \<Rightarrow> 'w proc \<Rightarrow> unit outcome \<times> 'w multi_con" where
  "start_multi_con_server e pton junk ip port multiplex_type k s =
     (case multi_con_setup e pton ip port s of
        (Ret (srv_fd, p), s) \<Rightarrow>
          (case multiplex_type of
             MT_SELECT \<Rightarrow> map_prod id Selecting (serv_select e srv_fd k s)
           | MT_POLL \<Rightarrow> map_prod id Polling (serv_poll e junk srv_fd k s)
           | MT_EPOLL \<Rightarrow> (Ret (), Epolling (epoll_init e srv_fd (ep_start p s))))
      | (Exit n, s) \<Rightarrow> (Exit n, Setup_failed s)
      | (Assert_failed, s) \<Rightarrow> (Assert_failed, Setup_failed s)
      | (Undefined, s) \<Rightarrow> (Undefined, Setup_failed s))"

section \<open>The process pool server\<close>

text \<open>The flag is True while the pool's loop is still running after \<open>k\<close> rounds.\<close>

definition start_process_pool_server :: "'w env \<Rightarrow> (string \<Rightarrow> (32 word) option) \<Rightarrow> string \<Rightarrow> int \<Rightarrow> int \<Rightarrow>
  nat \<Rightarrow> 'w pool_st \<Rightarrow> (bool outcome \<times> 'w pool_st) option" where
  "start_process_pool_server e pton ip port concur k s =
     (case listen_on e pton (\<lambda>_ s. s) ip port s of
        (Ret srv_fd, s) \<Rightarrow>
          (case pool_run e k (new_pool srv_fd concur s) of
             Some (Ret False, s) \<Rightarrow> Some (Ret False, extu e (C_close srv_fd) s)
           | r \<Rightarrow> r)
      | (Exit n, s) \<Rightarrow> Some (Exit n, s)
      | (Assert_failed, s) \<Rightarrow> Some (Assert_failed, s)
      | (Undefined, s) \<Rightarrow> Some (Undefined, s))"

section \<open>Daemons\<close>

text \<open>The three \<open>open\<close> calls are arguments of \<open>assert\<close>.\<close>

definition redirect_std :: "'w env \<Rightarrow> ('w, 'x) proc_scheme \<Rightarrow> bool outcome \<times> ('w, 'x) proc_scheme" where
  "redirect_std e s =
     (let s = extu e (C_close 2) (extu e (C_close 1) (extu e (C_close 0) s));
          (f0, s) = ext e (C_open ''/dev/null'' ''O_RDONLY'') s
      in then_do (assert_that (ret f0 = 0) s) (\<lambda>_ s.
         let (f1, s) = ext e (C_open ''/dev/null'' ''O_RDWR'') s
         in then_do (assert_that (ret f1 = 1) s) (\<lambda>_ s.
            let (f2, s) = ext e (C_open ''/dev/null'' ''O_RDWR'') s
            in then_do (assert_that (ret f2 = 2) s) (\<lambda>_ s. (Ret True, s)))))"

definition daemonize :: "'w env \<Rightarrow> bool \<Rightarrow> bool \<Rightarrow> ('w, 'x) proc_scheme \<Rightarrow> bool outcome \<times> ('w, 'x) proc_scheme" where
  "daemonize e no_change no_close s =
     (let s = log (L_text ''Before daemonize'') s;
          (a, s) = ext e C_fork s;
          pid = ret a
      in if pid < 0 then (Ret False, s)
         else if 0 < pid then (Exit 0, s)
         else
           let s = extu e (C_umask 0) s;
               (b, s) = ext e C_setsid s
           in if ret b < 0 then (Ret False, s)
              else
                let (failed, s) = (if no_change then (False, s)
                                   else let (c, s) = ext e (C_chdir ''/'') s in (ret c < 0, s))
                in if failed then (Ret False, s)
                   else
                     let s = log (L_text ''After daemonize'') s
                     in if no_close then (Ret True, s) else redirect_std e s)"

section \<open>Thread numbers\<close>

text \<open>
  \<open>get_thread_id\<close> copies the first eight bytes of a \<open>std::thread::id\<close> (the argument: its bytes in
  memory) into an \<open>unsigned long\<close>, on a little-endian host.
\<close>

definition get_thread_id :: "bytes \<Rightarrow> (64 word) outcome" where
  "get_thread_id thread_id =
     (if length thread_id < 8 then Undefined else Ret (word_rcat (rev (take 8 thread_id))))"

lemma le_bytes_bound: "horner_sum uint 256 (bs :: bytes) < 256 ^ length bs"
proof (induction bs)
  case (Cons b bs)
  have "uint b < 256" using uint_lt2p [of b] by simp
  with Cons show ?case by simp
qed simp

lemma le_bytes_pos: "0 \<le> horner_sum uint 256 (bs :: bytes)"
  by (induction bs) simp_all

lemma low_byte_unique:
  fixes x y m n :: int
  assumes "0 \<le> x" "x < 256" "0 \<le> y" "y < 256" and eq: "x + 256 * m = y + 256 * n"
  shows "x = y \<and> m = n"
proof -
  have "x = (x + 256 * m) mod 256" "y = (y + 256 * n) mod 256" using assms(1-4) by simp_all
  then show ?thesis using eq by simp
qed

lemma le_bytes_inj:
  "length as = length bs \<Longrightarrow> horner_sum uint 256 as = horner_sum uint 256 (bs :: bytes) \<Longrightarrow> as = bs"
proof (induction as bs rule: list_induct2)
  case (Cons a as b bs)
  have "uint a < 256" "uint b < 256" "0 \<le> uint a" "0 \<le> uint b"
    using uint_lt2p [of a] uint_lt2p [of b] by simp_all
  moreover from Cons.prems have
    "uint a + 256 * horner_sum uint 256 as = uint b + 256 * horner_sum uint 256 bs" by simp
  ultimately have "uint a = uint b \<and> horner_sum uint 256 as = horner_sum uint 256 bs" by (intro low_byte_unique)
  then show ?case using Cons.IH by (simp add: word_uint_eq_iff)
qed simp

text \<open>Different threads get different numbers, as long as an identifier has eight bytes.\<close>

lemma get_thread_id_inj:
  assumes "length a = 8" and "length b = 8" and "get_thread_id a = get_thread_id b"
  shows "a = b"
proof -
  have val: "uint (word_rcat (rev l) :: 64 word) = horner_sum uint 256 l" if "length l = 8" for l :: bytes
    using le_bytes_bound [of l] that
    by (simp add: word_rcat_def uint_word_of_int le_bytes_pos)
  have "word_rcat (rev a) = (word_rcat (rev b) :: 64 word)" using assms by (simp add: get_thread_id_def)
  then show ?thesis using assms(1,2) val le_bytes_inj by metis
qed

section \<open>A daemon's standard streams\<close>

text \<open>
  Two documented facts about \<open>open\<close>: a successful call returns the lowest number that is not
  in use, and \<open>/dev/null\<close> can be opened.
\<close>

definition lowest_fd :: "('w \<Rightarrow> fd set) \<Rightarrow> 'w env \<Rightarrow> bool" where
  "lowest_fd tab e \<longleftrightarrow>
     (\<forall>w p m g. 0 \<le> g \<and> g < ret (fst (e w (C_open p m))) \<longrightarrow> g \<in> tab w)"

definition has_devnull :: "'w env \<Rightarrow> bool" where
  "has_devnull e \<longleftrightarrow> (\<forall>w m. 0 \<le> ret (fst (e w (C_open ''/dev/null'' m))))"

lemma open_devnull:
  assumes "fd_law tab e" and "lowest_fd tab e" and "has_devnull e"
    and "k \<notin> tab w" and "0 \<le> k" and "\<And>g. 0 \<le> g \<Longrightarrow> g < k \<Longrightarrow> g \<in> tab w"
  shows "ret (fst (e w (C_open ''/dev/null'' m))) = k"
proof -
  let ?f = "ret (fst (e w (C_open ''/dev/null'' m)))"
  have f: "0 \<le> ?f" using assms(3) by (simp add: has_devnull_def)
  then have "?f \<in> opened (C_open ''/dev/null'' m) (fst (e w (C_open ''/dev/null'' m)))" by simp
  then have "?f \<notin> tab w" using fd_law_fresh [OF assms(1)] by blast
  then have "\<not> ?f < k" using assms(6) f by blast
  moreover have "\<not> k < ?f" using assms(2,4,5) unfolding lowest_fd_def by blast
  ultimately show ?thesis by simp
qed

lemma redirect_std_ok:
  fixes s :: "('w, 'x) proc_scheme"
  assumes laws: "fd_law tab e" "lowest_fd tab e" "has_devnull e"
  shows "\<exists>t. redirect_std e s = (Ret True, t) \<and> tab (world t) = tab (world s) \<union> {0, 1, 2}"
proof -
  let ?s0 = "extu e (C_close 2) (extu e (C_close 1) (extu e (C_close 0) s))"
  let ?s1 = "extu e (C_open ''/dev/null'' ''O_RDONLY'') ?s0"
  let ?s2 = "extu e (C_open ''/dev/null'' ''O_RDWR'') ?s1"
  let ?s3 = "extu e (C_open ''/dev/null'' ''O_RDWR'') ?s2"
  note tab_simps = fd_law_tab [OF laws(1)]
  have "tab (world ?s0) = tab (world s) - {0} - {1} - {2}" by (simp add: tab_simps)
  then have t0: "tab (world ?s0) = tab (world s) - {0, 1, 2}" by auto
  have f0: "ret (fst (e (world ?s0) (C_open ''/dev/null'' ''O_RDONLY''))) = 0"
    by (rule open_devnull [OF laws]) (use t0 in auto)
  then have t1: "tab (world ?s1) = tab (world s) - {1, 2} \<union> {0}"
    using t0 tab_simps [of "C_open ''/dev/null'' ''O_RDONLY''" "world ?s0"] by auto
  have f1: "ret (fst (e (world ?s1) (C_open ''/dev/null'' ''O_RDWR''))) = 1"
    by (rule open_devnull [OF laws]) (use t1 in auto)
  then have t2: "tab (world ?s2) = tab (world s) - {2} \<union> {0, 1}"
    using t1 tab_simps [of "C_open ''/dev/null'' ''O_RDWR''" "world ?s1"] by auto
  have f2: "ret (fst (e (world ?s2) (C_open ''/dev/null'' ''O_RDWR''))) = 2"
  proof (rule open_devnull [OF laws])
    show "g \<in> tab (world ?s2)" if "0 \<le> g" "g < 2" for g
    proof -
      have "g = 0 \<or> g = 1" using that by auto
      then show ?thesis using t2 by auto
    qed
  qed (use t2 in auto)
  then have "tab (world ?s3) = tab (world s) \<union> {0, 1, 2}"
    using t2 tab_simps [of "C_open ''/dev/null'' ''O_RDWR''" "world ?s2"] by auto
  moreover have "redirect_std e s = (Ret True, ?s3)"
    unfolding redirect_std_def Let_def split_beta
    by (simp only: fst_ext f0 f1 f2 assert_that_def if_True refl then_do.simps)
  ultimately show ?thesis by blast
qed

lemma early_ends:
  "(r, t) = (if a then (Ret False, s1) else if b then (Exit 0, s1) else if c then (Ret False, s2)
     else if d then (Ret False, s3) else x) \<Longrightarrow>
   (r = Exit 0 \<and> b) \<or> (r = Ret False \<and> (t = s1 \<or> t = s2 \<or> t = s3)) \<or> (r, t) = x"
  by (simp split: if_splits)

text \<open>
  C33. Becoming a daemon: the caller's process exits, and the child that goes on either reports a
  failure with its descriptors as they were, or ends up with descriptors 0, 1 and 2 open on
  /dev/null (unless \<open>no_close\<close>) and every other descriptor kept. None of the assertions about the
  numbers \<open>open\<close> returns fails, even when some of the three were closed before.
\<close>

theorem daemonize_redirects:
  fixes s :: "('w, 'x) proc_scheme"
  assumes "fd_law tab e" and "lowest_fd tab e" and "has_devnull e"
    and run: "daemonize e no_change no_close s = (r, t)"
  shows "(r = Exit 0 \<and> 0 < ret (fst (e (world s) C_fork))) \<or>
    (r = Ret False \<and> tab (world t) = tab (world s)) \<or>
    (r = Ret True \<and> tab (world t) = tab (world s) \<union> (if no_close then {} else {0, 1, 2}))"
proof -
  let ?s1 = "extu e C_fork (log (L_text ''Before daemonize'') s)"
  let ?s2 = "extu e C_setsid (extu e (C_umask 0) ?s1)"
  let ?s3 = "if no_change then ?s2 else extu e (C_chdir ''/'') ?s2"
  let ?s4 = "log (L_text ''After daemonize'') ?s3"
  have tab: "tab (world ?s1) = tab (world s)" "tab (world ?s2) = tab (world s)" "tab (world ?s3) = tab (world s)"
    by (simp_all add: fd_law_tab [OF assms(1)])
  consider "r = Exit 0" "0 < ret (fst (e (world s) C_fork))"
    | "r = Ret False" "t = ?s1 \<or> t = ?s2 \<or> t = ?s3" | "(r, t) = (if no_close then (Ret True, ?s4) else redirect_std e ?s4)"
  proof -
    let ?p = "ret (fst (e (world s) C_fork))" and ?d = "ret (fst (ext e C_setsid (extu e (C_umask 0) ?s1)))"
      and ?c = "ret (fst (ext e (C_chdir ''/'') ?s2))"
    have "(r, t) = (if ?p < 0 then (Ret False, ?s1) else if 0 < ?p then (Exit 0, ?s1)
        else if ?d < 0 then (Ret False, ?s2) else if \<not> no_change \<and> ?c < 0 then (Ret False, ?s3)
        else if no_close then (Ret True, ?s4) else redirect_std e ?s4)"
      unfolding run [symmetric] daemonize_def Let_def split_beta
      by (cases no_change) (simp_all only: fst_ext log_fields fst_conv snd_conv simp_thms if_True if_False)
    from early_ends [OF this] show ?thesis using that by argo
  qed
  then show ?thesis
  proof cases
    case 2
    then show ?thesis using tab by blast
  next
    case 3
    define u where "u = ?s4"
    have "(r, t) = (if no_close then (Ret True, u) else redirect_std e u)" using 3 unfolding u_def .
    moreover have "tab (world u) = tab (world s)" unfolding u_def using tab(3) by (simp only: log_fields)
    ultimately show ?thesis
      using redirect_std_ok [OF assms(1-3), of u] by (auto split: if_splits)
  qed auto
qed

text \<open>A kernel that follows the rule of the lowest number; its world is the list of open descriptors.\<close>

definition lowest_free :: "fd list \<Rightarrow> nat" where
  "lowest_free l = first_from (\<lambda>n. int n \<notin> set l) (Suc (length l)) 0"

fun lowest_env :: "fd list env" where
  "lowest_env l (C_open p m) = (ok (int (lowest_free l)), int (lowest_free l) # l)"
| "lowest_env l (C_close f) = (ok 0, filter (\<lambda>g. g \<noteq> f) l)"
| "lowest_env l C_fork = (ok 0, l)"
| "lowest_env l C_setsid = (ok 7, l)"
| "lowest_env l (C_chdir p) = (ok 0, l)"
| "lowest_env l c = (refused, l)"

lemma lowest_free_fresh: "int (lowest_free l) \<notin> set l"
proof -
  have "\<exists>n < Suc (length l). int n \<notin> set l"
  proof (rule ccontr)
    assume "\<not> (\<exists>n < Suc (length l). int n \<notin> set l)"
    then have "int ` {..< Suc (length l)} \<subseteq> set l" by auto
    then have "card (int ` {..< Suc (length l)}) \<le> card (set l)" by (rule card_mono [rotated]) simp
    then show False using card_length [of l] by (simp add: card_image)
  qed
  then have "lowest_free l < Suc (length l)"
    using first_from_full_iff [of "\<lambda>n. int n \<notin> set l" "Suc (length l)"]
      first_from_bounds [of 0 "Suc (length l)" "\<lambda>n. int n \<notin> set l"]
    unfolding lowest_free_def by fastforce
  then show ?thesis unfolding lowest_free_def by (rule first_from_hit)
qed

lemma lowest_env_laws: "fd_law set lowest_env" "lowest_fd set lowest_env" "has_devnull lowest_env"
proof -
  show "fd_law set lowest_env"
    unfolding fd_law_def
  proof (intro allI impI)
    fix l c
    assume "plain c"
    then show "opened c (fst (lowest_env l c)) \<inter> set l = {} \<and> (\<forall>f \<in> opened c (fst (lowest_env l c)). 0 \<le> f) \<and>
      set (snd (lowest_env l c)) = set l - released c \<union> opened c (fst (lowest_env l c))"
      using lowest_free_fresh [of l] by (cases c) auto
  qed
  show "lowest_fd set lowest_env"
    unfolding lowest_fd_def
  proof (intro allI impI)
    fix l p m g
    assume g: "0 \<le> g \<and> g < ret (fst (lowest_env l (C_open p m)))"
    then have "nat g < lowest_free l" by (simp add: nat_less_iff)
    then have "int (nat g) \<in> set l" using first_from_least unfolding lowest_free_def by blast
    then show "g \<in> set l" using g by simp
  qed
  show "has_devnull lowest_env" by (simp add: has_devnull_def)
qed

theorem daemonize_redirects_witness:
  "\<exists>t. daemonize lowest_env False False (proc0 [0, 2, 5]) = (Ret True, t) \<and> set (world t) = {0, 1, 2, 5}"
proof -
  obtain r t where run: "daemonize lowest_env False False (proc0 [0, 2, 5]) = (r, t)" by fastforce
  have "r \<noteq> Ret False"
    using run by (auto simp: daemonize_def redirect_std_def Let_def split_beta proc0_def assert_that_def split: if_splits)
  then show ?thesis
    using daemonize_redirects [OF lowest_env_laws run] run by (auto simp: proc0_def)
qed

section \<open>The port on the command line\<close>

text \<open>The decimal numeral a user types.\<close>

fun dec :: "nat \<Rightarrow> string" where
  "dec n = (if n < 10 then [char_of (48 + n)] else dec (n div 10) @ [char_of (48 + n mod 10)])"

declare dec.simps [simp del]

lemma digits_value_snoc: "digits_value (ds @ [c]) = 10 * digits_value ds + (of_char c - 48)"
  by (simp add: digits_value_def)

lemma of_char_digit:
  assumes "d < 10"
  shows "(of_char (char_of (48 + d :: nat)) :: nat) = 48 + d"
    and "(of_char (char_of (48 + d :: nat)) :: int) = int (48 + d)"
proof -
  show "(of_char (char_of (48 + d :: nat)) :: nat) = 48 + d" using assms by simp
  have "(of_char (char_of (int (48 + d))) :: int) = int (48 + d)" using assms unfolding of_char_of by simp
  then show "(of_char (char_of (48 + d :: nat)) :: int) = int (48 + d)" by (simp only: char_of_nat)
qed

lemma dec_digits: "dec n \<noteq> [] \<and> list_all is_digit (dec n) \<and> digits_value (dec n) = int n"
proof (induction n rule: dec.induct)
  case (1 n)
  show ?case
  proof (cases "n < 10")
    case True
    then show ?thesis
      by (simp add: dec.simps [of n] is_digit_def of_char_digit digits_value_def del: of_nat_add)
  next
    case False
    then show ?thesis
      using 1 by (simp add: dec.simps [of n] is_digit_def digits_value_snoc of_char_digit) presburger
  qed
qed

lemma atoi_digits:
  assumes "ds \<noteq> []" and "list_all is_digit ds" and "digits_value ds < 2 ^ 31" and "0 \<le> digits_value ds"
  shows "atoi ds = Some (digits_value ds)"
proof -
  have "is_digit (hd ds)" using assms(1,2) by (cases ds) auto
  then have "\<not> is_space (hd ds)" "hd ds \<noteq> CHR ''-''" "hd ds \<noteq> CHR ''+''"
    by (auto simp: is_digit_def is_space_def)
  moreover from this(1) have "dropWhile is_space ds = ds" using assms(1) by (cases ds) auto
  moreover have tw: "takeWhile is_digit ds = ds"
    unfolding takeWhile_eq_all_conv using assms(2) by (simp add: list_all_iff)
  ultimately show ?thesis using assms(3,4) by (simp add: atoi_def Let_def tw)
qed

lemma atoi_dec: "n < 2 ^ 31 \<Longrightarrow> atoi (dec n) = Some (int n)"
  using atoi_digits [of "dec n"] dec_digits [of n] by simp

lemma adv_server_listens:
  assumes "start_libev_adv_server e pton main_loop join ip port concur s = (Ret (), t)"
    and "\<And>b u. extends u (snd (main_loop b u))" "\<And>u. extends u (join u)"
  shows "\<exists>base. C_lev (Evconnlistener_new_bind base ''conn_listener_cb''
     (sin_addr (make_addr pton ip port)) (sin_port (make_addr pton ip port))) \<in> set (calls t)"
proof -
  let ?a = "make_addr pton ip port"
  obtain v where t: "t = (let (b, s) = ext e (C_lev Base_new) v;
      base = ret b;
      (v, s) = ext e (C_lev (Evsignal_new base SIGINT ''signal_event_cb'')) s;
      sig_listener = ret v;
      s = extu e (C_lev (Event_add sig_listener)) s;
      (l, s) = ext e (C_lev (Evconnlistener_new_bind base ''conn_listener_cb'' (sin_addr ?a) (sin_port ?a))) s;
      con_listener = ret l;
      (r, s) = main_loop base s;
      s = log (L_data ''[Main thread] event base looper end, ret'' [r, errno s] []) s;
      s = extu e (C_lev (Evconnlistener_free con_listener)) s;
      s = extu e (C_lev (Event_free sig_listener)) s;
      s = extu e (C_lev (Base_free base)) s in join s)"
    using assms(1) unfolding start_libev_adv_server_def
    by (auto simp: then_do_Ret_iff Let_def split_beta)
  define base where "base = ret (fst (ext e (C_lev Base_new) v))"
  define l where "l = C_lev (Evconnlistener_new_bind base ''conn_listener_cb'' (sin_addr ?a) (sin_port ?a))"
  define w where "w = extu e (C_lev (Event_add (ret (fst (ext e (C_lev (Evsignal_new base SIGINT ''signal_event_cb''))
    (extu e (C_lev Base_new) v)))))) (extu e (C_lev (Evsignal_new base SIGINT ''signal_event_cb'')) (extu e (C_lev Base_new) v))"
  obtain x y z g where t': "t = join (extu e x (extu e y (extu e z (log g (snd (main_loop base (extu e l w)))))))"
    unfolding t Let_def split_beta base_def [symmetric] l_def [symmetric] w_def [symmetric] by blast
  have "extends (extu e l w) (extu e x (extu e y (extu e z (log g (snd (main_loop base (extu e l w)))))))"
    by (intro extends_extI) (use assms(2) in simp)
  then have "extends (extu e l w) t" unfolding t' using assms(3) extends_trans by blast
  then show ?thesis by (auto simp: extends_def l_def)
qed

text \<open>
  C34. Started with an address, a port number between 0 and 65535 and the default options, the server
  listens on that address and that port: the one \<open>evconnlistener_new_bind\<close> it makes carries the
  port in network byte order, although \<open>main\<close> squeezes it through a \<open>short\<close> that cannot hold
  the upper half of the ports. With fewer arguments it makes no call at all and returns 1.
\<close>

theorem server_main_listens:
  assumes run: "server_main e pton hw main_loop join argv s = (r, t)"
    and loop: "\<And>b u. extends u (snd (main_loop b u))" "\<And>u. extends u (join u)"
  shows "(length argv < 3 \<longrightarrow> r = Ret 1 \<and> trace t = trace s) \<and>
    (3 \<le> length argv \<and> argv ! 2 = dec p \<and> p < 2 ^ 16 \<and> r = Ret 0 \<longrightarrow>
       (\<exists>base port. C_lev (Evconnlistener_new_bind base ''conn_listener_cb''
            (case pton (argv ! 1) of Some a \<Rightarrow> a | None \<Rightarrow> 0) port) \<in> set (calls t) \<and>
          uint (ntohs port) = int p))"
proof (intro conjI impI)
  show "r = Ret 1" "trace t = trace s" if "length argv < 3"
    using run that by (auto simp: server_main_def)
next
  assume a: "3 \<le> length argv \<and> argv ! 2 = dec p \<and> p < 2 ^ 16 \<and> r = Ret 0"
  let ?port = "sint (word_of_int (int p) :: 16 word)"
  let ?addr = "make_addr pton (argv ! 1) ?port"
  have p: "atoi (argv ! 2) = Some (int p)" using a atoi_dec [of p] by simp
  obtain u concur where start: "start_libev_adv_server e pton main_loop join (argv ! 1) ?port concur u = (Ret (), t)"
    using run a p unfolding server_main_def
    by (auto simp: Let_def then_do_Ret_iff split: option.splits prod.splits)
  have "?addr = make_addr pton (argv ! 1) (int p)" by (simp add: make_addr_def)
  then have "uint (ntohs (sin_port ?addr)) = int p" using make_addr_port [of "int p"] a by simp
  moreover have "sin_addr ?addr = (case pton (argv ! 1) of Some a \<Rightarrow> a | None \<Rightarrow> 0)"
    by (simp add: make_addr_def Let_def split: option.split)
  ultimately show "\<exists>base port. C_lev (Evconnlistener_new_bind base ''conn_listener_cb''
            (case pton (argv ! 1) of Some a \<Rightarrow> a | None \<Rightarrow> 0) port) \<in> set (calls t) \<and>
          uint (ntohs port) = int p"
    using adv_server_listens [OF start loop] by metis
qed

text \<open>An environment in which every call succeeds with the same answer.\<close>

definition yes_env :: "'w env" where
  "yes_env w c = (ok_with 0 (P_pair 5 6), w)"

lemma yes_workers: "\<exists>t. start_workers yes_env is s = (Ret (), t)"
  by (induction "is" arbitrary: s) (simp_all add: Let_def split_beta yes_env_def)

lemma yes_server: "\<exists>t. start_libev_adv_server yes_env pton main_loop join ip port concur s = (Ret (), t)"
proof -
  obtain u where "start_workers yes_env [0..<nat concur] s = (Ret (), u)" using yes_workers by blast
  then show ?thesis unfolding start_libev_adv_server_def by (simp only: then_do.simps Let_def split_beta) blast
qed

lemma server_main_defaults:
  "atoi pt = Some p \<Longrightarrow> server_main e pton hw main_loop join [prog, ip, pt] s =
     then_do (start_libev_adv_server e pton main_loop join ip (sint (word_of_int p :: 16 word)) hw
       (raise_fd_limit e 4096 s)) (\<lambda>_ s. (Ret 0, s))"
  by (simp add: server_main_def Let_def)

theorem server_main_listens_witness:
  "\<exists>t base port. server_main yes_env (\<lambda>_. Some 1) 1 (\<lambda>b s. (0, s)) (\<lambda>s. s)
       [''server'', ''127.0.0.1'', dec 40000] (tp_of () [] [] 0) = (Ret 0, t) \<and>
     C_lev (Evconnlistener_new_bind base ''conn_listener_cb'' 1 port) \<in> set (calls t) \<and>
     uint (ntohs port) = 40000"
proof -
  have "atoi (dec 40000) = Some 40000" using atoi_dec [of 40000] by simp
  note start = server_main_defaults [OF this]
  have "\<exists>t. server_main yes_env pton 1 main_loop join [''server'', ''127.0.0.1'', dec 40000] s = (Ret 0, t)"
    for pton main_loop join and s :: "unit tp_st"
    unfolding start
  proof -
    let ?u = "raise_fd_limit yes_env 4096 s"
    obtain t where "start_libev_adv_server yes_env pton main_loop join ''127.0.0.1'' (sint (word_of_int 40000 :: 16 word)) 1 ?u
      = (Ret (), t)" using yes_server by blast
    then show "\<exists>t. then_do (start_libev_adv_server yes_env pton main_loop join ''127.0.0.1''
      (sint (word_of_int 40000 :: 16 word)) 1 ?u) (\<lambda>_ s. (Ret 0, s)) = (Ret 0, t)" by (simp only: then_do.simps) blast
  qed
  then obtain t where t: "server_main yes_env (\<lambda>_. Some 1) 1 (\<lambda>b s. (0, s)) (\<lambda>s. s)
       [''server'', ''127.0.0.1'', dec 40000] (tp_of () [] [] 0) = (Ret 0, t)" by blast
  show ?thesis using server_main_listens [OF t, of 40000] t by auto
qed

section \<open>The multi-connection server from its first call on\<close>

lemma reg_extu:
  "epoll_law reg e \<Longrightarrow> watched c = {} \<Longrightarrow> reg (world s) \<subseteq> R \<Longrightarrow> reg (world (extu e c s)) \<subseteq> R"
  using epoll_law_quiet [of reg e c "world s"] by auto

lemma set_no_blocking_tab: "fd_law tab e \<Longrightarrow> tab (world (set_no_blocking e f s)) = tab (world s)"
  by (simp add: set_no_blocking_def Let_def split_beta fd_law_frame)

lemma set_no_blocking_reg:
  assumes "epoll_law reg e" and "reg (world s) \<subseteq> R"
  shows "reg (world (set_no_blocking e f s)) \<subseteq> R"
  unfolding set_no_blocking_def Let_def split_beta
  by (rule reg_extu [OF assms(1) _ reg_extu [OF assms(1) _ assms(2)]]) simp_all

lemma add_sig_state: "add_sig e sig s = (r, t) \<Longrightarrow> t = extu e (C_sigaction sig (Handler ''sig_handler'') True) s"
  by (auto simp: add_sig_def Let_def split_beta)

lemma add_sig_tab: "fd_law tab e \<Longrightarrow> add_sig e sig s = (r, t) \<Longrightarrow> tab (world t) = tab (world s)"
  by (drule add_sig_state) (simp add: fd_law_frame)

lemma add_sig_reg:
  assumes "epoll_law reg e" and "add_sig e sig s = (r, t)" and "reg (world s) \<subseteq> R"
  shows "reg (world t) \<subseteq> R"
  unfolding add_sig_state [OF assms(2)] by (rule reg_extu [OF assms(1) _ assms(3)]) simp

lemma listen_on_reg:
  assumes "epoll_law reg e" and "listen_on e pton (\<lambda>_ s. s) ip port s = (Ret f, t)" and "reg (world s) \<subseteq> R"
  shows "reg (world t) \<subseteq> R"
proof -
  obtain b c where "t = extu e (C_listen f 1024) (extu e (C_bind f b c) (extu e (C_setsockopt f ''SO_REUSEADDR'' 1) (extu e C_socket s)))"
    using assms(2) by (auto simp: listen_on_def Let_def split_beta then_do_Ret_iff)
  note t = this and step = reg_extu [OF assms(1)]
  show ?thesis unfolding t by (rule step [OF _ step [OF _ step [OF _ step [OF _ assms(3)]]]]) simp_all
qed

lemma multi_con_setup_Ret:
  fixes s :: "'w proc"
  assumes "fd_law tab e" and "epoll_law reg e" and "multi_con_setup e pton ip port s = (Ret (f, p), t)"
  defines "a \<equiv> fst (e (world s) C_socketpair)"
  shows "tab (world t) = insert f (tab (world s) \<union> opened C_socketpair a) \<and>
    f \<notin> tab (world s) \<union> opened C_socketpair a \<and> 0 \<le> f \<and> (ret a = 0 \<longrightarrow> p = pair_of (payload a)) \<and>
    reg (world t) \<subseteq> reg (world s)"
proof -
  let ?p = "if ret a = 0 then pair_of (payload a) else (0, 0)"
  let ?v = "extu e C_socketpair s"
  let ?u = "set_no_blocking e (snd ?p) (set_no_blocking e (fst ?p) ?v)"
  obtain u1 u2 u3 u4 u5 u6 where u: "add_sig e SIGTERM ?u = (Ret (), u1)" "add_sig e SIGINT u1 = (Ret (), u2)"
    "add_sig e SIGPIPE u2 = (Ret (), u3)" "add_sig e SIGURG u3 = (Ret (), u4)" "add_sig e SIGALRM u4 = (Ret (), u5)"
    and l: "listen_on e pton (\<lambda>_ s. s) ip port u5 = (Ret f, u6)" and p: "p = ?p"
    and t: "t = log (L_text ''Server begin listening...'') u6"
    using assms(3) unfolding multi_con_setup_def Let_def split_beta fst_ext a_def [symmetric]
    by (auto simp: then_do_Ret_iff)
  have "tab (world ?v) = tab (world s) \<union> opened C_socketpair a"
    unfolding a_def by (simp add: fd_law_tab [OF assms(1)])
  then have u5: "tab (world u5) = tab (world s) \<union> opened C_socketpair a"
    unfolding u [THEN add_sig_tab [OF assms(1)]] set_no_blocking_tab [OF assms(1)] .
  have lu: "0 \<le> f \<and> f \<notin> tab (world u5) \<and> tab (world u6) = insert f (tab (world u5))"
    by (rule listen_on_Ret [OF assms(1) l]) simp
  have ru: "reg (world ?u) \<subseteq> reg (world s)"
    by (intro set_no_blocking_reg [OF assms(2)] reg_extu [OF assms(2)] order_refl) simp
  note r = u [THEN add_sig_reg [OF assms(2)]]
  have "reg (world u5) \<subseteq> reg (world s)" by (rule r(5) [OF r(4) [OF r(3) [OF r(2) [OF r(1) [OF ru]]]]])
  then have "reg (world u6) \<subseteq> reg (world s)" by (rule listen_on_reg [OF assms(2) l])
  with lu show ?thesis unfolding u5 t p by simp
qed

text \<open>What the set-up hands to the event loops.\<close>

lemma multi_con_started:
  fixes s :: "'w proc"
  assumes laws: "fd_law tab e" "epoll_law reg e"
    and init: "-1 \<notin> tab (world s)" "reg (world s) = {}"
    and pair: "ret (fst (e (world s) C_socketpair)) = 0"
    and run: "start_multi_con_server e pton junk ip port mt k s = (Ret (), m)"
  defines "p \<equiv> pair_of (payload (fst (e (world s) C_socketpair)))"
  obtains f u where "multi_con_setup e pton ip port s = (Ret (f, p), u)"
    and "f \<notin> tab (world s) \<union> {fst p, snd p}" and "{fst p, snd p} \<inter> tab (world s) = {}"
    and "tab (world u) = insert f (tab (world s) \<union> {fst p, snd p})" and "-1 \<notin> tab (world u)" and "reg (world u) = {}"
    and "\<And>t. m = Selecting t \<Longrightarrow> t = snd (serv_select e f k u)"
    and "\<And>t. m = Polling t \<Longrightarrow> t = snd (serv_poll e junk f k u)"
    and "\<And>t. m = Epolling t \<Longrightarrow> t = epoll_init e f (ep_start p u)"
proof -
  let ?B = "tab (world s) \<union> {fst p, snd p}"
  obtain f q u where start: "multi_con_setup e pton ip port s = (Ret (f, q), u)"
    using run by (auto simp: start_multi_con_server_def split: outcome.splits prod.splits)
  have u: "tab (world u) = insert f ?B" "f \<notin> ?B" "0 \<le> f" "q = p" "reg (world u) = {}"
    using multi_con_setup_Ret [OF laws start] pair init(2) unfolding p_def by auto
  have ends: "fst p \<in> opened C_socketpair (fst (e (world s) C_socketpair))"
    "snd p \<in> opened C_socketpair (fst (e (world s) C_socketpair))"
    using pair by (simp_all add: p_def)
  then have "0 \<le> fst p" "0 \<le> snd p" "{fst p, snd p} \<inter> tab (world s) = {}" using fd_law_fresh [OF laws(1)] by blast+
  moreover from this have "-1 \<notin> tab (world u)" using u(1,3) init(1) by auto
  moreover have "t = snd (serv_select e f k u)" if "m = Selecting t" for t
    using that run start by (cases mt) (auto simp: start_multi_con_server_def map_prod_def split_beta)
  moreover have "t = snd (serv_poll e junk f k u)" if "m = Polling t" for t
    using that run start by (cases mt) (auto simp: start_multi_con_server_def map_prod_def split_beta)
  moreover have "t = epoll_init e f (ep_start p u)" if "m = Epolling t" for t
    using that run start u(4) by (cases mt) (auto simp: start_multi_con_server_def map_prod_def split_beta)
  moreover have "multi_con_setup e pton ip port s = (Ret (f, p), u)" using start u(4) by simp
  ultimately show thesis using that [of f u] u by blast
qed

lemma ep_started:
  fixes u :: "'w proc"
  assumes laws: "fd_law tab e" "epoll_law reg e" and u: "{f, fst p} \<subseteq> tab (world u)" "reg (world u) = {}"
  defines "t \<equiv> epoll_init e f (ep_start p u)"
  shows "ep_book tab reg (tab (world t)) f p (ep_boot t)" and "tab (world t) = tab (world u) \<union> ({epfd t} \<inter> {0..})"
    and "{epfd t} \<inter> {0..} \<inter> tab (world u) = {}" and "sig_pipe_fd t = p"
proof -
  have s: "world (ep_start p u) = world u" "ep_fds (ep_start p u) = {||}" "sig_pipe_fd (ep_start p u) = p"
    by (simp_all add: ep_start_def proc.defs)
  have ok: "ep_ok tab reg (tab (world t)) {} f t"
    unfolding t_def by (rule epoll_init_ok [OF laws]) (use s u in auto)
  show "tab (world t) = tab (world u) \<union> ({epfd t} \<inter> {0..})" and pipe: "sig_pipe_fd t = p"
    unfolding t_def by (auto simp: epoll_init_def Let_def split_beta fd_law_tab [OF laws(1)] s)
  show "ep_book tab reg (tab (world t)) f p (ep_boot t)" using ok pipe by (simp add: ep_book_def ep_boot_def)
  have "epfd t = ret (fst (e (world u) (C_epoll_create (int EPOLL_FDS_LEN))))"
    unfolding t_def by (simp add: epoll_init_def Let_def split_beta s)
  then show "{epfd t} \<inter> {0..} \<inter> tab (world u) = {}"
    using fd_law_fresh [OF laws(1), of "epfd t" "C_epoll_create (int EPOLL_FDS_LEN)" "world u"] by (auto split: if_splits)
qed



definition boot_world :: script where
  "boot_world = script {0, 1, 2} (ok_with 0 (P_pair 3 4) # replicate 9 (ok 0) @ [ok 5, ok 0, ok 0, ok 0])"

lemma boot_setup:
  "\<exists>t. multi_con_setup script_env (\<lambda>_. None) ''127.0.0.1'' 8080 (proc0 boot_world) = (Ret (5, 3, 4), t)"
  by (simp add: multi_con_setup_def set_no_blocking_def add_sig_def listen_on_def assert_that_def Let_def split_beta
      boot_world_def script_def proc0_def script_step legal_def numeral_eq_Suc)

lemma boot_facts:
  "-1 \<notin> s_open (world (proc0 boot_world))" "s_reg (world (proc0 boot_world)) = {}"
  "ret (fst (script_env (world (proc0 boot_world)) C_socketpair)) = 0"
  "pair_of (payload (fst (script_env (world (proc0 boot_world)) C_socketpair))) = (3, 4)"
  "s_open (world (proc0 boot_world)) = {0, 1, 2}"
  by (simp_all add: boot_world_def script_def proc0_def script_step legal_def)

lemma boot_epoll:
  obtains t where "start_multi_con_server script_env (\<lambda>_. None) junk ''127.0.0.1'' 8080 MT_EPOLL 0 (proc0 boot_world) =
     (Ret (), Epolling t)"
  using boot_setup by (auto simp: start_multi_con_server_def)



section \<open>Signals that interrupt a wait\<close>

text \<open>
  A handler that runs while a thread waits makes \<open>select\<close>, \<open>poll\<close> and \<open>epoll_wait\<close> fail with \<open>EINTR\<close>;
  \<open>SA_RESTART\<close> does not restart them.
\<close>

fun is_wait :: "extcall \<Rightarrow> bool" where
  "is_wait (C_select n fs t) = True"
| "is_wait (C_poll ps t) = True"
| "is_wait (C_epoll_wait ep n t) = True"
| "is_wait c = False"

definition interrupted :: "'w \<Rightarrow> 'w env \<Rightarrow> bool" where
  "interrupted w e \<longleftrightarrow> (\<forall>c. is_wait c \<longrightarrow> ret (fst (e w c)) = -1 \<and> eno (fst (e w c)) = EINTR)"

text \<open>
  C32. What a signal does to a server that waits. The process pool goes on, in the parent and in the
  children, and handles the signal in its next round. The multi-connection server, with each of its three
  multiplexers, takes the interruption for a failure and exits with status 1: its descriptors are still
  open, \<open>running\<close> is still set, and the signal that was written to the pipe is never read.
\<close>

theorem interrupted_wait:
  assumes "fd_law tab e" and "interrupted w e" and "world p = w" and "world s = w" and "world q = w" and "world v = w"
    and "list_all fd_settable (fds s)"
  shows "(\<exists>t u. parent_round e p = Some (Ret True, t) \<and> child_round e f p = Some (Ret True, u) \<and>
      tab (world t) = tab w \<and> tab (world u) = tab w \<and> stop t = stop p \<and> stop u = stop p) \<and>
    (\<exists>t. select_round e lf s = (Exit 1, t) \<and> tab (world t) = tab w) \<and>
    (\<exists>t. poll_round e lf q = (Exit 1, t) \<and> tab (world t) = tab w) \<and>
    (\<exists>t. epoll_round e lf tr v = (Exit 1, t) \<and> tab (world t) = tab w \<and> running t = running v)"
proof -
  have wait: "ret (fst (e w c)) = -1" "eno (fst (e w c)) = EINTR" "tab (snd (e w c)) = tab w" if "is_wait c" for c
    using that assms(2) fd_law_frame [OF assms(1), of c w] by (cases c; simp add: interrupted_def)+
  have "\<exists>t u. parent_round e p = Some (Ret True, t) \<and> child_round e f p = Some (Ret True, u) \<and>
      tab (world t) = tab w \<and> tab (world u) = tab w \<and> stop t = stop p \<and> stop u = stop p"
    using wait assms(3) by (simp add: parent_round_def child_round_def Let_def split_beta)
  moreover have "\<exists>t. select_round e lf s = (Exit 1, t) \<and> tab (world t) = tab w"
    using wait assms(4,7) by (simp add: select_round_def Let_def split_beta)
  moreover have "\<exists>t. poll_round e lf q = (Exit 1, t) \<and> tab (world t) = tab w"
    using wait assms(5) by (simp add: poll_round_def Let_def split_beta)
  moreover have "\<exists>t. epoll_round e lf tr v = (Exit 1, t) \<and> tab (world t) = tab w \<and> running t = running v"
    using wait assms(6) by (simp add: epoll_round_def Let_def split_beta)
  ultimately show ?thesis by blast
qed

theorem interrupted_wait_witness:
  "\<exists>t. epoll_round script_env 3 EP_ET (ep_start (4, 5) (proc0 (script {3, 4, 5} [fail EINTR]))) = (Exit 1, t) \<and>
     s_open (world t) = {3, 4, 5} \<and> running t"
proof -
  let ?w = "script {3, 4, 5} [fail EINTR]"
  have w: "interrupted ?w script_env"
    unfolding interrupted_def by (intro allI impI, rename_tac c, case_tac c) (simp_all add: script_def script_step legal_def)
  have "world (ep_start (4, 5) (proc0 ?w)) = ?w" "running (ep_start (4, 5) (proc0 ?w))"
    "world (pool_of ?w [] 0) = ?w" "world (select_init 3 (proc0 ?w)) = ?w" "world (poll_init [] 3 (proc0 ?w)) = ?w"
    by (simp_all add: ep_start_def proc.defs proc0_def select_init_def poll_init_def)
  moreover have "list_all fd_settable (fds (select_init 3 (proc0 ?w)))"
    by (rule select_init_settable) (simp add: fd_settable_def FD_SETSIZE_def)
  ultimately have "\<exists>t. epoll_round script_env 3 EP_ET (ep_start (4, 5) (proc0 ?w)) = (Exit 1, t) \<and>
      s_open (world t) = s_open ?w \<and> running t = running (ep_start (4, 5) (proc0 ?w))"
    using interrupted_wait [OF script_fd_law w] by blast
  with \<open>running (ep_start (4, 5) (proc0 ?w))\<close> show ?thesis by (auto simp: script_def)
qed

end
