(* ===== verification/Spec2Isabelle.thy ===== *)
theory Spec2Isabelle
  imports ThreadSafeQueue MultiConn MultiConnEpoll ProcPool ProcPoolChild ProcPoolParent ProcPoolSys
    ProcPoolStop ThreadPoolSys ThreadPoolRun ThreadPoolStop LibevMulti LibevLife Client Simple Startup
begin

text \<open>
  A model of linux_server_programming, a collection of C++ servers for Linux and the clients that
  exercise them, with the theorems that make it correct.

  \<^bold>\<open>The program.\<close> src/server holds six servers, each started by one function from
  server/main.cpp: a server for one connection (simple_tcp_server.hpp), one that sends a file
  (simple_file_down_server.hpp), one that multiplexes its connections over select, poll or epoll
  (multi_connection_server.hpp), a single-threaded and a multi-threaded libevent server
  (libev_multi_con_server.hpp, libev_half_sync_reactive_thread_pool_server.hpp) and a pool of
  processes (epoll_half_sync_reactive_proc_pool_server.hpp). thread_safe_queue.hpp is the queue
  between the main thread and the workers of the thread pool server; tools.hpp turns a process into a
  daemon. src/client holds a load generator (libevent_no_block_client.hpp) and a client for one
  connection (simple_tcp_client.hpp).

  \<^bold>\<open>How code becomes definitions.\<close> A function that touches the outside is a function from
  a state to an outcome and a state. The state is a record that extends \<open>proc\<close> (Posix): the hidden
  world, \<open>errno\<close>, the trace of calls with their answers, and the lines logged. What answers a system
  or libevent call is the parameter \<open>e\<close> of type \<open>env\<close>; \<open>ext\<close> performs one call. The outcome says
  whether the function returned, called \<open>exit\<close>, failed an assertion or did something undefined
  (an index out of range, a division by zero, a missing \<open>return\<close>). Loops that read until nothing is
  left are \<open>loop_until\<close>, a partial function whose value \<open>None\<close> is a loop that never ends, so that
  every claim of termination is a theorem. The endless loops of the servers are followed for \<open>k\<close> rounds,
  with \<open>k\<close> arbitrary (\<open>iterate\<close>, \<open>while_rounds\<close>). Threads are step relations: one step is one access
  to shared state, and the theorems are about every interleaving.

  \<^bold>\<open>The theories.\<close>
  \<^item> Prelude: outcomes, loops, C strings, scans over slots, and the interfaces \<open>step_invariant\<close>,
    \<open>simulation\<close> (a machine implements a specification), \<open>comes_to_rest\<close> (a machine that ends under every
    schedule) and \<open>round_robin\<close>.
  \<^item> Posix: calls, answers, \<open>ext\<close>; the documented behaviour the theorems rely on, as predicates of the
    environment (\<open>fd_law\<close>: calls that open descriptors return fresh ones, close frees them;
    \<open>recv_law\<close>, \<open>recv_finite\<close>, \<open>poll_law\<close>, \<open>select_law\<close>, \<open>epoll_law\<close>, \<open>pair_law\<close>,
    \<open>waitpid_finite\<close>); the interface \<open>recv_loop\<close>; and the scripted environment that satisfies all of
    these laws and in which the witnesses run.
  \<^item> Net: address structures and byte order, opening a listening socket (\<open>listen_on\<close>), the message loop of the
    bufferevent callbacks and its laws.
  \<^item> ThreadSafeQueue: thread_safe_queue.hpp. The member functions; \<open>tsq_step\<close> interleaves their single accesses
    to the queue, the mutex and the condition variable. Mutual exclusion, first in first out delivery, no lost wakeup, no deadlock.
    The interface \<open>fifo_queue\<close> is what the thread pool server uses.
  \<^item> MultiConn, MultiConnEpoll: multi_connection_server.hpp. Shared helpers, \<open>serv_select\<close> and \<open>serv_poll\<close>
    round by round; the epoll reactor with its dispatched tasks, interleaved event by event and worker statement by
    worker statement (\<open>ep_step\<close>). Accounting of descriptors, what
    each round watches and reads, the edge triggered reader's termination, signals, and the two leaks.
  \<^item> ProcPool, ProcPoolChild, ProcPoolParent: SrvProcessPool and TestConn of the process pool server, as one
    process sees them. Forking and its descriptors, dispatch to the children in turn, reaping and termination; the
    child's service; the type of the parent's state from the fork loop on.
  \<^item> ProcPoolSys: parent and children together (\<open>pp_step\<close>): the backlog of the listening socket, one pipe per
    child, and children that die at any moment. The machine refines a fair dealer (\<open>dealer_step\<close>), never locks up while
    a child lives, and the code of the parent and of the child takes its steps, calls of \<open>send\<close> included.
  \<^item> ProcPoolStop: the shutdown of the pool (\<open>stop_step\<close>): signals to the parent, children that obey or crash,
    zombies and their reaping. Every schedule ends with all children reaped once a request to end has arrived, within
    \<open>stop_left\<close> steps; unless all children ended before the parent had its handlers, when it never stops. The
    code of the signal cases takes the machine's steps.
  \<^item> ThreadPool, ThreadPoolSys, ThreadPoolRun: the thread pool server. The callbacks as sequential code, then
    \<open>tp_step\<close>, their accesses to queues and pipes interleaved. It refines the dispatcher \<open>disp_step\<close>,
    which deals connections to the workers in turn; from this follow fair delivery and that no connection is lost.
    ThreadPoolRun ties the two models together: a callback run on its own is a run of the machine. ThreadPoolStop
    is the shutdown: it ends under every schedule when the requests to end fit into the pipes, and need not otherwise.
  \<^item> LibevMulti: the single-threaded libevent server. Opening the socket, both kinds of callbacks.
    LibevLife follows the callbacks in any order (\<open>lm_step\<close>): every connection belongs to one bufferevent, from the
    first call of the server to its return, given how libevent treats descriptors (\<open>bev_law\<close>).
  \<^item> Client: the load generator. Division of the clients, completion under interleaving, and that the
    callback is a run of the interleaved machine.
  \<^item> Simple: the three programs for a single connection.
  \<^item> Startup: both \<open>main\<close> functions with \<open>atoi\<close>, \<open>start_multi_con_server\<close>,
    \<open>start_process_pool_server\<close>, \<open>daemonize\<close>, \<open>get_thread_id\<close>. Here the parts meet: the descriptors of the
    multi-connection server from its first call to its exit, the port from the command line to the listener, and what
    a signal does to each server that waits.

  \<^bold>\<open>Parameters.\<close> \<open>inet_pton\<close>, the number of processors, \<open>event_base_dispatch\<close> and \<open>join\<close> of the
  boost thread pool are arguments of the definitions that use them, as is the constructor of a \<open>shared_ptr\<close> from an
  element that \<open>pop()\<close> and \<open>try_pop()\<close> of the queue need (it does not exist for most element types). The integers that cross a
  16 or 32 bit variable where it matters (ports, counters, event masks, a signal in a byte) are words.

  \<^bold>\<open>Not modelled.\<close> Signals that reach the parent of the process pool before it has its handlers (they
  end it at once) and a signal pipe of the pool that is full; callbacks that libevent still runs in the turn in which
  the thread pool server is told to stop; client addresses, process numbers and \<open>strerror\<close> texts in log lines;
  the distinction between \<open>std::cout\<close> and syslog; a boost thread pool with a negative size; data
  races on plain variables (\<open>running\<close> of the epoll server) as the C++ memory model defines them.
\<close>

end
